(* ===== verification/Prelude.thy ===== *)
theory Prelude
  imports Main "HOL-Library.Word"
begin

text \<open>
  Shared vocabulary of the development: the C integer types at their width (LP64: \<open>size_t\<close>,
  \<open>ssize_t\<close>, \<open>loff_t\<close> and \<open>long\<close> have 64 bits), pointers and byte blocks, the outcome of a C
  function that may block or run into undefined behaviour, the error numbers the driver returns,
  and the generic lemmas on words and lists that the component theories share.
\<close>

subsection \<open>Machine types\<close>

type_synonym byte = "8 word"
type_synonym uint8 = "8 word"
type_synonym uint32 = "32 word"
type_synonym size_t = "64 word"
type_synonym ssize_t = "64 word"
type_synonym loff_t = "64 word"

text \<open>Pointers are addresses; the null pointer is address 0, as in the C code.\<close>

type_synonym ptr = nat

abbreviation (input) NULL :: ptr where
  "NULL \<equiv> 0"

text \<open>A newline, the byte both the driver and the server look for.\<close>

abbreviation newline :: byte where
  "newline \<equiv> 10"

text \<open>Error numbers, as the kernel and libc headers give them.\<close>

abbreviation ENOMEM :: "'a::len word" where "ENOMEM \<equiv> 12"
abbreviation EFAULT :: "'a::len word" where "EFAULT \<equiv> 14"
abbreviation EINVAL :: "'a::len word" where "EINVAL \<equiv> 22"
abbreviation ENOTTY :: "'a::len word" where "ENOTTY \<equiv> 25"

subsection \<open>Outcomes\<close>

text \<open>
  A call returns a value, or it waits for a mutex that is already held and does not come back
  (\<open>Blocked\<close>), or it executes an operation that C leaves undefined (\<open>Undef\<close>).
\<close>

datatype 'a outcome = Ret 'a | Blocked | Undef

fun obind :: "'a outcome \<Rightarrow> ('a \<Rightarrow> 'b outcome) \<Rightarrow> 'b outcome" where
  "obind (Ret a) f = f a"
| "obind Blocked f = Blocked"
| "obind Undef f = Undef"

lemma obind_Ret_iff: "obind m f = Ret b \<longleftrightarrow> (\<exists>a. m = Ret a \<and> f a = Ret b)"
  by (cases m) auto

lemma obind_assoc: "obind (obind m f) g = obind m (\<lambda>a. obind (f a) g)"
  by (cases m) auto

text \<open>The same for computations that may also run forever (\<open>None\<close>).\<close>

fun tbind :: "'a outcome option \<Rightarrow> ('a \<Rightarrow> 'b outcome option) \<Rightarrow> 'b outcome option" where
  "tbind None f = None"
| "tbind (Some (Ret a)) f = f a"
| "tbind (Some Blocked) f = Some Blocked"
| "tbind (Some Undef) f = Some Undef"

lemma tbind_Ret_iff:
  "tbind m f = Some (Ret b) \<longleftrightarrow> (\<exists>a. m = Some (Ret a) \<and> f a = Some (Ret b))"
  by (cases "(m, f)" rule: tbind.cases) auto

subsection \<open>Collections of facts\<close>

named_theorems buf_simps \<open>how the fields of a buffer change under its operations\<close>
named_theorems lock_simps \<open>the mutex primitives\<close>

subsection \<open>Words\<close>

lemma unat_add_nowrap:
  fixes a b :: "'a::len word"
  assumes "unat a + unat b < 2 ^ LENGTH('a)"
  shows "unat (a + b) = unat a + unat b"
  using assms by (simp add: unat_word_ariths)

lemma unat_sub_le:
  fixes a b :: "'a::len word"
  assumes "b \<le> a"
  shows "unat (a - b) = unat a - unat b"
  using assms by (rule unat_sub)

lemma unat64_bound: "unat (a :: 64 word) < 2 ^ 64"
  using unsigned_less [of a, where ?'a = nat] by simp

lemma unat_Suc_less:
  fixes i n :: "'a::len word"
  assumes "i < n"
  shows "unat (i + 1) = Suc (unat i)"
  using assms by unat_arith

lemma unat_ucast_up:
  fixes x :: "'a::len word"
  assumes "LENGTH('a) \<le> LENGTH('b::len)"
  shows "unat (ucast x :: 'b word) = unat x"
proof -
  have "unat x < 2 ^ LENGTH('a)" by (rule unsigned_less)
  also have "\<dots> \<le> 2 ^ LENGTH('b)" using assms by (intro power_increasing) simp_all
  finally have "unat (of_nat (unat x) :: 'b word) = unat x"
    by (simp add: unat_of_nat del: of_nat_unat)
  then show ?thesis by simp
qed

lemma sint64_word_of_int:
  "- (2 ^ 63) \<le> i \<Longrightarrow> i < 2 ^ 63 \<Longrightarrow> sint (word_of_int i :: 64 word) = i"
  by (simp add: signed_of_int signed_take_bit_int_eq_self)

lemma sint_of_nat64: "n < 2 ^ 63 \<Longrightarrow> sint (of_nat n :: 64 word) = int n"
  using sint64_word_of_int [of "int n"] by simp

subsection \<open>Lists\<close>

lemma drop_append_length: "drop (length xs + n) (xs @ ys) = drop n ys"
  by simp

lemma sum_list_update_nat:
  assumes "i < length xs"
  shows "sum_list (xs[i := (x::nat)]) + xs ! i = sum_list xs + x"
proof -
  have split: "xs = take i xs @ xs ! i # drop (Suc i) xs"
    using assms by (rule id_take_nth_drop)
  have "xs[i := x] = take i xs @ x # drop (Suc i) xs"
    using assms by (rule upd_conv_take_nth_drop)
  moreover have "sum_list xs = sum_list (take i xs) + xs ! i + sum_list (drop (Suc i) xs)"
    by (subst split) simp
  ultimately show ?thesis by simp
qed

lemma in_set_tlD: "x \<in> set (tl xs) \<Longrightarrow> x \<in> set xs"
  by (cases xs) auto

lemma take_length_take: "take (length (take n zs)) (zs @ ys) = take n zs"
  by (cases "n \<le> length zs") (auto simp: min_def)

lemma length_concat_sum: "length (concat xss) = sum_list (map length xss)"
  by (simp add: length_concat)

end
