(* ===== verification/Kernel_Interface.thy ===== *)
theory Kernel_Interface
  imports Prelude
begin

text \<open>
  The kernel services the driver calls. Their code is not in the repository, so they are a
  parameter of the driver model (the record \<open>kernel\<close>); what the driver relies on is stated as
  the laws \<open>kernel_ok\<close>: the allocator returns NULL or a block not in use, \<open>krealloc\<close> keeps the
  old bytes, the user-copy functions report how many bytes they did not copy, and
  \<open>fixed_size_llseek\<close> moves within the given size. The heap maps the address of a block to its
  bytes; user memory maps addresses to bytes.
\<close>

type_synonym heap = "ptr \<Rightarrow> byte list option"
type_synonym umem = "nat \<Rightarrow> byte"

record kernel =
  kmalloc :: "heap \<Rightarrow> size_t \<Rightarrow> ptr \<times> heap"
  krealloc :: "heap \<Rightarrow> ptr \<Rightarrow> size_t \<Rightarrow> ptr \<times> heap"
  kfree :: "heap \<Rightarrow> ptr \<Rightarrow> heap"
  zero_size_ptr :: ptr
  copy_to_user :: "umem \<Rightarrow> nat \<Rightarrow> byte list \<Rightarrow> size_t \<times> umem"
  copy_from_user :: "umem \<Rightarrow> nat \<Rightarrow> size_t \<Rightarrow> size_t \<times> byte list"
  fixed_size_llseek :: "loff_t \<Rightarrow> loff_t \<Rightarrow> nat \<Rightarrow> loff_t \<Rightarrow> loff_t \<times> loff_t"
  ioc_type :: "uint32 \<Rightarrow> uint32"
  ioc_nr :: "uint32 \<Rightarrow> uint32"
  iowr :: "uint32 \<Rightarrow> uint32 \<Rightarrow> nat \<Rightarrow> uint32"

subsection \<open>Blocks of memory\<close>

definition mem_read :: "heap \<Rightarrow> ptr \<Rightarrow> nat \<Rightarrow> nat \<Rightarrow> byte list option" where
  "mem_read h p off n =
     (if n = 0 then Some []
      else case h p of
        None \<Rightarrow> None
      | Some blk \<Rightarrow> if off + n \<le> length blk then Some (take n (drop off blk)) else None)"

definition mem_write :: "heap \<Rightarrow> ptr \<Rightarrow> nat \<Rightarrow> byte list \<Rightarrow> heap option" where
  "mem_write h p off bs =
     (if bs = [] then Some h
      else case h p of
        None \<Rightarrow> None
      | Some blk \<Rightarrow>
          if off + length bs \<le> length blk
          then Some (h(p \<mapsto> take off blk @ bs @ drop (off + length bs) blk)) else None)"

definition mem_total :: "heap \<Rightarrow> nat" where
  "mem_total h = (\<Sum>p \<in> dom h. length (the (h p)))"

text \<open>
  A heap the kernel can be in: finitely many blocks, none at NULL or at the zero-size pointer, and
  less than half of the address space in all.
\<close>

definition mem_ok :: "kernel \<Rightarrow> heap \<Rightarrow> bool" where
  "mem_ok k h \<longleftrightarrow> finite (dom h) \<and> h NULL = None \<and> h (zero_size_ptr k) = None \<and>
     mem_total h < 2 ^ 63"

definition put_user :: "umem \<Rightarrow> nat \<Rightarrow> byte list \<Rightarrow> umem" where
  "put_user m u bs = (\<lambda>a. if u \<le> a \<and> a < u + length bs then bs ! (a - u) else m a)"

definition get_user :: "umem \<Rightarrow> nat \<Rightarrow> nat \<Rightarrow> byte list" where
  "get_user m u n = map m [u..<u + n]"

subsection \<open>The laws\<close>

definition kmalloc_ok :: "kernel \<Rightarrow> bool" where
  "kmalloc_ok k \<longleftrightarrow> (\<forall>h n p h'. mem_ok k h \<longrightarrow> kmalloc k h n = (p, h') \<longrightarrow>
     mem_ok k h' \<and> (p = NULL \<longrightarrow> h' = h) \<and>
     (p \<noteq> NULL \<longrightarrow>
        (if n = 0 then p = zero_size_ptr k \<and> h' = h
         else h p = None \<and> p \<noteq> zero_size_ptr k \<and>
              (\<exists>blk. length blk = unat n \<and> h' = h(p \<mapsto> blk)))))"

definition krealloc_ok :: "kernel \<Rightarrow> bool" where
  "krealloc_ok k \<longleftrightarrow> (\<forall>h q n p h'. mem_ok k h \<longrightarrow> n \<noteq> 0 \<longrightarrow> (q = NULL \<or> h q \<noteq> None) \<longrightarrow>
     krealloc k h q n = (p, h') \<longrightarrow>
     mem_ok k h' \<and> (p = NULL \<longrightarrow> h' = h) \<and>
     (p \<noteq> NULL \<longrightarrow> p \<noteq> zero_size_ptr k \<and> (h(q := None)) p = None \<and>
        (\<exists>blk. length blk = unat n \<and> h' = (h(q := None))(p \<mapsto> blk) \<and>
           (\<forall>old. h q = Some old \<longrightarrow> take (length old) blk = take (unat n) old))))"

definition kfree_ok :: "kernel \<Rightarrow> bool" where
  "kfree_ok k \<longleftrightarrow> (\<forall>h p. kfree k h p = h(p := None)) \<and> zero_size_ptr k \<noteq> NULL"

definition user_copy_ok :: "kernel \<Rightarrow> bool" where
  "user_copy_ok k \<longleftrightarrow>
     (\<forall>m u bs n m'. copy_to_user k m u bs = (n, m') \<longrightarrow>
        unat n \<le> length bs \<and> m' = put_user m u (take (length bs - unat n) bs)) \<and>
     (\<forall>m u n r bs. copy_from_user k m u n = (r, bs) \<longrightarrow>
        unat r \<le> unat n \<and> length bs = unat n \<and> (r = 0 \<longrightarrow> bs = get_user m u (unat n)))"

text \<open>
  \<open>SEEK_SET\<close>, \<open>SEEK_CUR\<close> and \<open>SEEK_END\<close> are 0, 1 and 2. Asking for the current position
  (\<open>SEEK_CUR\<close> and 0) always returns it.
\<close>

definition seek_target :: "loff_t \<Rightarrow> loff_t \<Rightarrow> nat \<Rightarrow> loff_t \<Rightarrow> int" where
  "seek_target pos off whence maxsize =
     (if whence = 0 then sint off
      else if whence = 1 then sint pos + sint off else sint maxsize + sint off)"

definition seek_allowed :: "loff_t \<Rightarrow> loff_t \<Rightarrow> nat \<Rightarrow> loff_t \<Rightarrow> bool" where
  "seek_allowed pos off whence maxsize \<longleftrightarrow>
     (whence = 1 \<and> off = 0) \<or>
     (whence \<le> 2 \<and> 0 \<le> seek_target pos off whence maxsize \<and>
      seek_target pos off whence maxsize \<le> sint maxsize)"

definition llseek_ok :: "kernel \<Rightarrow> bool" where
  "llseek_ok k \<longleftrightarrow>
     (\<forall>pos maxsize. fixed_size_llseek k pos 0 1 maxsize = (pos, pos)) \<and>
     (\<forall>pos off whence maxsize r pos'.
     fixed_size_llseek k pos off whence maxsize = (r, pos') \<longrightarrow> 0 \<le> sint pos \<longrightarrow> 0 \<le> sint maxsize \<longrightarrow>
     (if seek_allowed pos off whence maxsize
      then r = word_of_int (seek_target pos off whence maxsize) \<and> pos' = r
      else sint r < 0 \<and> pos' = pos))"

text \<open>\<open>_IOWR\<close> packs a type and a number, each of eight bits, that \<open>_IOC_TYPE\<close> and \<open>_IOC_NR\<close> read
  back.\<close>

definition ioc_ok :: "kernel \<Rightarrow> bool" where
  "ioc_ok k \<longleftrightarrow> (\<forall>t n s. t < 256 \<longrightarrow> n < 256 \<longrightarrow>
     ioc_type k (iowr k t n s) = t \<and> ioc_nr k (iowr k t n s) = n)"

definition kernel_ok :: "kernel \<Rightarrow> bool" where
  "kernel_ok k \<longleftrightarrow> kmalloc_ok k \<and> krealloc_ok k \<and> kfree_ok k \<and> user_copy_ok k \<and>
     llseek_ok k \<and> ioc_ok k"

subsection \<open>Lemmas on memory\<close>

lemma mem_read_all: "h p = Some blk \<Longrightarrow> mem_read h p 0 (length blk) = Some blk"
  by (simp add: mem_read_def)

lemma mem_read_part:
  "h p = Some blk \<Longrightarrow> off + n \<le> length blk \<Longrightarrow> mem_read h p off n = Some (take n (drop off blk))"
  by (simp add: mem_read_def)

lemma mem_read_upd_other: "q \<noteq> p \<Longrightarrow> mem_read (h(q := x)) p off n = mem_read h p off n"
  by (simp add: mem_read_def)

lemma mem_write_at_end:
  assumes "h p = Some blk" and "off + length bs = length blk"
  shows "mem_write h p off bs = Some (h(p \<mapsto> take off blk @ bs))"
  using assms by (auto simp: mem_write_def fun_upd_idem)

lemma mem_total_upd_same_length:
  assumes "finite (dom h)" and "h p = Some blk" and "length blk' = length blk"
  shows "mem_total (h(p \<mapsto> blk')) = mem_total h"
proof -
  have "dom (h(p \<mapsto> blk')) = dom h" using assms(2) by auto
  then show ?thesis
    unfolding mem_total_def by (rule sum.cong) (use assms in auto)
qed

lemma mem_ok_upd_same_length:
  "mem_ok k h \<Longrightarrow> h p = Some blk \<Longrightarrow> length blk' = length blk \<Longrightarrow> mem_ok k (h(p \<mapsto> blk'))"
  by (auto simp: mem_ok_def mem_total_upd_same_length)

lemma mem_total_free: "finite (dom h) \<Longrightarrow> mem_total (h(p := None)) \<le> mem_total h"
  unfolding mem_total_def by (rule order_trans [OF _ sum_mono2 [of "dom h"]])
    (auto intro: sum_mono)

lemma mem_ok_free: "mem_ok k h \<Longrightarrow> mem_ok k (h(p := None))"
  using mem_total_free [of h p] by (auto simp: mem_ok_def)

lemma blocks_fit:
  assumes fin: "finite (dom h)" and dist: "distinct ps" and sub: "set ps \<subseteq> dom h"
  shows "sum_list (map (\<lambda>p. length (the (h p))) ps) \<le> mem_total h"
proof -
  have "sum_list (map (\<lambda>p. length (the (h p))) ps) = (\<Sum>p \<in> set ps. length (the (h p)))"
    using dist by (simp add: sum_list_distinct_conv_sum_set)
  also have "\<dots> \<le> mem_total h"
    unfolding mem_total_def by (rule sum_mono2 [OF fin sub]) simp
  finally show ?thesis .
qed

lemma block_fits: "mem_ok k h \<Longrightarrow> h p = Some blk \<Longrightarrow> length blk < 2 ^ 63"
  using blocks_fit [of h "[p]"] domI [of h p blk] by (auto simp: mem_ok_def)

lemma kmalloc_cases:
  assumes "kernel_ok k" and "mem_ok k h" and "kmalloc k h n = (p, h')"
  obtains (fail) "p = NULL" and "h' = h"
  | (zero) "p \<noteq> NULL" and "n = 0" and "p = zero_size_ptr k" and "h' = h"
  | (block) blk where "p \<noteq> NULL" and "n \<noteq> 0" and "h p = None" and "length blk = unat n"
      and "h' = h(p \<mapsto> blk)" and "mem_ok k h'"
proof -
  have law: "mem_ok k h' \<and> (p = NULL \<longrightarrow> h' = h) \<and>
     (p \<noteq> NULL \<longrightarrow>
        (if n = 0 then p = zero_size_ptr k \<and> h' = h
         else h p = None \<and> p \<noteq> zero_size_ptr k \<and>
              (\<exists>blk. length blk = unat n \<and> h' = h(p \<mapsto> blk))))"
    using assms unfolding kernel_ok_def kmalloc_ok_def by blast
  show thesis
  proof (cases "p = NULL")
    case True
    with law fail show ?thesis by blast
  next
    case nz: False
    show ?thesis
    proof (cases "n = 0")
      case True
      with law nz zero show ?thesis by auto
    next
      case False
      with law nz obtain blk where "length blk = unat n" and "h' = h(p \<mapsto> blk)" by auto
      with law nz False show ?thesis by (intro block) auto
    qed
  qed
qed

lemma krealloc_cases:
  assumes "kernel_ok k" and "mem_ok k h" and "n \<noteq> 0" and "q = NULL \<or> h q \<noteq> None"
    and "krealloc k h q n = (p, h')"
  obtains (fail) "p = NULL" and "h' = h"
  | (block) blk where "p \<noteq> NULL" and "(h(q := None)) p = None" and "length blk = unat n"
      and "h' = (h(q := None))(p \<mapsto> blk)" and "mem_ok k h'"
      and "\<forall>old. h q = Some old \<longrightarrow> take (length old) blk = take (unat n) old"
  using assms unfolding kernel_ok_def krealloc_ok_def by metis

lemma get_user_length [simp]: "length (get_user m u n) = n"
  by (simp add: get_user_def)

end
