(* ===== verification/Example_Kernel.thy ===== *)
theory Example_Kernel
  imports Kernel_Interface
begin

text \<open>
  One kernel that keeps the laws of \<open>kernel_ok\<close>, so that they are known to be satisfiable: blocks
  come from the addresses 32 to 63, a fresh block is filled with the byte 170, \<open>krealloc\<close> grows a
  block in place, user copies always succeed. It is used in the witnesses only.
\<close>

definition addr_pool :: "ptr list" where
  "addr_pool = [32..<64]"

definition fresh_addr :: "heap \<Rightarrow> ptr" where
  "fresh_addr h = (case filter (\<lambda>a. h a = None) addr_pool of [] \<Rightarrow> NULL | a # _ \<Rightarrow> a)"

definition example_kmalloc :: "heap \<Rightarrow> size_t \<Rightarrow> ptr \<times> heap" where
  "example_kmalloc h n =
     (if n = 0 then (16, h)
      else if fresh_addr h = NULL \<or> mem_total h + unat n \<ge> 2 ^ 63 then (NULL, h)
      else (fresh_addr h, h(fresh_addr h \<mapsto> replicate (unat n) 170)))"

definition example_krealloc :: "heap \<Rightarrow> ptr \<Rightarrow> size_t \<Rightarrow> ptr \<times> heap" where
  "example_krealloc h q n =
     (case h q of
        None \<Rightarrow> example_kmalloc h n
      | Some old \<Rightarrow>
          if mem_total h + unat n \<ge> 2 ^ 63 then (NULL, h)
          else (q, h(q \<mapsto> take (unat n) (old @ replicate (unat n) 170))))"

definition example_llseek :: "loff_t \<Rightarrow> loff_t \<Rightarrow> nat \<Rightarrow> loff_t \<Rightarrow> loff_t \<times> loff_t" where
  "example_llseek pos off whence maxsize =
     (if seek_allowed pos off whence maxsize
      then (word_of_int (seek_target pos off whence maxsize),
            word_of_int (seek_target pos off whence maxsize))
      else (- EINVAL, pos))"

definition example_kernel :: kernel where
  "example_kernel =
     \<lparr>kmalloc = example_kmalloc,
      krealloc = example_krealloc,
      kfree = (\<lambda>h p. h(p := None)),
      zero_size_ptr = 16,
      copy_to_user = (\<lambda>m u bs. (0, put_user m u bs)),
      copy_from_user = (\<lambda>m u n. (0, get_user m u (unat n))),
      fixed_size_llseek = example_llseek,
      ioc_type = (\<lambda>c. take_bit 8 (drop_bit 8 c)),
      ioc_nr = (\<lambda>c. take_bit 8 c),
      iowr = (\<lambda>t n s. or (or (or (take_bit 8 n) (push_bit 8 (take_bit 8 t)))
                        (push_bit 16 (of_nat s))) (push_bit 30 3))\<rparr>"

lemma example_kernel_simps [simp]:
  "kmalloc example_kernel = example_kmalloc"
  "krealloc example_kernel = example_krealloc"
  "kfree example_kernel = (\<lambda>h p. h(p := None))"
  "zero_size_ptr example_kernel = 16"
  "copy_to_user example_kernel = (\<lambda>m u bs. (0, put_user m u bs))"
  "copy_from_user example_kernel = (\<lambda>m u n. (0, get_user m u (unat n)))"
  "fixed_size_llseek example_kernel = example_llseek"
  by (simp_all add: example_kernel_def)

lemma addr_pool_ge: "a \<in> set addr_pool \<Longrightarrow> 32 \<le> a"
  by (auto simp: addr_pool_def)

lemma fresh_addr_free:
  assumes "fresh_addr h \<noteq> NULL"
  shows "h (fresh_addr h) = None" and "32 \<le> fresh_addr h"
proof -
  obtain a as where l: "filter (\<lambda>a. h a = None) addr_pool = a # as"
    using assms by (auto simp: fresh_addr_def split: list.splits)
  then have "a \<in> set (filter (\<lambda>a. h a = None) addr_pool)" by simp
  then have "h a = None" and "a \<in> set addr_pool" by simp_all
  then show "h (fresh_addr h) = None" and "32 \<le> fresh_addr h"
    by (simp_all add: fresh_addr_def l addr_pool_ge)
qed

lemma mem_total_alloc:
  assumes "finite (dom h)" and "h p = None"
  shows "mem_total (h(p \<mapsto> blk)) = mem_total h + length blk"
proof -
  have "mem_total (h(p \<mapsto> blk)) = length blk + (\<Sum>q \<in> dom h. length (the ((h(p \<mapsto> blk)) q)))"
    unfolding mem_total_def using assms by (simp add: domIff)
  also have "(\<Sum>q \<in> dom h. length (the ((h(p \<mapsto> blk)) q))) = mem_total h"
    unfolding mem_total_def by (rule sum.cong) (use assms in \<open>auto simp: domIff\<close>)
  finally have "mem_total (h(p \<mapsto> blk)) = length blk + mem_total h" .
  then show ?thesis by (simp only: add.commute)
qed

lemma mem_total_overwrite:
  assumes fin: "finite (dom h)" and "h p = Some old"
  shows "mem_total (h(p \<mapsto> blk)) \<le> mem_total h + length blk"
proof -
  have "mem_total (h(p \<mapsto> blk)) = mem_total ((h(p := None))(p \<mapsto> blk))" by simp
  also have "\<dots> = mem_total (h(p := None)) + length blk"
    using fin by (intro mem_total_alloc) simp_all
  finally show ?thesis using mem_total_free [OF fin, of p] by simp
qed

lemma example_kmalloc_law:
  assumes ok: "mem_ok example_kernel h" and km: "example_kmalloc h n = (p, h')"
  shows "mem_ok example_kernel h' \<and> (p = NULL \<longrightarrow> h' = h) \<and>
     (p \<noteq> NULL \<longrightarrow>
        (if n = 0 then p = zero_size_ptr example_kernel \<and> h' = h
         else h p = None \<and> p \<noteq> zero_size_ptr example_kernel \<and>
              (\<exists>blk. length blk = unat n \<and> h' = h(p \<mapsto> blk))))"
proof (cases "n = 0 \<or> fresh_addr h = NULL \<or> mem_total h + unat n \<ge> 2 ^ 63")
  case True
  then show ?thesis
    using ok km by (auto simp: example_kmalloc_def split: if_splits)
next
  case False
  let ?p = "fresh_addr h"
  have p: "h ?p = None" "32 \<le> ?p" using fresh_addr_free [of h] False by auto
  have h': "p = ?p" "h' = h(?p \<mapsto> replicate (unat n) 170)"
    using km False by (auto simp: example_kmalloc_def)
  have "mem_total h' = mem_total h + unat n"
    using ok p h' mem_total_alloc [of h ?p "replicate (unat n) 170"] by (simp add: mem_ok_def)
  then have "mem_ok example_kernel h'"
    using ok p h' False by (auto simp: mem_ok_def)
  then show ?thesis using False p h' by (auto intro!: exI [of _ "replicate (unat n) 170"])
qed

lemma example_krealloc_law:
  assumes ok: "mem_ok example_kernel h" and nz: "n \<noteq> 0" and q: "q = NULL \<or> h q \<noteq> None"
    and kr: "example_krealloc h q n = (p, h')"
  shows "mem_ok example_kernel h' \<and> (p = NULL \<longrightarrow> h' = h) \<and>
     (p \<noteq> NULL \<longrightarrow> p \<noteq> zero_size_ptr example_kernel \<and> (h(q := None)) p = None \<and>
        (\<exists>blk. length blk = unat n \<and> h' = (h(q := None))(p \<mapsto> blk) \<and>
           (\<forall>old. h q = Some old \<longrightarrow> take (length old) blk = take (unat n) old)))"
proof (cases "h q")
  case None
  then have km: "example_kmalloc h n = (p, h')" using kr by (simp add: example_krealloc_def)
  have "h(q := None) = h" using None by (simp add: fun_upd_idem)
  then show ?thesis using example_kmalloc_law [OF ok km] nz None by simp
next
  case (Some old)
  define blk where "blk = take (unat n) (old @ replicate (unat n) 170)"
  have len: "length blk = unat n" by (simp add: blk_def)
  have keeps: "take (length old) blk = take (unat n) old"
    by (cases "length old \<le> unat n") (auto simp: blk_def)
  have "q \<noteq> NULL" using ok Some by (metis mem_ok_def option.distinct(1))
  moreover have "q \<noteq> 16" using ok Some by (auto simp: mem_ok_def)
  ultimately have q1: "q \<noteq> NULL" "q \<noteq> 16" by simp_all
  show ?thesis
  proof (cases "mem_total h + unat n \<ge> 2 ^ 63")
    case True
    then show ?thesis using kr Some ok by (simp add: example_krealloc_def)
  next
    case False
    then have r: "p = q" "h' = h(q \<mapsto> blk)" using kr Some by (auto simp: example_krealloc_def blk_def)
    have "mem_total h' \<le> mem_total h + unat n"
      using mem_total_overwrite [of h q old blk] ok Some r len by (simp add: mem_ok_def)
    then have "mem_ok example_kernel h'"
      using ok r q1 False by (auto simp: mem_ok_def)
    moreover have "h' = (h(q := None))(p \<mapsto> blk)" using r by simp
    moreover have "\<forall>old'. h q = Some old' \<longrightarrow> take (length old') blk = take (unat n) old'"
      using keeps Some by simp
    ultimately show ?thesis using q1 r(1) len by auto
  qed
qed

lemma take_bit_small: "(x :: uint32) < 256 \<Longrightarrow> take_bit 8 x = x"
  by (rule word_unat_eq_iff [THEN iffD2])
    (simp add: unat_mod_distrib take_bit_eq_mod word_less_nat_alt)

lemma example_ioc:
  fixes t n :: uint32
  assumes "t < 256" and "n < 256"
  shows "ioc_type example_kernel (iowr example_kernel t n s) = t"
    and "ioc_nr example_kernel (iowr example_kernel t n s) = n"
proof -
  have t: "take_bit 8 t = t" and n: "take_bit 8 n = n"
    using assms by (simp_all add: take_bit_small)
  have "ioc_type example_kernel (iowr example_kernel t n s) = take_bit 8 t"
    by (rule bit_eqI) (auto simp: example_kernel_def bit_simps)
  then show "ioc_type example_kernel (iowr example_kernel t n s) = t" by (simp add: t)
  have "ioc_nr example_kernel (iowr example_kernel t n s) = take_bit 8 n"
    by (rule bit_eqI) (auto simp: example_kernel_def bit_simps)
  then show "ioc_nr example_kernel (iowr example_kernel t n s) = n" by (simp add: n)
qed

theorem example_kernel_ok: "kernel_ok example_kernel"
  unfolding kernel_ok_def
proof (intro conjI)
  show "kmalloc_ok example_kernel"
    unfolding kmalloc_ok_def example_kernel_simps(1)
    by (intro allI impI) (rule example_kmalloc_law)
  show "krealloc_ok example_kernel"
    unfolding krealloc_ok_def example_kernel_simps(2)
    by (intro allI impI) (rule example_krealloc_law)
  show "kfree_ok example_kernel" by (simp add: kfree_ok_def)
  show "user_copy_ok example_kernel" by (simp add: user_copy_ok_def)
  show "llseek_ok example_kernel"
    by (auto simp: llseek_ok_def example_llseek_def seek_allowed_def seek_target_def)
  show "ioc_ok example_kernel" by (simp add: ioc_ok_def example_ioc)
qed

lemma mem_ok_empty: "mem_ok k Map.empty"
  by (simp add: mem_ok_def mem_total_def)

end
