(* ===== verification/Circular_Buffer.thy ===== *)
theory Circular_Buffer
  imports Prelude
begin

text \<open>
  The ring buffer of \<^verbatim>\<open>aesd-char-driver/aesd-circular-buffer.c\<close>: ten entries, each a pointer
  to a block and its size, an input and an output index, the flag \<open>full\<close> and a running size.
  The abstract view is the list of the entries from the oldest to the newest
  (\<open>contents\<close>); \<open>push\<close> and \<open>locate\<close> are the reference operations on it.
\<close>

subsection \<open>Data\<close>

definition AESDCHAR_MAX_WRITE_OPERATIONS_SUPPORTED :: nat where
  "AESDCHAR_MAX_WRITE_OPERATIONS_SUPPORTED = 10"

lemmas max_ops = AESDCHAR_MAX_WRITE_OPERATIONS_SUPPORTED_def

record aesd_buffer_entry =
  buffptr :: ptr
  entry_size :: size_t

record aesd_circular_buffer =
  entry :: "aesd_buffer_entry list"
  in_offs :: uint8
  out_offs :: uint8
  full :: bool
  total_size :: size_t

definition empty_entry :: aesd_buffer_entry where
  "empty_entry = \<lparr>buffptr = NULL, entry_size = 0\<rparr>"

subsection \<open>Operations\<close>

text \<open>
  The search loop. The C function returns a pointer into the entry array, or NULL, and sets
  the byte offset only when it finds an entry: here the index of the entry and the offset, or
  \<open>None\<close>. All the arithmetic is on \<open>size_t\<close> and wraps.
\<close>

function find_loop ::
  "aesd_circular_buffer \<Rightarrow> size_t \<Rightarrow> size_t \<Rightarrow> size_t \<Rightarrow> size_t \<Rightarrow> (nat \<times> size_t) option"
where
  "find_loop buffer char_offset current_total_bytes current_location counter =
     (if counter < of_nat AESDCHAR_MAX_WRITE_OPERATIONS_SUPPORTED then
        (if current_total_bytes + entry_size (entry buffer ! unat current_location) > char_offset
         then Some (unat current_location, char_offset - current_total_bytes)
         else find_loop buffer char_offset
                (current_total_bytes + entry_size (entry buffer ! unat current_location))
                ((current_location + 1) mod of_nat AESDCHAR_MAX_WRITE_OPERATIONS_SUPPORTED)
                (counter + 1))
      else None)"
  by pat_completeness auto
termination
proof (relation "measure (\<lambda>(b, off, tot, loc, c). 10 - unat c)")
  fix b :: aesd_circular_buffer and off tot loc c :: size_t
  assume "c < of_nat AESDCHAR_MAX_WRITE_OPERATIONS_SUPPORTED"
  then have "c < 10" by (simp add: max_ops)
  then have "unat c < 10" and "unat (c + 1) = Suc (unat c)"
    by (auto simp: word_less_nat_alt intro!: unat_Suc_less [of c 10])
  then show "((b, off, tot + entry_size (entry b ! unat loc),
               (loc + 1) mod of_nat AESDCHAR_MAX_WRITE_OPERATIONS_SUPPORTED, c + 1),
              (b, off, tot, loc, c)) \<in> measure (\<lambda>(b, off, tot, loc, c). 10 - unat c)"
    by simp
qed simp

declare find_loop.simps [simp del]

definition aesd_circular_buffer_find_entry_offset_for_fpos ::
  "aesd_circular_buffer \<Rightarrow> size_t \<Rightarrow> (nat \<times> size_t) option"
where
  "aesd_circular_buffer_find_entry_offset_for_fpos buffer char_offset =
     find_loop buffer char_offset 0 (ucast (out_offs buffer)) 0"

text \<open>
  The body of \<open>aesd_circular_buffer_add_entry\<close>. The code subtracts
  \<open>buffer[buffer->out_offs].size\<close>, which indexes the buffer pointer and not its entry array:
  at index 0 it is the buffer's own running size, at any other index a read past the buffer.
  The value such a read returns is the parameter \<open>oob\<close>.
\<close>

definition buffer_at_size :: "(nat \<Rightarrow> size_t) \<Rightarrow> aesd_circular_buffer \<Rightarrow> nat \<Rightarrow> size_t" where
  "buffer_at_size oob buffer i = (if i = 0 then total_size buffer else oob i)"

definition add_entry_body ::
  "(nat \<Rightarrow> size_t) \<Rightarrow> aesd_circular_buffer \<Rightarrow> aesd_buffer_entry \<Rightarrow> aesd_circular_buffer"
where
  "add_entry_body oob buffer e =
     (let b1 = buffer\<lparr>entry := (entry buffer)[unat (in_offs buffer) := e]\<rparr>;
          b2 = b1\<lparr>total_size := total_size b1 + entry_size e\<rparr>;
          b3 = b2\<lparr>in_offs :=
                 of_nat ((unat (in_offs b2) + 1) mod AESDCHAR_MAX_WRITE_OPERATIONS_SUPPORTED)\<rparr>;
          b4 = (if full b3 then
                  (let b' = b3\<lparr>total_size :=
                         total_size b3 - buffer_at_size oob b3 (unat (out_offs b3))\<rparr>
                   in b'\<lparr>out_offs := in_offs b'\<rparr>)
                else b3)
      in b4\<lparr>full := (out_offs b4 = in_offs b4)\<rparr>)"

text \<open>The function itself takes two pointers and returns at once when either is NULL.\<close>

definition aesd_circular_buffer_add_entry ::
  "(nat \<Rightarrow> size_t) \<Rightarrow> aesd_circular_buffer option \<Rightarrow> aesd_buffer_entry option
     \<Rightarrow> aesd_circular_buffer option"
where
  "aesd_circular_buffer_add_entry oob buffer add_entry =
     (case add_entry of
        None \<Rightarrow> buffer
      | Some e \<Rightarrow> (case buffer of None \<Rightarrow> buffer | Some b \<Rightarrow> Some (add_entry_body oob b e)))"

text \<open>\<open>memset\<close> to zero of the whole structure.\<close>

definition aesd_circular_buffer_init :: aesd_circular_buffer where
  "aesd_circular_buffer_init =
     \<lparr>entry = replicate AESDCHAR_MAX_WRITE_OPERATIONS_SUPPORTED empty_entry,
      in_offs = 0, out_offs = 0, full = False, total_size = 0\<rparr>"

text \<open>The entries in the order in which the macro \<open>AESD_CIRCULAR_BUFFER_FOREACH\<close> visits them.\<close>

function foreach_from ::
  "(aesd_buffer_entry \<Rightarrow> 's \<Rightarrow> 's) \<Rightarrow> aesd_circular_buffer \<Rightarrow> uint8 \<Rightarrow> 's \<Rightarrow> 's"
where
  "foreach_from body buffer index s =
     (if index < of_nat AESDCHAR_MAX_WRITE_OPERATIONS_SUPPORTED
      then foreach_from body buffer (index + 1) (body (entry buffer ! unat index) s)
      else s)"
  by pat_completeness auto
termination
proof (relation "measure (\<lambda>(body, b, i, s). 10 - unat i)")
  fix body :: "aesd_buffer_entry \<Rightarrow> 's \<Rightarrow> 's" and b :: aesd_circular_buffer
    and i :: uint8 and s :: 's
  assume "i < of_nat AESDCHAR_MAX_WRITE_OPERATIONS_SUPPORTED"
  then have "i < 10" by (simp add: max_ops)
  then have "unat i < 10" and "unat (i + 1) = Suc (unat i)"
    by (auto simp: word_less_nat_alt intro!: unat_Suc_less [of i 10])
  then show "((body, b, i + 1, body (entry b ! unat i) s), (body, b, i, s))
               \<in> measure (\<lambda>(body, b, i, s). 10 - unat i)"
    by simp
qed simp

declare foreach_from.simps [simp del]

definition AESD_CIRCULAR_BUFFER_FOREACH ::
  "(aesd_buffer_entry \<Rightarrow> 's \<Rightarrow> 's) \<Rightarrow> aesd_circular_buffer \<Rightarrow> 's \<Rightarrow> 's"
where
  "AESD_CIRCULAR_BUFFER_FOREACH body buffer s = foreach_from body buffer 0 s"

subsection \<open>The abstract buffer\<close>

text \<open>The number of entries in use, the entries in reading order, and the list of those in use.\<close>

definition ring_count :: "aesd_circular_buffer \<Rightarrow> nat" where
  "ring_count b =
     (if full b then AESDCHAR_MAX_WRITE_OPERATIONS_SUPPORTED else unat (in_offs b))"

definition slot_of :: "aesd_circular_buffer \<Rightarrow> nat \<Rightarrow> nat" where
  "slot_of b k = (unat (out_offs b) + k) mod AESDCHAR_MAX_WRITE_OPERATIONS_SUPPORTED"

definition ring :: "aesd_circular_buffer \<Rightarrow> nat \<Rightarrow> aesd_buffer_entry" where
  "ring b k = entry b ! slot_of b k"

definition contents :: "aesd_circular_buffer \<Rightarrow> aesd_buffer_entry list" where
  "contents b = map (ring b) [0..<ring_count b]"

definition push :: "'a list \<Rightarrow> 'a \<Rightarrow> 'a list" where
  "push xs x =
     (if length xs = AESDCHAR_MAX_WRITE_OPERATIONS_SUPPORTED then tl xs else xs) @ [x]"

fun locate :: "nat list \<Rightarrow> nat \<Rightarrow> (nat \<times> nat) option" where
  "locate [] k = None"
| "locate (n # ns) k =
     (if k < n then Some (0, k) else map_option (\<lambda>(i, j). (Suc i, j)) (locate ns (k - n)))"

abbreviation entry_len :: "aesd_buffer_entry \<Rightarrow> nat" where
  "entry_len e \<equiv> unat (entry_size e)"

text \<open>
  The invariant. Nothing ever leaves the buffer, so it is filled once, from index 0, and stays
  full from then on; slots not yet used still hold the zeros of the initialisation. The running
  size is the sum of the entries only while the buffer is filling.
\<close>

definition cb_inv :: "aesd_circular_buffer \<Rightarrow> bool" where
  "cb_inv b \<longleftrightarrow>
     length (entry b) = AESDCHAR_MAX_WRITE_OPERATIONS_SUPPORTED \<and>
     unat (in_offs b) < AESDCHAR_MAX_WRITE_OPERATIONS_SUPPORTED \<and>
     unat (out_offs b) < AESDCHAR_MAX_WRITE_OPERATIONS_SUPPORTED \<and>
     (full b \<longrightarrow> in_offs b = out_offs b) \<and>
     (\<not> full b \<longrightarrow>
        out_offs b = 0 \<and>
        (\<forall>k \<in> {unat (in_offs b)..<AESDCHAR_MAX_WRITE_OPERATIONS_SUPPORTED}.
           entry b ! k = empty_entry) \<and>
        total_size b = sum_list (map entry_size (contents b)))"

subsection \<open>Lemmas on \<open>locate\<close>\<close>

lemma locate_None_iff: "locate ns k = None \<longleftrightarrow> sum_list ns \<le> k"
  by (induction ns k rule: locate.induct) auto

lemma locate_Some_iff:
  "locate ns k = Some (i, j) \<longleftrightarrow> i < length ns \<and> j < ns ! i \<and> k = sum_list (take i ns) + j"
proof (induction ns k arbitrary: i rule: locate.induct)
  case (1 k)
  then show ?case by simp
next
  case (2 n ns k)
  show ?case
  proof (cases "k < n")
    case True
    then show ?thesis by (cases i) auto
  next
    case False
    note IH = "2.IH" [OF False]
    show ?thesis
    proof (cases i)
      case 0
      with False show ?thesis by auto
    next
      case (Suc i')
      have "locate (n # ns) k = Some (i, j) \<longleftrightarrow> locate ns (k - n) = Some (i', j)"
        using False Suc by auto
      then show ?thesis using False Suc by (auto simp: IH)
    qed
  qed
qed

lemma locate_append_zeros: "locate (ns @ replicate m 0) k = locate ns k"
proof (induction ns arbitrary: k)
  case Nil
  have "locate (replicate m 0) k = None" by (simp only: locate_None_iff) (simp add: sum_list_replicate)
  then show ?case by simp
qed simp

lemma locate_concat:
  assumes "locate (map length xss) k = Some (i, j)"
  shows "k < length (concat xss)" and "concat xss ! k = xss ! i ! j"
    and "drop k (concat xss) = drop j (xss ! i) @ concat (drop (Suc i) xss)"
proof -
  from assms have i: "i < length xss" and j: "j < length (xss ! i)"
    and k: "k = sum_list (take i (map length xss)) + j"
    by (auto simp: locate_Some_iff)
  have split: "concat xss = concat (take i xss) @ xss ! i @ concat (drop (Suc i) xss)"
    by (subst id_take_nth_drop [OF i]) simp
  have k': "k = length (concat (take i xss)) + j"
    by (simp add: k length_concat take_map)
  show "k < length (concat xss)" using j by (subst split) (simp add: k')
  show "concat xss ! k = xss ! i ! j"
    using j by (subst split) (simp add: k' nth_append)
  show "drop k (concat xss) = drop j (xss ! i) @ concat (drop (Suc i) xss)"
    using j by (subst split) (simp add: k')
qed

subsection \<open>The invariant and the contents\<close>

lemma contents_length [buf_simps]: "length (contents b) = ring_count b"
  by (simp add: contents_def)

lemma cb_inv_init: "cb_inv aesd_circular_buffer_init"
  by (simp add: cb_inv_def aesd_circular_buffer_init_def contents_def ring_count_def max_ops
      nth_replicate del: replicate.simps)

lemma contents_init: "contents aesd_circular_buffer_init = []"
  by (simp add: contents_def ring_count_def aesd_circular_buffer_init_def)

lemma ring_count_le: "cb_inv b \<Longrightarrow> ring_count b \<le> AESDCHAR_MAX_WRITE_OPERATIONS_SUPPORTED"
  by (auto simp: cb_inv_def ring_count_def)

lemma slot_of_less: "slot_of b k < AESDCHAR_MAX_WRITE_OPERATIONS_SUPPORTED"
  by (simp add: slot_of_def max_ops)

lemma slot_of_not_full:
  "cb_inv b \<Longrightarrow> \<not> full b \<Longrightarrow> k < AESDCHAR_MAX_WRITE_OPERATIONS_SUPPORTED \<Longrightarrow> slot_of b k = k"
  by (simp add: cb_inv_def slot_of_def)

lemma ring_unused:
  "cb_inv b \<Longrightarrow> ring_count b \<le> k \<Longrightarrow> k < AESDCHAR_MAX_WRITE_OPERATIONS_SUPPORTED
     \<Longrightarrow> ring b k = empty_entry"
  by (cases "full b") (auto simp: ring_def slot_of_not_full ring_count_def cb_inv_def)

text \<open>The array read once around from \<open>out_offs\<close> is the contents and then zeros.\<close>

lemma ring_all:
  assumes "cb_inv b"
  shows "map (ring b) [0..<AESDCHAR_MAX_WRITE_OPERATIONS_SUPPORTED] =
     contents b @
     replicate (AESDCHAR_MAX_WRITE_OPERATIONS_SUPPORTED - ring_count b) empty_entry"
    (is "?l = ?r")
proof (rule nth_equalityI)
  show "length ?l = length ?r"
    using ring_count_le [OF assms] by (simp add: buf_simps)
  fix k assume "k < length ?l"
  then have "k < AESDCHAR_MAX_WRITE_OPERATIONS_SUPPORTED" by simp
  then show "?l ! k = ?r ! k"
    using ring_unused [OF assms, of k] ring_count_le [OF assms]
    by (auto simp: nth_append contents_def)
qed

subsection \<open>Adding an entry\<close>

lemma add_entry_body_entry [buf_simps]:
  "entry (add_entry_body oob b e) = (entry b)[unat (in_offs b) := e]"
  by (simp add: add_entry_body_def Let_def)

lemma add_entry_body_in_offs [buf_simps]:
  "unat (in_offs (add_entry_body oob b e)) =
     (unat (in_offs b) + 1) mod AESDCHAR_MAX_WRITE_OPERATIONS_SUPPORTED"
  by (simp add: add_entry_body_def Let_def max_ops unat_of_nat)

lemma add_entry_body_out_offs [buf_simps]:
  "out_offs (add_entry_body oob b e) =
     (if full b then in_offs (add_entry_body oob b e) else out_offs b)"
  by (simp add: add_entry_body_def Let_def)

lemma add_entry_body_full [buf_simps]:
  "full (add_entry_body oob b e) \<longleftrightarrow>
     out_offs (add_entry_body oob b e) = in_offs (add_entry_body oob b e)"
  by (simp add: add_entry_body_def Let_def)

lemma add_entry_body_total_size:
  "total_size (add_entry_body oob b e) =
     (if full b
      then total_size b + entry_size e -
           (if out_offs b = 0 then total_size b + entry_size e else oob (unat (out_offs b)))
      else total_size b + entry_size e)"
  by (simp add: add_entry_body_def buffer_at_size_def Let_def unat_eq_0)

lemma full_stays_full:
  "full b \<Longrightarrow> full (add_entry_body oob b e)"
  by (simp add: buf_simps)

lemma ring_count_add:
  assumes "cb_inv b"
  shows "ring_count (add_entry_body oob b e) =
     min AESDCHAR_MAX_WRITE_OPERATIONS_SUPPORTED (Suc (ring_count b))"
proof (cases "full b")
  case True
  then show ?thesis by (simp add: ring_count_def full_stays_full)
next
  case False
  let ?b = "add_entry_body oob b e"
  from assms False have inb: "unat (in_offs b) < 10" and out0: "out_offs b = 0"
    by (auto simp: cb_inv_def max_ops)
  have "full ?b \<longleftrightarrow> unat (in_offs ?b) = 0"
    using False out0 by (auto simp: add_entry_body_full add_entry_body_out_offs unat_eq_0)
  moreover have "unat (in_offs ?b) = (unat (in_offs b) + 1) mod 10"
    by (simp add: add_entry_body_in_offs max_ops)
  moreover have "(unat (in_offs b) + 1) mod 10 =
      (if unat (in_offs b) = 9 then 0 else unat (in_offs b) + 1)"
    using inb by auto
  ultimately show ?thesis using False inb
    by (auto simp: ring_count_def max_ops)
qed

lemma contents_add_not_full:
  assumes inv: "cb_inv b" and nf: "\<not> full b"
  shows "contents (add_entry_body oob b e) = contents b @ [e]"
proof (rule nth_equalityI)
  let ?b = "add_entry_body oob b e"
  from inv nf have inb: "unat (in_offs b) < 10" and out0: "out_offs b = 0"
    and len: "length (entry b) = 10"
    by (auto simp: cb_inv_def max_ops)
  have cntb: "ring_count b = unat (in_offs b)" using nf by (simp add: ring_count_def)
  have cnt: "ring_count ?b = Suc (unat (in_offs b))"
    using inb by (simp add: ring_count_add [OF inv] cntb max_ops)
  show "length (contents ?b) = length (contents b @ [e])"
    by (simp add: contents_length cnt cntb)
  fix k assume "k < length (contents ?b)"
  then have k: "k < Suc (unat (in_offs b))" by (simp add: contents_length cnt)
  have "contents ?b ! k = (entry b)[unat (in_offs b) := e] ! k"
    using k inb nf out0
    by (simp add: contents_def cnt ring_def slot_of_def add_entry_body_entry
        add_entry_body_out_offs max_ops del: upt_Suc)
  also have "\<dots> = (contents b @ [e]) ! k"
    using k inb nf out0 len
    by (auto simp: nth_append contents_length contents_def ring_def slot_of_def ring_count_def
        max_ops nth_list_update less_Suc_eq)
  finally show "contents ?b ! k = (contents b @ [e]) ! k" .
qed

lemma ring_step_hit:
  assumes "o1 < 10" and "k < (10 :: nat)"
  shows "(o1 + Suc k) mod 10 = o1 \<longleftrightarrow> k = 9"
proof (cases "o1 + Suc k < 10")
  case False
  then have "(o1 + Suc k) mod 10 = o1 + Suc k - 10" using assms by (simp add: le_mod_geq)
  then show ?thesis using False assms(2) by linarith
qed simp

lemma contents_add_full:
  assumes inv: "cb_inv b" and f: "full b"
  shows "contents (add_entry_body oob b e) = tl (contents b) @ [e]"
proof (rule nth_equalityI)
  let ?b = "add_entry_body oob b e"
  let ?o = "unat (out_offs b)"
  from inv f have outb: "?o < 10" and io: "in_offs b = out_offs b"
    and len: "length (entry b) = 10"
    by (auto simp: cb_inv_def max_ops)
  have cnt: "ring_count ?b = 10" "ring_count b = 10"
    using f by (simp_all add: ring_count_def full_stays_full max_ops)
  show "length (contents ?b) = length (tl (contents b) @ [e])"
    by (simp add: buf_simps cnt)
  fix k assume "k < length (contents ?b)"
  then have k: "k < 10" by (simp add: contents_length cnt)
  have slot: "slot_of ?b k = ((?o + 1) mod 10 + k) mod 10"
    using f by (simp add: slot_of_def add_entry_body_out_offs add_entry_body_in_offs io max_ops)
  then have slot': "slot_of ?b k = (?o + Suc k) mod 10"
    by (simp add: mod_add_left_eq)
  have hit: "(?o + Suc k) mod 10 = ?o \<longleftrightarrow> k = 9" by (rule ring_step_hit [OF outb k])
  have "contents ?b ! k = (entry b)[?o := e] ! ((?o + Suc k) mod 10)"
    using k by (simp add: contents_def cnt ring_def slot' add_entry_body_entry io)
  also have "\<dots> = (tl (contents b) @ [e]) ! k"
  proof (cases "k = 9")
    case True
    then show ?thesis using hit len outb by (simp add: nth_append contents_length cnt)
  next
    case False
    with k have k9: "k < length (tl (contents b))" by (simp add: contents_length cnt)
    have "tl (contents b) ! k = contents b ! Suc k" using k9 by (rule nth_tl)
    also have "\<dots> = ring b (Suc k)" using k9 by (simp add: contents_def cnt)
    finally have "tl (contents b) ! k = entry b ! ((?o + Suc k) mod 10)"
      by (simp add: ring_def slot_of_def max_ops)
    moreover have "(entry b)[?o := e] ! ((?o + Suc k) mod 10) = entry b ! ((?o + Suc k) mod 10)"
      using hit False by (metis nth_list_update_neq)
    ultimately show ?thesis using k9 by (simp add: nth_append)
  qed
  finally show "contents ?b ! k = (tl (contents b) @ [e]) ! k" .
qed

lemma contents_add:
  assumes inv: "cb_inv b"
  shows "contents (add_entry_body oob b e) = push (contents b) e"
proof (cases "full b")
  case True
  then show ?thesis
    using contents_add_full [OF inv True] by (simp add: push_def buf_simps ring_count_def)
next
  case False
  with inv show ?thesis
    using contents_add_not_full [OF inv False]
    by (auto simp: push_def buf_simps ring_count_def cb_inv_def)
qed

lemma cb_inv_add:
  assumes inv: "cb_inv b"
  shows "cb_inv (add_entry_body oob b e)"
proof (cases "full b")
  case True
  with inv show ?thesis
    by (auto simp: cb_inv_def full_stays_full buf_simps max_ops)
next
  case False
  let ?b = "add_entry_body oob b e"
  note cb = inv [unfolded cb_inv_def max_ops]
  have zeros: "entry ?b ! k = empty_entry" if "\<not> full ?b" "unat (in_offs ?b) \<le> k" "k < 10" for k
  proof -
    have "unat (in_offs b) + 1 \<noteq> 10"
      using that(1) False cb
      by (auto simp: add_entry_body_full add_entry_body_out_offs word_unat_eq_iff
          add_entry_body_in_offs max_ops)
    then show ?thesis using cb False that
      by (auto simp: buf_simps max_ops nth_list_update)
  qed
  have "total_size ?b = sum_list (map entry_size (contents ?b))"
    using cb False by (simp add: contents_add_not_full [OF inv] add_entry_body_total_size)
  then show ?thesis using cb False zeros
    by (auto simp: cb_inv_def max_ops add_entry_body_entry add_entry_body_in_offs
        add_entry_body_out_offs add_entry_body_full)
qed

subsection \<open>Searching\<close>

definition ring_sizes :: "aesd_circular_buffer \<Rightarrow> nat list" where
  "ring_sizes b = map (\<lambda>k. entry_len (ring b k)) [0..<AESDCHAR_MAX_WRITE_OPERATIONS_SUPPORTED]"

lemma length_ring_sizes [simp]: "length (ring_sizes b) = 10"
  by (simp add: ring_sizes_def max_ops)

lemma ring_sizes_contents:
  assumes "cb_inv b"
  shows "ring_sizes b = map entry_len (contents b) @
     replicate (AESDCHAR_MAX_WRITE_OPERATIONS_SUPPORTED - ring_count b) 0"
proof -
  have "ring_sizes b = map entry_len (map (ring b) [0..<AESDCHAR_MAX_WRITE_OPERATIONS_SUPPORTED])"
    by (simp add: ring_sizes_def)
  then show ?thesis
    by (simp only: ring_all [OF assms]) (simp add: empty_entry_def map_replicate)
qed

text \<open>
  The variables of the loop after \<open>c\<close> rounds, and one round: either the entry holds the offset, or
  the next round starts with the variables of \<open>Suc c\<close>.
\<close>

definition find_from :: "aesd_circular_buffer \<Rightarrow> size_t \<Rightarrow> nat \<Rightarrow> nat \<Rightarrow> (nat \<times> size_t) option" where
  "find_from b off o1 c = find_loop b off (of_nat (sum_list (take c (ring_sizes b)))) (of_nat ((o1 + c) mod 10)) (of_nat c)"

lemma find_round:
  assumes out: "out_offs b = of_nat o1" "o1 < 10"
    and small: "sum_list (ring_sizes b) < 2 ^ 64" and c: "c < 10"
  shows "find_from b off o1 c =
    (if unat off < sum_list (take (Suc c) (ring_sizes b))
     then Some ((o1 + c) mod 10, off - of_nat (sum_list (take c (ring_sizes b)))) else find_from b off o1 (Suc c))"
proof -
  let ?s = "ring_sizes b"
  let ?t = "sum_list (take c ?s)"
  have loc: "unat (of_nat ((o1 + c) mod 10) :: size_t) = (o1 + c) mod 10"
    by (simp add: unat_of_nat)
  have cur: "entry_len (entry b ! ((o1 + c) mod 10)) = ?s ! c"
    using c out by (simp add: ring_sizes_def ring_def slot_of_def max_ops unat_of_nat)
  have step: "take (Suc c) ?s = take c ?s @ [?s ! c]" using c by (simp add: take_Suc_conv_app_nth)
  have "sum_list (take (Suc c) ?s) \<le> sum_list ?s"
    by (metis append_take_drop_id le_add1 sum_list_append)
  then have fits: "?t + ?s ! c < 2 ^ 64" using small step by simp
  have usum: "unat (of_nat ?t + entry_size (entry b ! ((o1 + c) mod 10)) :: size_t) = sum_list (take (Suc c) ?s)"
    using fits by (subst unat_add_nowrap) (simp_all add: unat_of_nat cur step)
  then have sum_next: "of_nat ?t + entry_size (entry b ! ((o1 + c) mod 10))
      = (of_nat (sum_list (take (Suc c) ?s)) :: size_t)"
    by (simp add: step cur [symmetric])
  have guard: "(of_nat c :: size_t) < of_nat AESDCHAR_MAX_WRITE_OPERATIONS_SUPPORTED"
    using c by (simp add: word_less_nat_alt unat_of_nat max_ops)
  have loc_next: "(of_nat ((o1 + c) mod 10) + 1) mod (10 :: size_t) = of_nat ((o1 + Suc c) mod 10)"
    by (simp add: word_unat_eq_iff unat_mod unat_word_ariths unat_of_nat mod_Suc_eq)
  have cnt_next: "(of_nat c + 1 :: size_t) = of_nat (Suc c)" by simp
  have "off < of_nat ?t + entry_size (entry b ! ((o1 + c) mod 10)) \<longleftrightarrow> unat off < sum_list (take (Suc c) ?s)"
    by (simp only: word_less_nat_alt usum)
  then show ?thesis unfolding find_from_def using guard
    by (subst find_loop.simps)
      (simp add: loc loc_next cnt_next max_ops del: of_nat_Suc flip: sum_next)
qed

text \<open>From the state after \<open>c\<close> rounds the loop finds what \<open>locate\<close> finds in the remaining sizes.\<close>

lemma find_loop_locate:
  assumes out: "out_offs b = of_nat o1" "o1 < 10"
    and small: "sum_list (ring_sizes b) < 2 ^ 64"
  shows "c \<le> 10 \<Longrightarrow> sum_list (take c (ring_sizes b)) \<le> unat off \<Longrightarrow>
    find_loop b off (of_nat (sum_list (take c (ring_sizes b)))) (of_nat ((o1 + c) mod 10)) (of_nat c)
      = map_option (\<lambda>(i, j). ((o1 + (c + i)) mod 10, of_nat j))
          (locate (drop c (ring_sizes b)) (unat off - sum_list (take c (ring_sizes b))))"
  unfolding find_from_def [symmetric]
proof (induction "10 - c" arbitrary: c)
  case 0
  then have "c = 10" by simp
  then show ?case by (simp add: find_from_def find_loop.simps [of b off] max_ops)
next
  case (Suc n)
  let ?s = "ring_sizes b"
  from Suc.hyps Suc.prems have c: "c < 10" by simp
  have step: "sum_list (take (Suc c) ?s) = sum_list (take c ?s) + ?s ! c" "drop c ?s = ?s ! c # drop (Suc c) ?s"
    using c by (simp_all add: take_Suc_conv_app_nth Cons_nth_drop_Suc)
  show ?case
  proof (cases "unat off < sum_list (take (Suc c) ?s)")
    case True
    moreover have "off - of_nat (sum_list (take c ?s)) = of_nat (unat off - sum_list (take c ?s))"
      using Suc.prems(2) by (simp add: of_nat_diff)
    moreover have "unat off - sum_list (take c ?s) < ?s ! c" using True Suc.prems(2) step(1) by linarith
    ultimately show ?thesis by (simp add: find_round [OF out small c] step(2))
  next
    case False
    then have "\<not> unat off - sum_list (take c ?s) < ?s ! c" using step(1) by linarith
    moreover have "find_from b off o1 (Suc c) = map_option (\<lambda>(i, j). ((o1 + (Suc c + i)) mod 10, of_nat j))
        (locate (drop (Suc c) ?s) (unat off - sum_list (take (Suc c) ?s)))"
      using Suc.hyps(2) c False by (intro Suc.hyps(1)) simp_all
    ultimately show ?thesis using False
      by (simp add: find_round [OF out small c] step option.map_comp comp_def split_def)
  qed
qed
lemma find_refines:
  assumes inv: "cb_inv b"
    and small: "sum_list (map entry_len (contents b)) < 2 ^ 64"
  shows "aesd_circular_buffer_find_entry_offset_for_fpos b off =
     map_option (\<lambda>(i, j). (slot_of b i, of_nat j))
       (locate (map entry_len (contents b)) (unat off))"
proof -
  let ?o = "unat (out_offs b)"
  have o10: "?o < 10" using inv by (simp add: cb_inv_def max_ops)
  have small': "sum_list (ring_sizes b) < 2 ^ 64"
    using small by (simp add: ring_sizes_contents [OF inv] sum_list_replicate)
  have "find_loop b off (of_nat (sum_list (take 0 (ring_sizes b)))) (of_nat ((?o + 0) mod 10)) (of_nat 0)
      = map_option (\<lambda>(i, j). ((?o + (0 + i)) mod 10, of_nat j))
          (locate (drop 0 (ring_sizes b)) (unat off - sum_list (take 0 (ring_sizes b))))"
    by (rule find_loop_locate [OF _ o10 small']) simp_all
  then have "find_loop b off 0 (ucast (out_offs b)) 0
      = map_option (\<lambda>(i, j). (slot_of b i, of_nat j)) (locate (ring_sizes b) (unat off))"
    using o10 by (simp add: slot_of_def max_ops)
  then show ?thesis
    by (simp add: aesd_circular_buffer_find_entry_offset_for_fpos_def ring_sizes_contents [OF inv]
        locate_append_zeros)
qed

subsection \<open>Visiting every entry\<close>

lemma foreach_from_fold:
  assumes "length (entry b) = AESDCHAR_MAX_WRITE_OPERATIONS_SUPPORTED"
  shows "k \<le> 10 \<Longrightarrow> foreach_from body b (of_nat k) s = fold body (drop k (entry b)) s"
proof (induction "10 - k" arbitrary: k s)
  case 0
  then have "k = 10" by simp
  then show ?case using assms by (simp add: foreach_from.simps [of body b] max_ops)
next
  case (Suc n)
  then have k: "k < 10" by simp
  have uk: "unat (of_nat k :: uint8) = k" using k by (simp add: unat_of_nat)
  have guard: "(of_nat k :: uint8) < of_nat AESDCHAR_MAX_WRITE_OPERATIONS_SUPPORTED"
    using k by (simp add: word_less_nat_alt uk max_ops)
  have "foreach_from body b (of_nat k) s
      = foreach_from body b (of_nat (Suc k)) (body (entry b ! k) s)"
    using guard by (subst foreach_from.simps) (simp add: uk add.commute)
  also have "\<dots> = fold body (drop (Suc k) (entry b)) (body (entry b ! k) s)"
    using Suc.hyps k by (intro Suc.hyps(1)) auto
  also have "\<dots> = fold body (drop k (entry b)) s"
    using assms k by (simp add: Cons_nth_drop_Suc [symmetric] max_ops)
  finally show ?case .
qed

lemma foreach_fold:
  "length (entry b) = AESDCHAR_MAX_WRITE_OPERATIONS_SUPPORTED \<Longrightarrow>
     AESD_CIRCULAR_BUFFER_FOREACH body b s = fold body (entry b) s"
  using foreach_from_fold [of b 0 body s] by (simp add: AESD_CIRCULAR_BUFFER_FOREACH_def)

end
