(* ===== verification/Log_Interface.thy ===== *)
theory Log_Interface
  imports Circular_Buffer
begin

text \<open>
  The two contracts the clients of the ring buffer rely on, as locales: a log that keeps the most
  recent \<open>cap\<close> items, and a log that can be searched by byte offset. The client lemmas are
  proved once from the contract; the ring buffer of the driver is an interpretation of both.
\<close>

subsection \<open>A log of the most recent items\<close>

locale recent_log =
  fixes start :: 'b
    and add :: "'o \<Rightarrow> 'b \<Rightarrow> 'b"
    and val :: "'o \<Rightarrow> 'v"
    and items :: "'b \<Rightarrow> 'v list"
    and ok :: "'b \<Rightarrow> bool"
    and cap :: nat
  assumes start_ok: "ok start"
    and start_items: "items start = []"
    and add_ok: "ok b \<Longrightarrow> ok (add x b)"
    and add_items: "ok b \<Longrightarrow> items (add x b) =
          (if length (items b) = cap then tl (items b) else items b) @ [val x]"
    and cap_pos: "0 < cap"
begin

lemma run_ok: "ok b \<Longrightarrow> ok (fold add xs b)"
  by (induction xs arbitrary: b) (auto intro: add_ok)

lemma run_items: "items (fold add xs start) = drop (length xs - cap) (map val xs)"
proof (induction xs rule: rev_induct)
  case Nil
  show ?case by (simp add: start_items)
next
  case (snoc x xs)
  have "ok (fold add xs start)" by (rule run_ok [OF start_ok])
  then have step: "items (add x (fold add xs start)) =
      (if length (drop (length xs - cap) xs) = cap then tl (drop (length xs - cap) (map val xs))
       else drop (length xs - cap) (map val xs)) @ [val x]"
    by (simp add: add_items snoc.IH)
  show ?case
  proof (cases "cap \<le> length xs")
    case True
    then have "Suc (length xs) - cap = Suc (length xs - cap)" by simp
    then show ?thesis using True cap_pos by (simp add: step tl_drop drop_Suc)
  next
    case False
    then show ?thesis using cap_pos by (simp add: step)
  qed
qed

lemma run_bounded: "length (items (fold add xs start)) \<le> cap"
  by (simp add: run_items)

end

subsection \<open>A log searched by offset\<close>

locale searchable_log = recent_log start add val items ok cap
  for start :: 'b and add :: "'o \<Rightarrow> 'b \<Rightarrow> 'b" and val :: "'o \<Rightarrow> 'v"
    and items :: "'b \<Rightarrow> 'v list" and ok :: "'b \<Rightarrow> bool" and cap :: nat +
  fixes slot :: "'b \<Rightarrow> nat \<Rightarrow> nat"
    and item_at :: "'b \<Rightarrow> nat \<Rightarrow> 'v"
    and len :: "'v \<Rightarrow> nat"
    and find :: "'b \<Rightarrow> size_t \<Rightarrow> (nat \<times> size_t) option"
  assumes at_slot: "ok b \<Longrightarrow> i < length (items b) \<Longrightarrow> item_at b (slot b i) = items b ! i"
    and find_spec: "ok b \<Longrightarrow> sum_list (map len (items b)) < 2 ^ 64 \<Longrightarrow>
          find b off = map_option (\<lambda>(i, j). (slot b i, of_nat j))
            (locate (map len (items b)) (unat off))"
begin

lemma find_None:
  assumes "ok b" and "sum_list (map len (items b)) < 2 ^ 64"
  shows "find b off = None \<longleftrightarrow> sum_list (map len (items b)) \<le> unat off"
  by (simp add: find_spec [OF assms] locate_None_iff)

lemma find_Some:
  assumes ok: "ok b" and small: "sum_list (map len (items b)) < 2 ^ 64"
    and found: "find b off = Some (s, j)"
  obtains i where "i < length (items b)" and "s = slot b i" and "item_at b s = items b ! i"
    and "unat j < len (items b ! i)"
    and "locate (map len (items b)) (unat off) = Some (i, unat j)"
proof -
  from found obtain i j' where s: "s = slot b i" and j: "j = of_nat j'"
    and l: "locate (map len (items b)) (unat off) = Some (i, j')"
    by (auto simp: find_spec [OF ok small])
  then have i: "i < length (items b)" and j': "j' < len (items b ! i)"
    by (auto simp: locate_Some_iff)
  have "len (items b ! i) \<le> sum_list (map len (items b))"
    by (intro member_le_sum_list) (use i in auto)
  with small j' have "unat j = j'" by (simp add: j unat_of_nat)
  then show thesis
    using i s l j' by (intro that [of i]) (simp_all add: at_slot [OF ok i])
qed

text \<open>
  What the search means for the bytes: whatever bytes the items stand for, the entry and the
  offset it returns are where the rest of the concatenation starts.
\<close>

lemma find_Some_data:
  assumes ok: "ok b" and small: "sum_list (map len (items b)) < 2 ^ 64"
    and found: "find b off = Some (s, j)"
    and data: "\<forall>e \<in> set (items b). length (data e) = len e"
  shows "\<exists>i < length (items b). item_at b s = items b ! i \<and> unat j < len (items b ! i) \<and>
     drop (unat off) (concat (map data (items b))) =
       drop (unat j) (data (item_at b s)) @ concat (map data (drop (Suc i) (items b)))"
proof -
  obtain i where i: "i < length (items b)" and it: "item_at b s = items b ! i"
    and j: "unat j < len (items b ! i)"
    and l: "locate (map len (items b)) (unat off) = Some (i, unat j)"
    using find_Some [OF ok small found] by metis
  have lens: "map length (map data (items b)) = map len (items b)"
    using data by simp
  have "locate (map length (map data (items b))) (unat off) = Some (i, unat j)"
    unfolding lens by (rule l)
  from locate_concat(3) [OF this] show ?thesis
    using i it j by (auto simp: drop_map)
qed

end

subsection \<open>The ring buffer keeps both contracts\<close>

definition add_op ::
  "(nat \<Rightarrow> size_t) \<times> aesd_buffer_entry \<Rightarrow> aesd_circular_buffer \<Rightarrow> aesd_circular_buffer"
where
  "add_op x b = add_entry_body (fst x) b (snd x)"

interpretation cb: searchable_log aesd_circular_buffer_init add_op snd contents cb_inv
  AESDCHAR_MAX_WRITE_OPERATIONS_SUPPORTED slot_of "\<lambda>b i. entry b ! i" entry_len
  aesd_circular_buffer_find_entry_offset_for_fpos
proof unfold_locales
  show "cb_inv aesd_circular_buffer_init" by (rule cb_inv_init)
  show "contents aesd_circular_buffer_init = []" by (rule contents_init)
  show "0 < AESDCHAR_MAX_WRITE_OPERATIONS_SUPPORTED" by (simp add: max_ops)
  fix b x assume b: "cb_inv b"
  show "cb_inv (add_op x b)" using b by (simp add: add_op_def cb_inv_add)
  show "contents (add_op x b) =
      (if length (contents b) = AESDCHAR_MAX_WRITE_OPERATIONS_SUPPORTED then tl (contents b)
       else contents b) @ [snd x]"
    using b by (simp add: add_op_def contents_add push_def)
next
  fix b i assume "cb_inv b" and "i < length (contents b)"
  then show "entry b ! slot_of b i = contents b ! i" by (simp add: contents_def ring_def)
next
  fix b off assume "cb_inv b" and "sum_list (map entry_len (contents b)) < 2 ^ 64"
  then show "aesd_circular_buffer_find_entry_offset_for_fpos b off =
      map_option (\<lambda>(i, j). (slot_of b i, of_nat j)) (locate (map entry_len (contents b)) (unat off))"
    by (rule find_refines)
qed

end
