(* ===== verification/Buffer_Properties.thy ===== *)
theory Buffer_Properties
  imports Log_Interface
begin

text \<open>
  What the ring buffer promises: it keeps the ten most recent entries in order, a search by offset
  finds the byte at that offset of the concatenation, and its running size is right while the
  buffer fills and wrong from the first overwrite on.
\<close>

subsection \<open>Runs from the empty buffer\<close>

abbreviation after :: "((nat \<Rightarrow> size_t) \<times> aesd_buffer_entry) list \<Rightarrow> aesd_circular_buffer" where
  "after ops \<equiv> fold add_op ops aesd_circular_buffer_init"

lemma after_inv: "cb_inv (after ops)"
  by (rule cb.run_ok [OF cb_inv_init])

lemma after_contents: "contents (after ops) = drop (length ops - 10) (map snd ops)"
  using cb.run_items [of ops] by (simp add: max_ops)

lemma ring_count_after:
  "ring_count (after ops) = min AESDCHAR_MAX_WRITE_OPERATIONS_SUPPORTED (length ops)"
  using cb.run_items [of ops] contents_length [of "after ops"]
  by (auto simp: max_ops min_def)

lemma full_iff_count: "cb_inv b \<Longrightarrow> full b \<longleftrightarrow> ring_count b = AESDCHAR_MAX_WRITE_OPERATIONS_SUPPORTED"
  by (auto simp: cb_inv_def ring_count_def)

lemma full_after: "full (after ops) \<longleftrightarrow> 10 \<le> length ops"
  by (simp add: full_iff_count after_inv ring_count_after max_ops min_def)

lemma add_op_not_full:
  "\<not> full b \<Longrightarrow> out_offs (add_op x b) = out_offs b"
  "\<not> full b \<Longrightarrow> total_size (add_op x b) = total_size b + entry_size (snd x)"
  by (simp_all add: add_op_def add_entry_body_out_offs add_entry_body_total_size)

lemma after_filling:
  "length ops \<le> AESDCHAR_MAX_WRITE_OPERATIONS_SUPPORTED \<Longrightarrow>
     out_offs (after ops) = 0 \<and>
     total_size (after ops) = sum_list (map (\<lambda>x. entry_size (snd x)) ops)"
proof (induction ops rule: rev_induct)
  case Nil
  show ?case by (simp add: aesd_circular_buffer_init_def)
next
  case (snoc x ops)
  then have "\<not> full (after ops)" by (simp add: full_after max_ops)
  with snoc show ?case
    by (simp add: add_op_not_full)
qed

subsection \<open>Properties\<close>

text \<open>C9: adding an entry to a well-formed buffer keeps it well formed and makes its contents
  the old contents with the new entry at the end and, when ten entries were there, without the
  oldest; a NULL entry or a NULL buffer changes nothing.\<close>

theorem add_entry_refines:
  assumes "cb_inv b"
  shows "(\<exists>b'. aesd_circular_buffer_add_entry oob (Some b) (Some e) = Some b' \<and>
            cb_inv b' \<and> contents b' = push (contents b) e) \<and>
         aesd_circular_buffer_add_entry oob buffer None = buffer \<and>
         aesd_circular_buffer_add_entry oob None entry_ptr = None"
  using assms
  by (auto simp: aesd_circular_buffer_add_entry_def cb_inv_add contents_add split: option.splits)

theorem add_entry_refines_witness:
  "cb_inv aesd_circular_buffer_init \<and>
   (\<exists>b'. aesd_circular_buffer_add_entry (\<lambda>_. 0) (Some aesd_circular_buffer_init)
           (Some \<lparr>buffptr = 7, entry_size = 3\<rparr>) = Some b' \<and>
         cb_inv b' \<and> contents b' = [\<lparr>buffptr = 7, entry_size = 3\<rparr>])"
  using add_entry_refines [OF cb_inv_init, of "\<lambda>_. 0" "\<lparr>buffptr = 7, entry_size = 3\<rparr>"]
  by (simp add: cb_inv_init contents_init push_def max_ops)

text \<open>After any sequence of additions to the initialised buffer, its contents are exactly the
  last ten entries added, oldest first.\<close>

theorem buffer_keeps_last_ten:
  "contents (fold add_op ops aesd_circular_buffer_init) = drop (length ops - 10) (map snd ops)"
  by (rule after_contents)

text \<open>C11: the search by offset finds, for an offset inside the concatenation of the entries' bytes,
  the entry and the position in it that hold this byte, and returns NULL exactly when the offset is
  at or past the end. The bytes are any data of the entries' sizes; the sizes together fit a
  \<open>size_t\<close>.\<close>

theorem find_entry_byte:
  assumes inv: "cb_inv b"
    and small: "sum_list (map entry_len (contents b)) < 2 ^ 64"
    and data: "\<forall>e \<in> set (contents b). length (data e) = entry_len e"
  shows "case aesd_circular_buffer_find_entry_offset_for_fpos b off of
      None \<Rightarrow> length (concat (map data (contents b))) \<le> unat off
    | Some (i, j) \<Rightarrow> i < 10 \<and> unat j < entry_len (entry b ! i) \<and>
        unat off < length (concat (map data (contents b))) \<and>
        concat (map data (contents b)) ! unat off = data (entry b ! i) ! unat j"
proof (cases "aesd_circular_buffer_find_entry_offset_for_fpos b off")
  case None
  have "map length (map data (contents b)) = map entry_len (contents b)" using data by simp
  then have "length (concat (map data (contents b))) = sum_list (map entry_len (contents b))"
    by (simp only: length_concat)
  moreover have "sum_list (map entry_len (contents b)) \<le> unat off"
    using cb.find_None [OF inv small, of off] None by blast
  ultimately show ?thesis using None by simp
next
  case (Some p)
  obtain i j where p: "p = (i, j)" by (cases p)
  let ?all = "concat (map data (contents b))"
  from cb.find_Some [OF inv small Some [unfolded p]] have i: "i < 10"
    by (metis slot_of_less max_ops)
  from cb.find_Some_data [OF inv small Some [unfolded p] data]
  obtain m where m: "m < length (contents b)" and it: "entry b ! i = contents b ! m"
    and j: "unat j < entry_len (entry b ! i)"
    and rest: "drop (unat off) ?all = drop (unat j) (data (entry b ! i)) @
                 concat (map data (drop (Suc m) (contents b)))"
    by auto
  from m it data have len: "length (data (entry b ! i)) = entry_len (entry b ! i)"
    by (metis nth_mem)
  have hd: "drop (unat off) ?all \<noteq> []" and "hd (drop (unat off) ?all) = data (entry b ! i) ! unat j"
    using j len by (simp_all add: rest hd_append hd_drop_conv_nth)
  then show ?thesis using Some p i j by (simp add: hd_drop_conv_nth)
qed

definition three_bytes :: aesd_buffer_entry where
  "three_bytes = \<lparr>buffptr = 7, entry_size = 3\<rparr>"

theorem find_entry_byte_witness:
  "\<exists>i j. aesd_circular_buffer_find_entry_offset_for_fpos (after [(\<lambda>_. 0, three_bytes)]) 1
      = Some (i, j) \<and> i < 10 \<and> [97, 98, 10 :: byte] ! unat j = 98"
proof -
  define b where "b = after [(\<lambda>_. 0, three_bytes)]"
  have inv: "cb_inv b" unfolding b_def by (rule after_inv)
  have c: "contents b = [three_bytes]"
    unfolding b_def using after_contents [of "[(\<lambda>_. 0, three_bytes)]"] by simp
  have "case aesd_circular_buffer_find_entry_offset_for_fpos b 1 of
      None \<Rightarrow> length (concat (map (\<lambda>_. [97, 98, 10 :: byte]) (contents b))) \<le> unat (1 :: size_t)
    | Some (i, j) \<Rightarrow> i < 10 \<and> unat j < entry_len (entry b ! i) \<and>
        unat (1 :: size_t) < length (concat (map (\<lambda>_. [97, 98, 10 :: byte]) (contents b))) \<and>
        concat (map (\<lambda>_. [97, 98, 10]) (contents b)) ! unat (1 :: size_t)
          = [97, 98, 10 :: byte] ! unat j"
    by (rule find_entry_byte [OF inv]) (simp_all add: c three_bytes_def)
  then show ?thesis
    unfolding b_def [symmetric] by (auto simp: c split: option.splits)
qed

text \<open>While at most ten entries have been added, the running size of the buffer is the sum of
  the sizes of its entries.\<close>

theorem running_size_while_filling:
  assumes "length ops \<le> 10"
  shows "total_size (fold add_op ops aesd_circular_buffer_init) =
           sum_list (map entry_size (contents (fold add_op ops aesd_circular_buffer_init)))"
  using assms after_filling [of ops] after_contents [of ops] by (simp add: max_ops comp_def)

theorem running_size_while_filling_witness:
  "total_size (fold add_op [(\<lambda>_. 0, three_bytes), (\<lambda>_. 0, three_bytes)] aesd_circular_buffer_init) = 6"
  using running_size_while_filling [of "[(\<lambda>_. 0, three_bytes), (\<lambda>_. 0, three_bytes)]"]
    after_contents [of "[(\<lambda>_. 0, three_bytes), (\<lambda>_. 0, three_bytes)]"]
  by (simp add: three_bytes_def)

text \<open>The eleventh addition sets the running size to 0, whatever the sizes of the entries: the
  code subtracts \<open>buffer[0].size\<close>, the running size itself, and not the size of the entry it
  overwrites.\<close>

theorem running_size_lost_at_eleventh:
  assumes "length ops = 11"
  shows "total_size (fold add_op ops aesd_circular_buffer_init) = 0"
proof (cases ops rule: rev_cases)
  case Nil
  with assms show ?thesis by simp
next
  case (snoc xs x)
  with assms have "length xs = 10" by simp
  with after_filling [of xs] full_after [of xs]
  have "full (after xs)" and "out_offs (after xs) = 0" by (simp_all add: max_ops)
  then show ?thesis
    by (simp add: snoc add_op_def add_entry_body_total_size)
qed

theorem running_size_lost_at_eleventh_witness:
  "total_size (fold add_op (replicate 11 (\<lambda>_. 0, three_bytes)) aesd_circular_buffer_init) = 0"
  by (rule running_size_lost_at_eleventh) (rule length_replicate)

text \<open>The running size an addition leaves depends on memory outside the buffer exactly when the
  buffer is full and its output index is not 0; everything else in the buffer never does.\<close>

theorem running_size_reads_outside:
  "(\<forall>oob oob'. total_size (add_entry_body oob b e) = total_size (add_entry_body oob' b e)) \<longleftrightarrow>
     \<not> (full b \<and> out_offs b \<noteq> 0)" (is "?same \<longleftrightarrow> ?inside")
proof
  assume same: ?same
  have "total_size (add_entry_body (\<lambda>_. 0) b e) = total_size (add_entry_body (\<lambda>_. 1) b e)"
    using same by blast
  then show ?inside by (auto simp: add_entry_body_total_size split: if_splits)
next
  assume ?inside
  then show ?same by (auto simp: add_entry_body_total_size)
qed

end
