(* ===== verification/Char_Device.thy ===== *)
theory Char_Device
  imports Kernel_Interface Buffer_Properties
begin

text \<open>
  The character device of \<^verbatim>\<open>aesd-char-driver/main.c\<close>: the device structure, the open file, and the
  file operations \<open>aesd_open\<close>, \<open>aesd_release\<close>, \<open>aesd_read\<close>, \<open>aesd_write\<close>, \<open>aesd_llseek\<close> and
  \<open>aesd_ioctl\<close>. A call takes and returns the world (device, kernel heap, user memory). Locking a
  device whose mutex is held, which every operation does first, is the outcome \<open>Blocked\<close>; a memory
  access outside its block, or through a file without a device, is \<open>Undef\<close>.
\<close>

subsection \<open>State\<close>

record aesd_dev =
  lock :: bool
  circ_buffer :: aesd_circular_buffer
  working_entry :: aesd_buffer_entry
  dev_buffer :: ptr
  buffer_size :: size_t

datatype dev_ptr = No_device | Aesd_device

record inode = i_cdev :: dev_ptr

record open_file =
  private_data :: dev_ptr
  f_pos :: loff_t
  can_write :: bool

record aesd_seekto =
  write_cmd :: uint32
  write_cmd_offset :: uint32

record world =
  device :: aesd_dev
  kheap :: heap
  user :: umem

subsection \<open>Locking\<close>

definition set_lock :: "bool \<Rightarrow> world \<Rightarrow> world" where
  "set_lock l w = w\<lparr>device := (device w)\<lparr>lock := l\<rparr>\<rparr>"

definition mutex_lock :: "open_file \<Rightarrow> world \<Rightarrow> world outcome" where
  "mutex_lock filp w =
     (case private_data filp of
        No_device \<Rightarrow> Undef
      | Aesd_device \<Rightarrow> if lock (device w) then Blocked else Ret (set_lock True w))"

definition mutex_unlock :: "world \<Rightarrow> world" where
  "mutex_unlock w = set_lock False w"

subsection \<open>Open and release\<close>

definition aesd_open :: "inode \<Rightarrow> open_file \<Rightarrow> 32 word \<times> open_file" where
  "aesd_open inode filp = (0, filp\<lparr>private_data := i_cdev inode\<rparr>)"

definition aesd_release :: "inode \<Rightarrow> open_file \<Rightarrow> 32 word \<times> open_file" where
  "aesd_release inode filp = (0, filp)"

subsection \<open>Seeking\<close>

definition aesd_llseek ::
  "kernel \<Rightarrow> open_file \<Rightarrow> loff_t \<Rightarrow> nat \<Rightarrow> world \<Rightarrow> (loff_t \<times> open_file \<times> world) outcome"
where
  "aesd_llseek k filp offset whence w =
     obind (mutex_lock filp w) (\<lambda>w.
       let (new_pos, pos) = fixed_size_llseek k (f_pos filp) offset whence
                              (total_size (circ_buffer (device w)));
           filp = filp\<lparr>f_pos := pos\<rparr>
       in if sint new_pos < 0 then Ret (- EINVAL, filp, w)
          else Ret (new_pos, filp\<lparr>f_pos := new_pos\<rparr>, mutex_unlock w))"

text \<open>
  \<open>entry[i].size\<close>; the check against the ten entries lets the index 10 pass, which is past the
  array. What is read there is the parameter \<open>oobe\<close>.
\<close>

definition entry_size_at :: "(nat \<Rightarrow> size_t) \<Rightarrow> aesd_circular_buffer \<Rightarrow> nat \<Rightarrow> size_t" where
  "entry_size_at oobe b i =
     (if i < AESDCHAR_MAX_WRITE_OPERATIONS_SUPPORTED then entry_size (entry b ! i) else oobe i)"

function offset_loop ::
  "(nat \<Rightarrow> size_t) \<Rightarrow> aesd_circular_buffer \<Rightarrow> uint32 \<Rightarrow> uint32 \<Rightarrow> loff_t \<Rightarrow> loff_t"
where
  "offset_loop oobe b cmd i updated_offset =
     (if i < cmd
      then offset_loop oobe b cmd (i + 1) (updated_offset + entry_size_at oobe b (unat i))
      else updated_offset)"
  by pat_completeness auto
termination
proof (relation "measure (\<lambda>(oobe, b, n, i, u). unat n - unat i)")
  fix oobe :: "nat \<Rightarrow> size_t" and b :: aesd_circular_buffer and n i :: uint32 and u :: loff_t
  assume "i < n"
  then have "unat i < unat n" and "unat (i + 1) = Suc (unat i)"
    by (simp_all add: word_less_nat_alt unat_Suc_less)
  then show "((oobe, b, n, i + 1, u + entry_size_at oobe b (unat i)), (oobe, b, n, i, u))
      \<in> measure (\<lambda>(oobe, b, n, i, u). unat n - unat i)"
    by simp
qed simp

declare offset_loop.simps [simp del]

definition aesd_file_offset ::
  "(nat \<Rightarrow> size_t) \<Rightarrow> open_file \<Rightarrow> uint32 \<Rightarrow> uint32 \<Rightarrow> world \<Rightarrow> (64 word \<times> open_file \<times> world) outcome"
where
  "aesd_file_offset oobe filp cmd cmd_offset w =
     obind (mutex_lock filp w) (\<lambda>w.
       let b = circ_buffer (device w) in
       if cmd > of_nat AESDCHAR_MAX_WRITE_OPERATIONS_SUPPORTED
       then Ret (- EINVAL, filp, mutex_unlock w)
       else if ucast cmd_offset > entry_size_at oobe b (unat cmd)
       then Ret (- EINVAL, filp, mutex_unlock w)
       else Ret (0, filp\<lparr>f_pos := offset_loop oobe b cmd 0 0 + ucast cmd_offset\<rparr>,
                 mutex_unlock w))"

text \<open>The ioctl argument: a structure of two 32-bit integers, little endian, of eight bytes.\<close>

definition le_word :: "byte list \<Rightarrow> uint32" where
  "le_word bs = foldr (\<lambda>b acc. push_bit 8 acc + ucast b) bs 0"

definition seekto_of_bytes :: "byte list \<Rightarrow> aesd_seekto" where
  "seekto_of_bytes bs =
     \<lparr>write_cmd = le_word (take 4 bs), write_cmd_offset = le_word (take 4 (drop 4 bs))\<rparr>"

definition AESD_IOC_MAGIC :: uint32 where
  "AESD_IOC_MAGIC = 0x16"

definition AESDCHAR_IOCSEEKTO :: "kernel \<Rightarrow> uint32" where
  "AESDCHAR_IOCSEEKTO k = iowr k AESD_IOC_MAGIC 1 8"

definition AESDCHAR_IOC_MAXNR :: uint32 where
  "AESDCHAR_IOC_MAXNR = 1"

definition aesd_ioctl ::
  "kernel \<Rightarrow> (nat \<Rightarrow> size_t) \<Rightarrow> open_file \<Rightarrow> uint32 \<Rightarrow> nat \<Rightarrow> world
     \<Rightarrow> (64 word \<times> open_file \<times> world) outcome"
where
  "aesd_ioctl k oobe filp cmd arg w =
     (if ioc_type k cmd \<noteq> AESD_IOC_MAGIC \<or> ioc_nr k cmd > AESDCHAR_IOC_MAXNR
      then Ret (ENOTTY, filp, w)
      else if cmd = AESDCHAR_IOCSEEKTO k
      then (let (uncopied, bs) = copy_from_user k (user w) arg 8 in
            if uncopied \<noteq> 0 then Ret (- EFAULT, filp, w)
            else aesd_file_offset oobe filp (write_cmd (seekto_of_bytes bs))
                   (write_cmd_offset (seekto_of_bytes bs)) w)
      else Ret (- EINVAL, filp, w))"

subsection \<open>Reading\<close>

text \<open>\<open>copy_to_user\<close> of \<open>n\<close> bytes from an entry, starting at an offset into its block.\<close>

definition copy_entry_out ::
  "kernel \<Rightarrow> nat \<Rightarrow> aesd_buffer_entry \<Rightarrow> size_t \<Rightarrow> size_t \<Rightarrow> world \<Rightarrow> (size_t \<times> world) outcome"
where
  "copy_entry_out k buf e offset n w =
     (case mem_read (kheap w) (buffptr e) (unat offset) (unat n) of
        None \<Rightarrow> Undef
      | Some bs \<Rightarrow> (let (uncopied, m) = copy_to_user k (user w) buf bs
                     in Ret (uncopied, w\<lparr>user := m\<rparr>)))"

definition aesd_read ::
  "kernel \<Rightarrow> open_file \<Rightarrow> nat \<Rightarrow> size_t \<Rightarrow> loff_t \<Rightarrow> world \<Rightarrow> (ssize_t \<times> loff_t \<times> world) outcome"
where
  "aesd_read k filp buf count pos w =
     obind (mutex_lock filp w) (\<lambda>w.
       case aesd_circular_buffer_find_entry_offset_for_fpos (circ_buffer (device w)) pos of
         None \<Rightarrow> Ret (0, pos, mutex_unlock w)
       | Some (i, offset) \<Rightarrow>
           (let current_entry = entry (circ_buffer (device w)) ! i;
                copy_bytes = entry_size current_entry - offset
            in if copy_bytes < count
               then obind (copy_entry_out k buf current_entry offset copy_bytes w) (\<lambda>(uncopied, w).
                      let retval = (if uncopied \<noteq> 0 then - EFAULT else copy_bytes)
                      in Ret (retval, pos + retval, mutex_unlock w))
               else obind (copy_entry_out k buf current_entry offset count w) (\<lambda>(uncopied, w).
                      let retval = (if uncopied \<noteq> 0 then - EFAULT else count)
                      in Ret (retval, pos + retval, mutex_unlock w))))"

subsection \<open>Writing\<close>

text \<open>The loop that looks for a newline: the index where it stops and whether it found one.\<close>

function find_newline :: "byte list \<Rightarrow> size_t \<Rightarrow> size_t \<Rightarrow> size_t \<times> bool" where
  "find_newline write_data count newline_index =
     (if newline_index < count
      then if write_data ! unat newline_index = newline then (newline_index, True)
           else find_newline write_data count (newline_index + 1)
      else (newline_index, False))"
  by pat_completeness auto
termination
proof (relation "measure (\<lambda>(d, n, i). unat n - unat i)")
  fix d :: "byte list" and n i :: size_t
  assume "i < n"
  then have "unat i < unat n" and "unat (i + 1) = Suc (unat i)"
    by (simp_all add: word_less_nat_alt unat_Suc_less)
  then show "((d, n, i + 1), (d, n, i)) \<in> measure (\<lambda>(d, n, i). unat n - unat i)"
    by simp
qed simp

declare find_newline.simps [simp del]

text \<open>Allocating or growing the write buffer; the flag is False when the allocation failed.\<close>

definition grow_buffer :: "kernel \<Rightarrow> size_t \<Rightarrow> world \<Rightarrow> bool \<times> world" where
  "grow_buffer k this_chunk w =
     (let d = device w;
          (p, h) = (if buffer_size d = 0 then kmalloc k (kheap w) this_chunk
                    else krealloc k (kheap w) (dev_buffer d) (buffer_size d + this_chunk))
      in (p \<noteq> NULL, w\<lparr>device := d\<lparr>dev_buffer := p\<rparr>, kheap := h\<rparr>))"

text \<open>\<open>memcpy\<close> of the first bytes of the block at \<open>write_data\<close> to the end of the write buffer.\<close>

definition append_chunk :: "ptr \<Rightarrow> size_t \<Rightarrow> world \<Rightarrow> world outcome" where
  "append_chunk write_data this_chunk w =
     (let d = device w in
      case mem_read (kheap w) write_data 0 (unat this_chunk) of
        None \<Rightarrow> Undef
      | Some bs \<Rightarrow>
          (case mem_write (kheap w) (dev_buffer d) (unat (buffer_size d)) bs of
             None \<Rightarrow> Undef
           | Some h \<Rightarrow> Ret (w\<lparr>kheap := h,
                               device := d\<lparr>buffer_size := buffer_size d + this_chunk\<rparr>\<rparr>)))"

text \<open>Handing the write buffer over to the ring as an entry.\<close>

definition commit_packet :: "(nat \<Rightarrow> size_t) \<Rightarrow> world \<Rightarrow> world" where
  "commit_packet oob w =
     (let d = device w;
          new_entry = \<lparr>buffptr = dev_buffer d, entry_size = buffer_size d\<rparr>;
          b = aesd_circular_buffer_add_entry oob (Some (circ_buffer d)) (Some new_entry)
      in w\<lparr>device := d\<lparr>circ_buffer := the b, buffer_size := 0\<rparr>\<rparr>)"

definition kfree_in :: "kernel \<Rightarrow> ptr \<Rightarrow> world \<Rightarrow> world" where
  "kfree_in k p w = w\<lparr>kheap := kfree k (kheap w) p\<rparr>"

text \<open>The part of \<open>aesd_write\<close> under the lock.\<close>

definition write_locked ::
  "kernel \<Rightarrow> (nat \<Rightarrow> size_t) \<Rightarrow> ptr \<Rightarrow> byte list \<Rightarrow> size_t \<Rightarrow> loff_t \<Rightarrow> world
     \<Rightarrow> (ssize_t \<times> loff_t \<times> world) outcome"
where
  "write_locked k oob write_data bs count pos w =
     (let (newline_index, full_packet) = find_newline bs count 0;
          this_chunk = (if full_packet then newline_index + 1 else count);
          (grown, w) = grow_buffer k this_chunk w
      in if \<not> grown then Ret (- ENOMEM, pos, mutex_unlock (kfree_in k write_data w))
      else obind (append_chunk write_data this_chunk w) (\<lambda>w.
        let w = (if full_packet then commit_packet oob w else w)
        in Ret (this_chunk, pos + this_chunk, mutex_unlock (kfree_in k write_data w))))"

definition aesd_write ::
  "kernel \<Rightarrow> (nat \<Rightarrow> size_t) \<Rightarrow> open_file \<Rightarrow> nat \<Rightarrow> size_t \<Rightarrow> loff_t \<Rightarrow> world
     \<Rightarrow> (ssize_t \<times> loff_t \<times> world) outcome"
where
  "aesd_write k oob filp buf count pos w =
     (let (write_data, h) = kmalloc k (kheap w) count;
          w = w\<lparr>kheap := h\<rparr>
      in if write_data = NULL then Ret (- ENOMEM, pos, w)
      else let (uncopied, bs) = copy_from_user k (user w) buf count in
      case mem_write (kheap w) write_data 0 bs of
        None \<Rightarrow> Undef
      | Some h \<Rightarrow>
          (let w = w\<lparr>kheap := h\<rparr>
           in if uncopied \<noteq> 0 then Ret (- EFAULT, pos, kfree_in k write_data w)
           else obind (mutex_lock filp w) (write_locked k oob write_data bs count pos)))"

end
