(* ===== verification/Device_State.thy ===== *)
theory Device_State
  imports Char_Device
begin

text \<open>
  The state of the device as its users see it: the list of the packets in the ring (each the bytes
  of one entry, oldest first) and the bytes written since the last newline. \<open>dev_rep k w xs pend\<close>
  says that the device in the world \<open>w\<close> represents the packets \<open>xs\<close> and the pending bytes
  \<open>pend\<close>; the lemmas say how the memory operations of the driver act on it.
\<close>

subsection \<open>Representation\<close>

abbreviation ring_of :: "world \<Rightarrow> aesd_circular_buffer" where
  "ring_of w \<equiv> circ_buffer (device w)"

abbreviation entry_ptrs :: "world \<Rightarrow> ptr list" where
  "entry_ptrs w \<equiv> map buffptr (contents (ring_of w))"

definition log_rep :: "kernel \<Rightarrow> world \<Rightarrow> byte list list \<Rightarrow> bool" where
  "log_rep k w xs \<longleftrightarrow>
     cb_inv (ring_of w) \<and> mem_ok k (kheap w) \<and>
     map (kheap w) (entry_ptrs w) = map Some xs \<and>
     map entry_len (contents (ring_of w)) = map length xs \<and>
     distinct (entry_ptrs w)"

definition pend_rep :: "world \<Rightarrow> byte list \<Rightarrow> bool" where
  "pend_rep w pend \<longleftrightarrow>
     (if buffer_size (device w) = 0 then pend = []
      else dev_buffer (device w) \<noteq> NULL \<and> kheap w (dev_buffer (device w)) = Some pend \<and>
           unat (buffer_size (device w)) = length pend \<and>
           dev_buffer (device w) \<notin> set (entry_ptrs w))"

definition dev_rep :: "kernel \<Rightarrow> world \<Rightarrow> byte list list \<Rightarrow> byte list \<Rightarrow> bool" where
  "dev_rep k w xs pend \<longleftrightarrow> log_rep k w xs \<and> pend_rep w pend"

text \<open>
  The one way out of this: after a failed \<open>krealloc\<close> the buffer pointer is NULL and the buffer
  size is not 0.
\<close>

definition poisoned :: "world \<Rightarrow> bool" where
  "poisoned w \<longleftrightarrow> buffer_size (device w) \<noteq> 0 \<and> dev_buffer (device w) = NULL"

text \<open>The blocks the device can reach.\<close>

definition live :: "world \<Rightarrow> ptr set" where
  "live w = set (entry_ptrs w) \<union>
     (if buffer_size (device w) = 0 then {} else {dev_buffer (device w)})"

subsection \<open>Lemmas on the representation\<close>

lemma log_rep_length: "log_rep k w xs \<Longrightarrow> length xs = ring_count (ring_of w)"
  unfolding log_rep_def by (metis length_map contents_length)

lemma log_rep_bounded: "log_rep k w xs \<Longrightarrow> length xs \<le> 10"
  using ring_count_le [of "ring_of w"] by (simp add: log_rep_length log_rep_def max_ops)

lemma log_rep_block:
  assumes "log_rep k w xs" and "i < length (contents (ring_of w))"
  shows "kheap w (buffptr (contents (ring_of w) ! i)) = Some (xs ! i)"
    and "entry_len (contents (ring_of w) ! i) = length (xs ! i)"
proof -
  have m1: "map (kheap w) (entry_ptrs w) = map Some xs"
    and m2: "map entry_len (contents (ring_of w)) = map length xs"
    using assms(1) by (auto simp: log_rep_def)
  from m2 have len: "length (contents (ring_of w)) = length xs" by (metis length_map)
  from m1 have "map (kheap w) (entry_ptrs w) ! i = map Some xs ! i" by simp
  then show "kheap w (buffptr (contents (ring_of w) ! i)) = Some (xs ! i)"
    using assms(2) len by simp
  from m2 have "map entry_len (contents (ring_of w)) ! i = map length xs ! i" by simp
  then show "entry_len (contents (ring_of w) ! i) = length (xs ! i)"
    using assms(2) len by simp
qed

lemma log_rep_allocated: "log_rep k w xs \<Longrightarrow> p \<in> set (entry_ptrs w) \<Longrightarrow> kheap w p \<noteq> None"
  using log_rep_block(1) [of k w xs] by (force simp: in_set_conv_nth)

lemma log_rep_total:
  assumes rep: "log_rep k w xs"
  shows "length (concat xs) < 2 ^ 63"
proof -
  have "sum_list (map (\<lambda>p. length (the (kheap w p))) (entry_ptrs w))
      = sum_list (map length (map the (map (kheap w) (entry_ptrs w))))"
    by (simp add: comp_def)
  also have "\<dots> = length (concat xs)"
    using rep by (simp only: log_rep_def length_concat) (simp add: comp_def)
  finally have "length (concat xs) \<le> mem_total (kheap w)"
    using blocks_fit [of "kheap w" "entry_ptrs w"] rep log_rep_allocated [OF rep]
    by (force simp: log_rep_def mem_ok_def)
  then show ?thesis using rep by (auto simp: log_rep_def mem_ok_def)
qed

lemma log_rep_sizes:
  "log_rep k w xs \<Longrightarrow> sum_list (map entry_len (contents (ring_of w))) = length (concat xs)"
  by (simp add: log_rep_def length_concat)

text \<open>
  Frame rule: the represented packets depend on the ring and on the blocks of its entries only.
\<close>

lemma log_rep_frame:
  assumes "log_rep k w xs" and "ring_of w' = ring_of w" and "mem_ok k (kheap w')"
    and "\<forall>p \<in> set (entry_ptrs w). kheap w' p = kheap w p"
  shows "log_rep k w' xs"
proof -
  have eq: "map (kheap w') (entry_ptrs w) = map (kheap w) (entry_ptrs w)"
    using assms(4) by (intro map_cong) auto
  show ?thesis
    unfolding log_rep_def assms(2) eq using assms(1,3) unfolding log_rep_def by blast
qed

lemma pend_rep_frame:
  assumes "pend_rep w pend" and "ring_of w' = ring_of w"
    and "buffer_size (device w') = buffer_size (device w)"
    and "dev_buffer (device w') = dev_buffer (device w)"
    and "buffer_size (device w) \<noteq> 0 \<longrightarrow>
           kheap w' (dev_buffer (device w)) = kheap w (dev_buffer (device w))"
  shows "pend_rep w' pend"
  using assms by (auto simp: pend_rep_def)

lemma dev_rep_frame:
  assumes "dev_rep k w xs pend" and "ring_of w' = ring_of w"
    and "buffer_size (device w') = buffer_size (device w)"
    and "dev_buffer (device w') = dev_buffer (device w)"
    and "mem_ok k (kheap w')" and "\<forall>p \<in> live w. kheap w' p = kheap w p"
  shows "dev_rep k w' xs pend"
proof -
  from assms(1) have log: "log_rep k w xs" and pend: "pend_rep w pend"
    by (simp_all add: dev_rep_def)
  have "\<forall>p \<in> set (entry_ptrs w). kheap w' p = kheap w p"
    using assms(6) unfolding live_def by blast
  then have "log_rep k w' xs" by (rule log_rep_frame [OF log assms(2,5)])
  moreover have "buffer_size (device w) \<noteq> 0 \<longrightarrow>
      kheap w' (dev_buffer (device w)) = kheap w (dev_buffer (device w))"
    using assms(6) unfolding live_def by simp
  then have "pend_rep w' pend" by (rule pend_rep_frame [OF pend assms(2,3,4)])
  ultimately show ?thesis by (simp add: dev_rep_def)
qed

lemma dev_rep_set_lock [simp]: "dev_rep k (set_lock l w) xs pend = dev_rep k w xs pend"
  by (simp add: dev_rep_def log_rep_def pend_rep_def set_lock_def)

lemma dev_rep_mutex_unlock [simp]: "dev_rep k (mutex_unlock w) xs pend = dev_rep k w xs pend"
  by (simp add: mutex_unlock_def)

lemma dev_rep_user [simp]: "dev_rep k (w\<lparr>user := m\<rparr>) xs pend = dev_rep k w xs pend"
  by (simp add: dev_rep_def log_rep_def pend_rep_def)

lemma live_allocated:
  assumes "dev_rep k w xs pend" and "p \<in> live w"
  shows "kheap w p \<noteq> None"
proof (cases "p \<in> set (entry_ptrs w)")
  case True
  then show ?thesis using assms(1) log_rep_allocated by (auto simp: dev_rep_def)
next
  case False
  with assms show ?thesis by (auto simp: live_def dev_rep_def pend_rep_def split: if_splits)
qed

lemma dev_rep_mem_ok: "dev_rep k w xs pend \<Longrightarrow> mem_ok k (kheap w)"
  by (simp add: dev_rep_def log_rep_def)

lemma dev_rep_pending_bound:
  assumes "dev_rep k w xs pend"
  shows "length pend < 2 ^ 63"
  using assms block_fits [of k "kheap w" "dev_buffer (device w)" pend]
  by (auto simp: dev_rep_def log_rep_def pend_rep_def split: if_splits)

text \<open>
  The states a device can be in, the poisoned ones included: the packets are as before, and the
  pending bytes are in place or lost.
\<close>

definition dev_state :: "kernel \<Rightarrow> world \<Rightarrow> byte list list \<Rightarrow> byte list \<Rightarrow> bool" where
  "dev_state k w xs pend \<longleftrightarrow>
     log_rep k w xs \<and>
     (if poisoned w then unat (buffer_size (device w)) < 2 ^ 63 else pend_rep w pend)"

lemma dev_rep_not_poisoned: "dev_rep k w xs pend \<Longrightarrow> \<not> poisoned w"
  by (auto simp: dev_rep_def pend_rep_def poisoned_def split: if_splits)

lemma dev_state_iff_rep: "\<not> poisoned w \<Longrightarrow> dev_state k w xs pend \<longleftrightarrow> dev_rep k w xs pend"
  by (simp add: dev_state_def dev_rep_def)

lemma dev_rep_state: "dev_rep k w xs pend \<Longrightarrow> dev_state k w xs pend"
  using dev_rep_not_poisoned dev_state_iff_rep by blast

lemma dev_state_mem_ok: "dev_state k w xs pend \<Longrightarrow> mem_ok k (kheap w)"
  by (simp add: dev_state_def log_rep_def)

lemma dev_state_live:
  assumes "dev_state k w xs pend" and "p \<in> live w" and "p \<noteq> NULL"
  shows "kheap w p \<noteq> None"
proof (cases "poisoned w")
  case True
  with assms have "p \<in> set (entry_ptrs w)" by (auto simp: live_def poisoned_def split: if_splits)
  then show ?thesis using assms(1) log_rep_allocated by (auto simp: dev_state_def)
next
  case False
  then show ?thesis using assms live_allocated by (auto simp: dev_state_iff_rep)
qed

lemma dev_state_size:
  assumes "dev_state k w xs pend"
  shows "unat (buffer_size (device w)) < 2 ^ 63"
    and "\<not> poisoned w \<Longrightarrow> unat (buffer_size (device w)) = length pend"
proof -
  show eq: "unat (buffer_size (device w)) = length pend" if "\<not> poisoned w"
    using assms that by (auto simp: dev_state_def pend_rep_def split: if_splits)
  show "unat (buffer_size (device w)) < 2 ^ 63"
  proof (cases "poisoned w")
    case True
    then show ?thesis using assms by (simp add: dev_state_def)
  next
    case False
    then show ?thesis
      using eq assms dev_rep_pending_bound by (simp add: dev_state_iff_rep)
  qed
qed

lemma dev_state_frame:
  assumes st: "dev_state k w xs pend" and "device w' = device w" and "mem_ok k (kheap w')"
    and agree: "\<forall>p \<in> live w. p \<noteq> NULL \<longrightarrow> kheap w' p = kheap w p"
  shows "dev_state k w' xs pend"
proof (cases "poisoned w")
  case True
  have log: "log_rep k w xs" using st by (simp add: dev_state_def)
  have "\<forall>p \<in> set (entry_ptrs w). kheap w' p = kheap w p"
  proof
    fix p assume p: "p \<in> set (entry_ptrs w)"
    then have "p \<noteq> NULL"
      using log_rep_allocated [OF log p] st by (metis dev_state_mem_ok mem_ok_def)
    then show "kheap w' p = kheap w p" using agree p unfolding live_def by blast
  qed
  then have "log_rep k w' xs" using assms(2,3) by (intro log_rep_frame [OF log]) simp_all
  then show ?thesis using True st assms(2) by (simp add: dev_state_def poisoned_def)
next
  case False
  then have rep: "dev_rep k w xs pend" using st by (simp add: dev_state_iff_rep)
  have "\<forall>p \<in> live w. kheap w' p = kheap w p"
    using agree live_allocated [OF rep] dev_rep_mem_ok [OF rep] by (metis mem_ok_def)
  then have "dev_rep k w' xs pend" using assms(2,3) by (intro dev_rep_frame [OF rep]) simp_all
  then show ?thesis by (rule dev_rep_state)
qed

lemma dev_state_set_lock [simp]: "dev_state k (set_lock l w) xs pend = dev_state k w xs pend"
  by (simp add: dev_state_def log_rep_def pend_rep_def set_lock_def poisoned_def)

lemma dev_state_mutex_unlock [simp]: "dev_state k (mutex_unlock w) xs pend = dev_state k w xs pend"
  by (simp add: mutex_unlock_def)

lemma dev_state_user [simp]: "dev_state k (w\<lparr>user := m\<rparr>) xs pend = dev_state k w xs pend"
  by (simp add: dev_state_def log_rep_def pend_rep_def poisoned_def)

text \<open>The two functions that read the abstract state off the world.\<close>

definition packets :: "world \<Rightarrow> byte list list" where
  "packets w = map (\<lambda>p. case kheap w p of None \<Rightarrow> [] | Some blk \<Rightarrow> blk) (entry_ptrs w)"

definition pending :: "world \<Rightarrow> byte list" where
  "pending w = (if buffer_size (device w) = 0 then []
     else case kheap w (dev_buffer (device w)) of None \<Rightarrow> [] | Some blk \<Rightarrow> blk)"

lemma dev_rep_functional:
  assumes "dev_rep k w xs pend"
  shows "packets w = xs" and "pending w = pend"
proof -
  have "map (kheap w) (entry_ptrs w) = map Some xs"
    using assms by (simp add: dev_rep_def log_rep_def)
  moreover have "packets w =
      map (\<lambda>o1. case o1 of None \<Rightarrow> [] | Some blk \<Rightarrow> blk) (map (kheap w) (entry_ptrs w))"
    by (simp add: packets_def comp_def)
  ultimately show "packets w = xs" by (simp add: comp_def)
  show "pending w = pend" using assms by (auto simp: dev_rep_def pend_rep_def pending_def)
qed

subsection \<open>The newline search\<close>

definition first_packet :: "byte list \<Rightarrow> byte list" where
  "first_packet bs =
     (if newline \<in> set bs then takeWhile (\<lambda>b. b \<noteq> newline) bs @ [newline] else bs)"

lemma find_newline_from:
  assumes len: "length bs = unat count"
  shows "i \<le> length bs \<Longrightarrow>
    find_newline bs count (of_nat i) =
      (of_nat (i + length (takeWhile (\<lambda>b. b \<noteq> newline) (drop i bs))), newline \<in> set (drop i bs))"
proof (induction "length bs - i" arbitrary: i)
  case 0
  then have "i = length bs" by simp
  then show ?case using len by (subst find_newline.simps) simp
next
  case (Suc n)
  then have i: "i < length bs" by simp
  have "i < 2 ^ 64" using i len unat64_bound [of count] by linarith
  then have ui: "unat (of_nat i :: size_t) = i" by (simp add: unat_of_nat)
  have guard: "(of_nat i :: size_t) < count" using i len by (simp add: word_less_nat_alt ui)
  have d: "drop i bs = bs ! i # drop (Suc i) bs" using i by (rule Cons_nth_drop_Suc [symmetric])
  have next_i: "(of_nat i + 1 :: size_t) = of_nat (Suc i)" by simp
  show ?case
  proof (cases "bs ! i = newline")
    case True
    then show ?thesis using guard by (subst find_newline.simps) (simp add: ui d)
  next
    case False
    have "find_newline bs count (of_nat (Suc i)) =
      (of_nat (Suc i + length (takeWhile (\<lambda>b. b \<noteq> newline) (drop (Suc i) bs))),
       newline \<in> set (drop (Suc i) bs))"
      using Suc.hyps i by (intro Suc.hyps(1)) auto
    moreover have "find_newline bs count (of_nat i) = find_newline bs count (of_nat (Suc i))"
      using guard False by (subst find_newline.simps) (simp add: ui next_i del: of_nat_Suc)
    ultimately show ?thesis using False by (simp add: d del: of_nat_Suc)
  qed
qed

lemma find_newline_first_packet:
  assumes "length bs = unat count"
  shows "snd (find_newline bs count 0) \<longleftrightarrow> newline \<in> set bs"
    and "(if snd (find_newline bs count 0) then fst (find_newline bs count 0) + 1 else count)
           = of_nat (length (first_packet bs))"
proof -
  have *: "find_newline bs count 0 =
      (of_nat (length (takeWhile (\<lambda>b. b \<noteq> newline) bs)), newline \<in> set bs)"
    using find_newline_from [OF assms, of 0] by simp
  show "snd (find_newline bs count 0) \<longleftrightarrow> newline \<in> set bs" by (simp add: *)
  show "(if snd (find_newline bs count 0) then fst (find_newline bs count 0) + 1 else count)
           = of_nat (length (first_packet bs))"
    using assms by (simp add: * first_packet_def)
qed

lemma first_packet_prefix: "take (length (first_packet bs)) bs = first_packet bs"
proof (cases "newline \<in> set bs")
  case True
  then obtain ys zs where bs: "bs = ys @ newline # zs" and "newline \<notin> set ys"
    by (meson split_list_first)
  then have "takeWhile (\<lambda>b. b \<noteq> newline) bs = ys" by (auto simp: takeWhile_append)
  then show ?thesis by (simp add: first_packet_def bs)
qed (simp add: first_packet_def)

lemma first_packet_length: "length (first_packet bs) \<le> length bs"
  using first_packet_prefix [of bs] by (metis length_take min.cobounded1)

end
