(* ===== verification/Device_Write.thy ===== *)
theory Device_Write
  imports Device_State
begin

text \<open>
  \<open>aesd_write\<close>, step by step: growing the write buffer, copying the chunk to its end, handing it
  to the ring, and the whole call.
\<close>

subsection \<open>Growing the write buffer and appending to it\<close>

text \<open>A block that is only the caller's scratch: allocated, or the zero-size pointer.\<close>

definition scratch :: "kernel \<Rightarrow> world \<Rightarrow> ptr \<Rightarrow> bool" where
  "scratch k w p \<longleftrightarrow> p \<notin> live w \<and> (kheap w p \<noteq> None \<or> p = zero_size_ptr k)"

text \<open>
  What \<open>grow_buffer\<close> has done when it succeeds: the write buffer is a block that starts with the
  pending bytes and has room for exactly the chunk; nothing else the device or the caller uses has
  moved. For an empty chunk on an empty buffer there is no block.
\<close>

definition grown ::
  "kernel \<Rightarrow> world \<Rightarrow> ptr \<Rightarrow> byte list \<Rightarrow> size_t \<Rightarrow> world \<Rightarrow> bool"
where
  "grown k w wd pend chunk w1 \<longleftrightarrow>
     (let p = dev_buffer (device w1) in
      device w1 = (device w)\<lparr>dev_buffer := p\<rparr> \<and> user w1 = user w \<and> p \<noteq> NULL \<and>
      mem_ok k (kheap w1) \<and>
      (\<forall>q \<in> set (entry_ptrs w) \<union> {wd}. kheap w1 q = kheap w q) \<and>
      (if length pend + unat chunk = 0 then kheap w1 = kheap w
       else p \<notin> set (entry_ptrs w) \<and> p \<noteq> wd \<and>
            (\<exists>blk. kheap w1 p = Some blk \<and> length blk = length pend + unat chunk \<and>
                   take (length pend) blk = pend)))"

lemma fresh_not_scratch:
  assumes "scratch k w wd" and "mem_ok k h'" and "h' p \<noteq> None"
    and "kheap w p = None \<or> p \<in> live w"
  shows "p \<noteq> wd"
  using assms by (auto simp: scratch_def mem_ok_def)

lemma grow_empty:
  assumes kok: "kernel_ok k" and rep: "dev_rep k w xs pend" and wd: "scratch k w wd"
    and empty: "buffer_size (device w) = 0"
    and g: "grow_buffer k chunk w = (True, w1)"
  shows "grown k w wd pend chunk w1"
proof -
  have mem: "mem_ok k (kheap w)" by (rule dev_rep_mem_ok [OF rep])
  have pend: "pend = []" using rep empty by (simp add: dev_rep_def pend_rep_def)
  obtain p h' where km: "kmalloc k (kheap w) chunk = (p, h')" by (cases "kmalloc k (kheap w) chunk")
  have w1: "w1 = w\<lparr>device := (device w)\<lparr>dev_buffer := p\<rparr>, kheap := h'\<rparr>" and p: "p \<noteq> NULL"
    using g empty by (auto simp: grow_buffer_def Let_def km)
  from kok mem km show ?thesis
  proof (cases rule: kmalloc_cases)
    case fail
    with p show ?thesis by simp
  next
    case zero
    then show ?thesis using mem by (simp add: grown_def w1 pend)
  next
    case (block blk)
    have "p \<notin> set (entry_ptrs w)"
      using live_allocated [OF rep, of p] block by (auto simp: live_def)
    moreover have "p \<noteq> wd"
      using fresh_not_scratch [OF wd \<open>mem_ok k h'\<close>, of p] block by auto
    ultimately show ?thesis using block by (auto simp: grown_def w1 pend unat_eq_0)
  qed
qed

lemma grow_size:
  assumes rep: "dev_rep k w xs pend" and nonempty: "buffer_size (device w) \<noteq> 0"
    and small: "unat chunk < 2 ^ 63"
  shows "unat (buffer_size (device w) + chunk) = length pend + unat chunk"
    and "buffer_size (device w) + chunk \<noteq> 0"
proof -
  have size: "unat (buffer_size (device w)) = length pend"
    using rep nonempty by (auto simp: dev_rep_def pend_rep_def)
  have "length pend < 2 ^ 63" by (rule dev_rep_pending_bound [OF rep])
  then show n: "unat (buffer_size (device w) + chunk) = length pend + unat chunk"
    using small size by (subst unat_add_nowrap) simp_all
  have "length pend \<noteq> 0" using size nonempty by (metis unat_eq_zero)
  then show "buffer_size (device w) + chunk \<noteq> 0" using n by (metis add_is_0 unat_0)
qed

lemma grow_more:
  assumes kok: "kernel_ok k" and rep: "dev_rep k w xs pend" and wd: "scratch k w wd"
    and nonempty: "buffer_size (device w) \<noteq> 0" and small: "unat chunk < 2 ^ 63"
    and g: "grow_buffer k chunk w = (True, w1)"
  shows "grown k w wd pend chunk w1"
proof -
  let ?d = "dev_buffer (device w)" and ?n = "buffer_size (device w) + chunk"
  have mem: "mem_ok k (kheap w)" by (rule dev_rep_mem_ok [OF rep])
  have d: "?d \<noteq> NULL" "kheap w ?d = Some pend" "?d \<notin> set (entry_ptrs w)"
    using rep nonempty by (auto simp: dev_rep_def pend_rep_def)
  have n: "unat ?n = length pend + unat chunk" and nz: "?n \<noteq> 0"
    using grow_size [OF rep nonempty small] by simp_all
  obtain p h' where kr: "krealloc k (kheap w) ?d ?n = (p, h')"
    by (cases "krealloc k (kheap w) ?d ?n")
  have w1: "w1 = w\<lparr>device := (device w)\<lparr>dev_buffer := p\<rparr>, kheap := h'\<rparr>" and p: "p \<noteq> NULL"
    using g nonempty by (auto simp: grow_buffer_def Let_def kr)
  have dl: "?d \<in> live w" using nonempty by (simp add: live_def)
  then have dwd: "?d \<noteq> wd" using wd by (auto simp: scratch_def)
  have "?d = NULL \<or> kheap w ?d \<noteq> None" using d by simp
  from kok mem nz this kr show ?thesis
  proof (cases rule: krealloc_cases)
    case fail
    with p show ?thesis by simp
  next
    case (block blk)
    have old: "take (length pend) blk = pend"
      using block(6) d(2) by (simp add: n)
    have pd: "p = ?d \<or> kheap w p = None" using block(2) by (auto split: if_splits)
    then have pe: "p \<notin> set (entry_ptrs w)"
      using d(3) log_rep_allocated [of k w xs p] rep unfolding dev_rep_def by metis
    have "p \<noteq> wd"
      using fresh_not_scratch [OF wd \<open>mem_ok k h'\<close>, of p] pd dl block(4) by auto
    moreover have "\<forall>q \<in> set (entry_ptrs w) \<union> {wd}. h' q = kheap w q"
    proof
      fix q assume "q \<in> set (entry_ptrs w) \<union> {wd}"
      then have "q \<noteq> ?d" and "q \<noteq> p" using d(3) dwd pe \<open>p \<noteq> wd\<close> by auto
      then show "h' q = kheap w q" by (simp add: block(4))
    qed
    moreover have "length pend + unat chunk \<noteq> 0" using n nz by (metis unat_eq_zero)
    moreover have "h' p = Some blk" by (simp add: block(4))
    ultimately show ?thesis
      using block(3,5) pe p old by (auto simp: grown_def w1 n Let_def)
  qed
qed

lemma grow_buffer_grown:
  assumes "kernel_ok k" and "dev_rep k w xs pend" and "scratch k w wd"
    and "unat chunk < 2 ^ 63" and "grow_buffer k chunk w = (True, w1)"
  shows "grown k w wd pend chunk w1"
  using assms grow_empty grow_more by (cases "buffer_size (device w) = 0") blast+

text \<open>
  On a poisoned device \<open>krealloc\<close> of NULL is a plain allocation: what stands where the pending
  bytes should be is what the allocator left in the new block.
\<close>

lemma grow_poisoned:
  assumes kok: "kernel_ok k" and log: "log_rep k w xs" and poi: "poisoned w"
    and wd: "scratch k w wd" and sz: "unat (buffer_size (device w)) < 2 ^ 63"
    and small: "unat chunk < 2 ^ 63" and g: "grow_buffer k chunk w = (True, w1)"
  shows "\<exists>stale. length stale = unat (buffer_size (device w)) \<and> grown k w wd stale chunk w1"
proof -
  let ?n = "buffer_size (device w) + chunk"
  have d: "dev_buffer (device w) = NULL" and nonempty: "buffer_size (device w) \<noteq> 0"
    using poi by (simp_all add: poisoned_def)
  have mem: "mem_ok k (kheap w)" using log by (simp add: log_rep_def)
  have n: "unat ?n = unat (buffer_size (device w)) + unat chunk"
    using sz small by (intro unat_add_nowrap) simp
  have nz: "?n \<noteq> 0" using n nonempty by (metis add_is_0 unat_0 unat_eq_zero)
  obtain p h' where kr: "krealloc k (kheap w) NULL ?n = (p, h')"
    by (cases "krealloc k (kheap w) NULL ?n")
  have w1: "w1 = w\<lparr>device := (device w)\<lparr>dev_buffer := p\<rparr>, kheap := h'\<rparr>" and p: "p \<noteq> NULL"
    using g nonempty by (auto simp: grow_buffer_def Let_def kr d)
  have same: "(kheap w)(NULL := None) = kheap w" using mem by (simp add: mem_ok_def fun_upd_idem)
  have "(NULL = NULL \<or> kheap w NULL \<noteq> None)" by simp
  from kok mem nz this kr show ?thesis
  proof (cases rule: krealloc_cases)
    case fail
    with p show ?thesis by simp
  next
    case (block blk)
    have fresh: "kheap w p = None" using block(2) same by simp
    then have pe: "p \<notin> set (entry_ptrs w)" using log_rep_allocated [OF log, of p] by auto
    have pw: "p \<noteq> wd"
      using fresh_not_scratch [OF wd \<open>mem_ok k h'\<close>, of p] fresh block(4) by auto
    have "\<forall>q \<in> set (entry_ptrs w) \<union> {wd}. h' q = kheap w q"
    proof
      fix q assume "q \<in> set (entry_ptrs w) \<union> {wd}"
      then have "q \<noteq> p" using pe pw by auto
      then show "h' q = kheap w q" by (simp add: block(4) same)
    qed
    then have "grown k w wd (take (unat (buffer_size (device w))) blk) chunk w1"
      using block(3-5) p pe pw n nz same
      by (auto simp: grown_def w1 Let_def unat_eq_0 min_def)
    then show ?thesis using block(3) n by (intro exI [of _ "take (unat (buffer_size (device w))) blk"]) simp
  qed
qed

lemma grow_buffer_failed:
  assumes kok: "kernel_ok k" and rep: "dev_rep k w xs pend" and small: "unat chunk < 2 ^ 63"
    and g: "grow_buffer k chunk w = (False, w1)"
  shows "w1 = w\<lparr>device := (device w)\<lparr>dev_buffer := NULL\<rparr>\<rparr>"
proof -
  have mem: "mem_ok k (kheap w)" by (rule dev_rep_mem_ok [OF rep])
  show ?thesis
  proof (cases "buffer_size (device w) = 0")
    case True
    obtain p h' where km: "kmalloc k (kheap w) chunk = (p, h')"
      by (cases "kmalloc k (kheap w) chunk")
    with g True have "p = NULL" and "w1 = w\<lparr>device := (device w)\<lparr>dev_buffer := p\<rparr>, kheap := h'\<rparr>"
      by (auto simp: grow_buffer_def Let_def)
    with kok mem km show ?thesis by (auto elim!: kmalloc_cases)
  next
    case False
    let ?d = "dev_buffer (device w)" and ?n = "buffer_size (device w) + chunk"
    obtain p h' where kr: "krealloc k (kheap w) ?d ?n = (p, h')"
      by (cases "krealloc k (kheap w) ?d ?n")
    with g False have p: "p = NULL"
      and w1: "w1 = w\<lparr>device := (device w)\<lparr>dev_buffer := p\<rparr>, kheap := h'\<rparr>"
      by (auto simp: grow_buffer_def Let_def)
    have "?d = NULL \<or> kheap w ?d \<noteq> None"
      using rep False by (auto simp: dev_rep_def pend_rep_def)
    from kok mem grow_size(2) [OF rep False small] this kr show ?thesis
      by (cases rule: krealloc_cases) (use p w1 in simp_all)
  qed
qed

lemma grow_state:
  assumes kok: "kernel_ok k" and st: "dev_state k w xs pend" and wd: "scratch k w wd"
    and small: "unat chunk < 2 ^ 63" and g: "grow_buffer k chunk w = (True, w1)"
  shows "\<exists>pend'. (\<not> poisoned w \<longrightarrow> pend' = pend) \<and>
     length pend' = unat (buffer_size (device w)) \<and> grown k w wd pend' chunk w1"
proof (cases "poisoned w")
  case True
  have "log_rep k w xs" using st by (simp add: dev_state_def)
  from grow_poisoned [OF kok this True wd dev_state_size(1) [OF st] small g] True
  show ?thesis by blast
next
  case False
  then have "dev_rep k w xs pend" using st by (simp add: dev_state_iff_rep)
  from grow_buffer_grown [OF kok this wd small g] dev_state_size(2) [OF st False]
  show ?thesis by auto
qed

lemma grow_state_failed:
  assumes kok: "kernel_ok k" and st: "dev_state k w xs pend" and small: "unat chunk < 2 ^ 63"
    and g: "grow_buffer k chunk w = (False, w1)"
  shows "w1 = w\<lparr>device := (device w)\<lparr>dev_buffer := NULL\<rparr>\<rparr>"
proof (cases "poisoned w")
  case False
  then have "dev_rep k w xs pend" using st by (simp add: dev_state_iff_rep)
  from grow_buffer_failed [OF kok this small g] show ?thesis .
next
  case True
  let ?n = "buffer_size (device w) + chunk"
  have d: "dev_buffer (device w) = NULL" and nonempty: "buffer_size (device w) \<noteq> 0"
    using True by (simp_all add: poisoned_def)
  have "unat ?n = unat (buffer_size (device w)) + unat chunk"
    using dev_state_size(1) [OF st] small by (intro unat_add_nowrap) simp
  then have nz: "?n \<noteq> 0" using nonempty by (metis add_is_0 unat_0 unat_eq_zero)
  obtain p h' where kr: "krealloc k (kheap w) NULL ?n = (p, h')"
    by (cases "krealloc k (kheap w) NULL ?n")
  have w1: "w1 = w\<lparr>device := (device w)\<lparr>dev_buffer := p\<rparr>, kheap := h'\<rparr>" and p: "p = NULL"
    using g nonempty by (auto simp: grow_buffer_def Let_def kr d)
  have "(NULL = NULL \<or> kheap w NULL \<noteq> None)" by simp
  from kok dev_state_mem_ok [OF st] nz this kr show ?thesis
    by (cases rule: krealloc_cases) (use p w1 in simp_all)
qed

text \<open>
  Appending a chunk to the grown block: what the statement writes, and that the result is a write
  buffer with the chunk at its end. Nothing is written when there are no bytes at all.
\<close>

definition appended_to :: "world \<Rightarrow> byte list \<Rightarrow> size_t \<Rightarrow> world" where
  "appended_to w bs chunk =
     w\<lparr>kheap := (kheap w)(dev_buffer (device w) \<mapsto> bs),
       device := (device w)\<lparr>buffer_size := buffer_size (device w) + chunk\<rparr>\<rparr>"

lemma grown_frame:
  assumes "grown k w wd pend chunk w1"
  shows "ring_of w1 = ring_of w" "user w1 = user w" "lock (device w1) = lock (device w)"
    "buffer_size (device w1) = buffer_size (device w)" "mem_ok k (kheap w1)"
    "\<And>q. q \<in> set (entry_ptrs w) \<union> {wd} \<Longrightarrow> kheap w1 q = kheap w q"
proof -
  note G = assms [unfolded grown_def Let_def]
  have d: "device w1 = (device w)\<lparr>dev_buffer := dev_buffer (device w1)\<rparr>" using G by auto
  show "ring_of w1 = ring_of w" "lock (device w1) = lock (device w)"
    "buffer_size (device w1) = buffer_size (device w)"
    by (subst d, simp)+
qed (use assms in \<open>auto simp: grown_def Let_def\<close>)

lemma append_nothing:
  assumes log: "log_rep k w xs" and size: "buffer_size (device w) = 0"
    and wd: "scratch k w wd" and g: "grown k w wd [] 0 w1"
  shows "append_chunk wd 0 w1 = Ret w1" and "dev_rep k w1 xs []" and "scratch k w1 wd"
proof -
  note G = grown_frame [OF g]
  have n: "buffer_size (device w1) = 0" using size G(4) by simp
  then show "append_chunk wd 0 w1 = Ret w1" by (simp add: append_chunk_def Let_def mem_read_def mem_write_def)
  have "log_rep k w1 xs" using G(6) by (intro log_rep_frame [OF log G(1,5)]) blast
  then show "dev_rep k w1 xs []" using n by (simp add: dev_rep_def pend_rep_def)
  show "scratch k w1 wd" using wd G(1,6) n by (auto simp: scratch_def live_def size)
qed

lemma append_some:
  assumes log: "log_rep k w xs" and size: "unat (buffer_size (device w) + chunk) = length (pend @ bs)"
    and len: "length bs = unat chunk" and some: "pend @ bs \<noteq> []"
    and wd: "scratch k w wd" and g: "grown k w wd pend chunk w1" and w2: "w2 = appended_to w1 (pend @ bs) chunk"
  shows "mem_write (kheap w1) (dev_buffer (device w1)) (length pend) bs = Some (kheap w2)"
    and "dev_rep k w2 xs (pend @ bs)" and "scratch k w2 wd"
    and "\<forall>q \<in> set (entry_ptrs w). kheap w2 q = kheap w q"
proof -
  let ?p = "dev_buffer (device w1)"
  note G = grown_frame [OF g]
  have "length pend + unat chunk = length (pend @ bs)" by (simp add: len)
  then have "length pend + unat chunk \<noteq> 0" using some by (metis length_0_conv)
  then obtain blk where blk: "kheap w1 ?p = Some blk" "length blk = length pend + unat chunk"
      "take (length pend) blk = pend"
    and p: "?p \<notin> set (entry_ptrs w)" "?p \<noteq> wd" "?p \<noteq> NULL"
    using g unfolding grown_def Let_def by auto
  show "mem_write (kheap w1) ?p (length pend) bs = Some (kheap w2)"
    using mem_write_at_end [of "kheap w1" ?p blk "length pend" bs] blk len
    by (simp add: w2 appended_to_def)
  have same: "kheap w2 q = kheap w q" if "q \<in> set (entry_ptrs w) \<union> {wd}" for q
    using that p G(6) [OF that] by (auto simp: w2 appended_to_def)
  then show kept: "\<forall>q \<in> set (entry_ptrs w). kheap w2 q = kheap w q" by blast
  have r2: "ring_of w2 = ring_of w" using G(1) by (simp add: w2 appended_to_def)
  have "mem_ok k (kheap w2)"
    using G(5) blk len by (auto simp: w2 appended_to_def intro: mem_ok_upd_same_length)
  then have "log_rep k w2 xs" using kept by (rule log_rep_frame [OF log r2])
  moreover have "buffer_size (device w) + chunk \<noteq> 0" using some size by (metis length_0_conv unat_0)
  then have "pend_rep w2 (pend @ bs)"
    using p size G(1,4) by (simp add: pend_rep_def w2 appended_to_def)
  ultimately show "dev_rep k w2 xs (pend @ bs)" by (simp add: dev_rep_def)
  show "scratch k w2 wd"
    using wd same [of wd] p r2 by (auto simp: scratch_def live_def w2 appended_to_def)
qed

lemma append_chunk_grown:
  assumes log: "log_rep k w xs" and size: "unat (buffer_size (device w)) = length pend"
    and psmall: "length pend < 2 ^ 63" and wd: "scratch k w wd"
    and small: "unat chunk < 2 ^ 63" and g: "grown k w wd pend chunk w1"
    and src: "mem_read (kheap w) wd 0 (unat chunk) = Some bs" and len: "length bs = unat chunk"
  shows "\<exists>w2. append_chunk wd chunk w1 = Ret w2 \<and> dev_rep k w2 xs (pend @ bs) \<and>
     user w2 = user w \<and> lock (device w2) = lock (device w) \<and> ring_of w2 = ring_of w \<and>
     buffer_size (device w2) = buffer_size (device w) + chunk \<and> scratch k w2 wd \<and>
     (\<forall>q \<in> set (entry_ptrs w). kheap w2 q = kheap w q)"
proof (cases "pend @ bs = []")
  case True
  then have z: "pend = []" "bs = []" "chunk = 0" "buffer_size (device w) = 0"
    using len size by (simp_all add: unat_eq_0)
  note G = grown_frame [OF g]
  from append_nothing [OF log z(4) wd] g G z show ?thesis by auto
next
  case False
  note G = grown_frame [OF g]
  let ?w2 = "appended_to w1 (pend @ bs) chunk"
  have size2: "unat (buffer_size (device w) + chunk) = length (pend @ bs)"
    using psmall small size len by (subst unat_add_nowrap) simp_all
  have "kheap w1 wd = kheap w wd" using G(6) by simp
  then have "mem_read (kheap w1) wd 0 (unat chunk) = Some bs" using src by (simp only: mem_read_def)
  then have "append_chunk wd chunk w1 = Ret ?w2"
    using append_some(1) [OF log size2 len False wd g refl] size G(4)
    by (simp add: append_chunk_def Let_def appended_to_def)
  then show ?thesis
    using append_some(2-4) [OF log size2 len False wd g refl] G by (auto simp: appended_to_def)
qed

subsection \<open>Handing the packet to the ring\<close>

lemma length_push: "length (push xs x) = (if length xs = 10 then 10 else Suc (length xs))"
  by (simp add: push_def max_ops)

lemma map_push: "map f (push xs x) = push (map f xs) (f x)"
  by (simp add: push_def map_tl)

lemma distinct_push: "distinct xs \<Longrightarrow> x \<notin> set xs \<Longrightarrow> distinct (push xs x)"
  by (auto simp: push_def distinct_tl dest: in_set_tlD)

lemma set_push: "set (push xs x) \<subseteq> insert x (set xs)"
  by (auto simp: push_def dest: in_set_tlD)

lemma commit_packet_ring:
  "cb_inv (ring_of w) \<Longrightarrow>
     contents (ring_of (commit_packet oob w)) =
       push (contents (ring_of w))
         \<lparr>buffptr = dev_buffer (device w), entry_size = buffer_size (device w)\<rparr> \<and>
     cb_inv (ring_of (commit_packet oob w))"
  by (simp add: commit_packet_def Let_def aesd_circular_buffer_add_entry_def cb_inv_add contents_add)

lemma commit_packet_simps [simp]:
  "kheap (commit_packet oob w) = kheap w"
  "user (commit_packet oob w) = user w"
  "lock (device (commit_packet oob w)) = lock (device w)"
  "buffer_size (device (commit_packet oob w)) = 0"
  "dev_buffer (device (commit_packet oob w)) = dev_buffer (device w)"
  by (simp_all add: commit_packet_def Let_def)

lemma commit_packet_rep:
  assumes rep: "dev_rep k w xs pend" and nonempty: "buffer_size (device w) \<noteq> 0"
  shows "dev_rep k (commit_packet oob w) (push xs pend) [] \<and> live (commit_packet oob w) \<subseteq> live w"
proof -
  let ?w = "commit_packet oob w"
  let ?e = "\<lparr>buffptr = dev_buffer (device w), entry_size = buffer_size (device w)\<rparr>"
  have cb: "cb_inv (ring_of w)" using rep by (simp add: dev_rep_def log_rep_def)
  have c: "contents (ring_of ?w) = push (contents (ring_of w)) ?e" and cb': "cb_inv (ring_of ?w)"
    using commit_packet_ring [OF cb] by auto
  have ptrs: "entry_ptrs ?w = push (entry_ptrs w) (dev_buffer (device w))"
    by (simp add: c map_push)
  have L: "map (kheap w) (entry_ptrs w) = map Some xs"
    "map entry_len (contents (ring_of w)) = map length xs"
    "distinct (entry_ptrs w)" "mem_ok k (kheap w)"
    using rep by (auto simp: dev_rep_def log_rep_def)
  have P: "kheap w (dev_buffer (device w)) = Some pend"
    "unat (buffer_size (device w)) = length pend"
    "dev_buffer (device w) \<notin> set (entry_ptrs w)"
    using rep nonempty by (auto simp: dev_rep_def pend_rep_def)
  have "map (kheap ?w) (entry_ptrs ?w) = map Some (push xs pend)"
    by (simp only: ptrs map_push commit_packet_simps L(1) P(1))
  moreover have "map entry_len (contents (ring_of ?w)) = map length (push xs pend)"
    by (simp only: c map_push L(2)) (simp add: P(2))
  moreover have "distinct (entry_ptrs ?w)"
    unfolding ptrs by (rule distinct_push [OF L(3) P(3)])
  ultimately have "log_rep k ?w (push xs pend)"
    using cb' L(4) by (simp add: log_rep_def)
  moreover have "live ?w \<subseteq> live w"
    using set_push [of "entry_ptrs w" "dev_buffer (device w)"] nonempty
    unfolding live_def ptrs by auto
  ultimately show ?thesis by (simp add: dev_rep_def pend_rep_def)
qed

subsection \<open>Releasing the scratch block\<close>

lemma kfree_in_simps [simp]:
  "device (kfree_in k p w) = device w" "user (kfree_in k p w) = user w"
  by (simp_all add: kfree_in_def)

lemma kheap_kfree_in: "kernel_ok k \<Longrightarrow> kheap (kfree_in k p w) = (kheap w)(p := None)"
  by (simp add: kfree_in_def kernel_ok_def kfree_ok_def)

lemma kfree_scratch:
  assumes "kernel_ok k" and st: "dev_state k w xs pend" and wd: "wd \<notin> live w"
  shows "dev_state k (kfree_in k wd w) xs pend"
proof -
  have "kheap (kfree_in k wd w) = (kheap w)(wd := None)"
    by (rule kheap_kfree_in [OF assms(1)])
  then show ?thesis
    using wd dev_state_mem_ok [OF st]
    by (intro dev_state_frame [OF st]) (auto intro: mem_ok_free)
qed

subsection \<open>The caller's copy of the data\<close>

lemma scratch_copy:
  assumes kok: "kernel_ok k" and st: "dev_state k w xs pend"
    and km: "kmalloc k (kheap w) count = (wd, h1)" and nz: "wd \<noteq> NULL"
    and len: "length bs = unat count"
  shows "\<exists>h2. mem_write h1 wd 0 bs = Some h2 \<and> h2(wd := None) = kheap w \<and>
     dev_state k (w\<lparr>kheap := h2\<rparr>) xs pend \<and> scratch k (w\<lparr>kheap := h2\<rparr>) wd \<and>
     (\<forall>n \<le> length bs. mem_read h2 wd 0 n = Some (take n bs)) \<and> length bs < 2 ^ 63"
proof -
  have mem: "mem_ok k (kheap w)" by (rule dev_state_mem_ok [OF st])
  have live_w: "live (w\<lparr>kheap := h2\<rparr>) = live w" for h2 by (simp add: live_def)
  have keep: "dev_state k (w\<lparr>kheap := h2\<rparr>) xs pend"
    if "mem_ok k h2" and "\<forall>p \<in> live w. h2 p = kheap w p" for h2
    using that by (intro dev_state_frame [OF st]) simp_all
  from kok mem km show ?thesis
  proof (cases rule: kmalloc_cases)
    case fail
    with nz show ?thesis by simp
  next
    case zero
    have none: "kheap w wd = None" using mem zero by (simp add: mem_ok_def)
    then have "scratch k w wd"
      using dev_state_live [OF st, of wd] zero by (auto simp: scratch_def)
    then show ?thesis
      using zero len none st by (auto simp: mem_write_def mem_read_def scratch_def live_w)
  next
    case (block blk)
    let ?h = "(kheap w)(wd \<mapsto> bs)"
    have wr: "mem_write h1 wd 0 bs = Some ?h"
      using mem_write_at_end [of h1 wd blk 0 bs] block len by simp
    have ok: "mem_ok k ?h"
      using mem_ok_upd_same_length [OF block(6), of wd blk bs] block(4,5) len by simp
    have fresh: "wd \<notin> live w" using dev_state_live [OF st, of wd] block(1,3) by auto
    then have "dev_state k (w\<lparr>kheap := ?h\<rparr>) xs pend" by (intro keep ok) auto
    moreover have "scratch k (w\<lparr>kheap := ?h\<rparr>) wd" using fresh by (simp add: scratch_def live_w)
    moreover have "?h(wd := None) = kheap w" using block(3) by (simp add: fun_upd_idem)
    moreover have "\<forall>n \<le> length bs. mem_read ?h wd 0 n = Some (take n bs)"
      by (simp add: mem_read_def)
    moreover have "length bs < 2 ^ 63" using block_fits [OF ok, of wd bs] by simp
    ultimately show ?thesis using wr by blast
  qed
qed

subsection \<open>The whole call\<close>

text \<open>
  What a write that is given the bytes \<open>bs\<close> may do to a device with packets \<open>xs\<close> and pending
  bytes \<open>pend\<close>: report an error and change nothing a reader can see (but lose the pending bytes,
  when there is no memory to grow the write buffer), or take the first packet of \<open>bs\<close>.
\<close>

definition write_effect ::
  "kernel \<Rightarrow> world \<Rightarrow> byte list list \<Rightarrow> byte list \<Rightarrow> byte list \<Rightarrow> loff_t
     \<Rightarrow> ssize_t \<Rightarrow> loff_t \<Rightarrow> world \<Rightarrow> bool"
where
  "write_effect k w xs pend bs pos r pos' w' \<longleftrightarrow>
     (r \<in> {- ENOMEM, - EFAULT} \<and> pos' = pos \<and> dev_state k w' xs pend \<and>
      (poisoned w' \<longrightarrow> poisoned w \<or> r = - ENOMEM)) \<or>
     (r = of_nat (length (first_packet bs)) \<and> length (first_packet bs) < 2 ^ 63 \<and> pos' = pos + r \<and>
      (if newline \<in> set bs then dev_rep k w' (push xs (pend @ first_packet bs)) []
       else dev_rep k w' xs (pend @ first_packet bs)))"

text \<open>
  What every write leaves in place: the blocks of the entries that were in the ring, and the size of
  the write buffer when it fails.
\<close>

definition write_frame :: "byte list \<Rightarrow> ssize_t \<Rightarrow> world \<Rightarrow> world \<Rightarrow> bool" where
  "write_frame bs r w w' \<longleftrightarrow>
     (\<forall>q \<in> set (entry_ptrs w). kheap w' q = kheap w q) \<and>
     (if 0 \<le> sint r \<and> newline \<in> set bs
      then buffer_size (device w') = 0 \<and>
           (\<exists>p. p \<notin> set (entry_ptrs w) \<and> entry_ptrs w' = push (entry_ptrs w) p)
      else entry_ptrs w' = entry_ptrs w) \<and>
     (sint r < 0 \<longrightarrow> buffer_size (device w') = buffer_size (device w))"

lemma mutex_unlock_simps [simp]:
  "lock (device (mutex_unlock w)) = False" "user (mutex_unlock w) = user w"
  "kheap (mutex_unlock w) = kheap w" "ring_of (mutex_unlock w) = ring_of w"
  "buffer_size (device (mutex_unlock w)) = buffer_size (device w)"
  "dev_buffer (device (mutex_unlock w)) = dev_buffer (device w)"
  "poisoned (mutex_unlock w) = poisoned w"
  by (simp_all add: mutex_unlock_def set_lock_def poisoned_def)

lemma set_lock_simps [simp]:
  "lock (device (set_lock l w)) = l" "user (set_lock l w) = user w"
  "kheap (set_lock l w) = kheap w" "ring_of (set_lock l w) = ring_of w"
  "buffer_size (device (set_lock l w)) = buffer_size (device w)"
  "dev_buffer (device (set_lock l w)) = dev_buffer (device w)"
  "live (set_lock l w) = live w" "scratch k (set_lock l w) p = scratch k w p"
  "poisoned (set_lock l w) = poisoned w"
  by (simp_all add: set_lock_def live_def scratch_def poisoned_def)

lemma kfree_in_poisoned [simp]: "poisoned (kfree_in k p w) = poisoned w"
  by (simp add: poisoned_def)

lemma failed_growth_state:
  assumes st: "dev_state k w xs pend"
  defines "w1 \<equiv> w\<lparr>device := (device w)\<lparr>dev_buffer := NULL\<rparr>\<rparr>"
  shows "dev_state k w1 xs pend" and "live w1 \<subseteq> insert NULL (live w)"
proof -
  have log: "log_rep k w xs" using st by (simp add: dev_state_def)
  then have "log_rep k w1 xs"
    by (rule log_rep_frame) (use log in \<open>simp_all add: w1_def log_rep_def\<close>)
  moreover have "pend_rep w1 pend" if "buffer_size (device w) = 0"
    using st that by (auto simp: dev_state_def w1_def pend_rep_def poisoned_def)
  ultimately show "dev_state k w1 xs pend"
    using dev_state_size(1) [OF st] by (auto simp: dev_state_def w1_def poisoned_def)
  show "live w1 \<subseteq> insert NULL (live w)" by (auto simp: w1_def live_def)
qed

text \<open>The body of a write by the length of its chunk, and its two ends.\<close>

lemma write_locked_body:
  assumes len: "length bs = unat count" and gb: "grow_buffer k (of_nat (length (first_packet bs))) w = (g, w1)"
  shows "write_locked k oob wd bs count pos w =
    (let chunk = of_nat (length (first_packet bs)) in
     if \<not> g then Ret (- ENOMEM, pos, mutex_unlock (kfree_in k wd w1))
     else obind (append_chunk wd chunk w1) (\<lambda>w.
       Ret (chunk, pos + chunk,
            mutex_unlock (kfree_in k wd (if newline \<in> set bs then commit_packet oob w else w)))))"
proof -
  obtain ni fp where fn: "find_newline bs count 0 = (ni, fp)" by (cases "find_newline bs count 0")
  have "fp \<longleftrightarrow> newline \<in> set bs" and "(if fp then ni + 1 else count) = of_nat (length (first_packet bs))"
    using find_newline_first_packet [OF len, unfolded fn fst_conv snd_conv] by simp_all
  then show ?thesis by (simp only: write_locked_def fn Let_def case_prod_conv gb)
qed

lemma failed_write_effect:
  assumes kok: "kernel_ok k" and st: "dev_state k w xs pend" and wd: "scratch k w wd" and wdn: "wd \<noteq> NULL"
    and small: "length (first_packet bs) < 2 ^ 63"
    and gb: "grow_buffer k (of_nat (length (first_packet bs))) w = (False, w1)"
  shows "\<exists>pend'. let w' = mutex_unlock (kfree_in k wd w1) in
     \<not> lock (device w') \<and> user w' = user w \<and> (\<not> poisoned w \<longrightarrow> pend' = pend) \<and>
     length pend' = unat (buffer_size (device w)) \<and>
     write_effect k w xs pend' bs pos (- ENOMEM) pos w' \<and> write_frame bs (- ENOMEM) w w'"
proof -
  have notin: "wd \<notin> live w" using wd by (simp add: scratch_def)
  then have wd_e: "wd \<notin> set (entry_ptrs w)" by (simp add: live_def)
  have csmall: "unat (of_nat (length (first_packet bs)) :: size_t) < 2 ^ 63" using small by (simp add: unat_of_nat)
  have w1: "w1 = w\<lparr>device := (device w)\<lparr>dev_buffer := NULL\<rparr>\<rparr>"
    using grow_state_failed [OF kok st csmall] gb by simp
  let ?w = "mutex_unlock (kfree_in k wd w1)"
  have "wd \<notin> live w1" using failed_growth_state(2) [OF st] notin wdn unfolding w1 by auto
  then have dr: "dev_state k ?w xs pend"
    using kfree_scratch [OF kok failed_growth_state(1) [OF st, folded w1]] by simp
  define pend' where "pend' = (if poisoned w then replicate (unat (buffer_size (device w))) 0 else pend)"
  have "dev_state k ?w xs pend'"
    using dr by (auto simp: pend'_def dev_state_def w1 poisoned_def split: if_splits)
  then have "write_effect k w xs pend' bs pos (- ENOMEM) pos ?w" unfolding write_effect_def by simp
  moreover have "length pend' = unat (buffer_size (device w))"
    using dev_state_size(2) [OF st] by (simp add: pend'_def)
  moreover have "write_frame bs (- ENOMEM) w ?w"
    using wd_e by (auto simp: write_frame_def kheap_kfree_in [OF kok] w1)
  ultimately show ?thesis by (intro exI [of _ pend']) (simp add: Let_def w1 pend'_def)
qed

text \<open>After the chunk has been appended: the packet is committed when there is one.\<close>

lemma commit_if_line:
  assumes rep: "dev_rep k w2 xs (pend @ first_packet bs)" and ring: "ring_of w2 = ring_of w"
    and w3: "w3 = (if newline \<in> set bs then commit_packet oob w2 else w2)"
  shows "(if newline \<in> set bs then dev_rep k w3 (push xs (pend @ first_packet bs)) []
       else dev_rep k w3 xs (pend @ first_packet bs)) \<and>
     live w3 \<subseteq> live w2 \<and> user w3 = user w2 \<and> kheap w3 = kheap w2 \<and>
     (if newline \<in> set bs then buffer_size (device w3) = 0 \<and>
        (\<exists>p. p \<notin> set (entry_ptrs w) \<and> entry_ptrs w3 = push (entry_ptrs w) p)
      else entry_ptrs w3 = entry_ptrs w)"
proof (cases "newline \<in> set bs")
  case False
  then show ?thesis using rep ring by (simp add: w3)
next
  case True
  have nz: "buffer_size (device w2) \<noteq> 0"
    using rep True by (auto simp: dev_rep_def pend_rep_def first_packet_def split: if_splits)
  have "dev_buffer (device w2) \<notin> set (entry_ptrs w)"
    using rep ring nz by (simp add: dev_rep_def pend_rep_def)
  moreover have "entry_ptrs w3 = push (entry_ptrs w) (dev_buffer (device w2))"
    using commit_packet_ring [of w2 oob] rep ring True by (simp add: dev_rep_def log_rep_def map_push w3)
  ultimately show ?thesis using commit_packet_rep [OF rep nz, of oob] True by (auto simp: w3)
qed

lemma finished_write_effect:
  assumes kok: "kernel_ok k" and small: "length (first_packet bs) < 2 ^ 63"
    and wd: "scratch k w2 wd" "wd \<notin> set (entry_ptrs w)"
    and rep: "dev_rep k w2 xs (pend @ first_packet bs)" and ring: "ring_of w2 = ring_of w"
    and kept: "\<forall>q \<in> set (entry_ptrs w). kheap w2 q = kheap w q" and usr: "user w2 = user w"
    and chunk: "chunk = of_nat (length (first_packet bs))"
  shows "let w' = mutex_unlock (kfree_in k wd (if newline \<in> set bs then commit_packet oob w2 else w2)) in
     \<not> lock (device w') \<and> user w' = user w \<and>
     write_effect k w xs pend bs pos chunk (pos + chunk) w' \<and> write_frame bs chunk w w'"
proof -
  define w3 where "w3 = (if newline \<in> set bs then commit_packet oob w2 else w2)"
  let ?w = "mutex_unlock (kfree_in k wd w3)"
  let ?xs = "if newline \<in> set bs then push xs (pend @ first_packet bs) else xs"
  let ?pend = "if newline \<in> set bs then [] else pend @ first_packet bs"
  note w3 = commit_if_line [OF rep ring w3_def]
  have r3: "dev_rep k w3 ?xs ?pend" using w3 by (cases "newline \<in> set bs") simp_all
  have "wd \<notin> live w3" using wd w3 by (auto simp: scratch_def)
  moreover have "dev_state k w3 ?xs ?pend" using r3 dev_rep_state by blast
  ultimately have "dev_state k ?w ?xs ?pend" using kfree_scratch [OF kok] by simp
  moreover have "\<not> poisoned ?w" using r3 dev_rep_not_poisoned [of k w3] by simp
  ultimately have "dev_rep k ?w ?xs ?pend" using dev_state_iff_rep by blast
  then have eff: "write_effect k w xs pend bs pos chunk (pos + chunk) ?w"
    using small unfolding write_effect_def chunk by (cases "newline \<in> set bs") simp_all
  have pos: "0 \<le> sint chunk" using sint_of_nat64 [OF small] by (simp add: chunk)
  have "\<forall>q \<in> set (entry_ptrs w). kheap ?w q = kheap w q"
    using kept w3 wd(2) by (auto simp: kheap_kfree_in [OF kok])
  moreover have "if newline \<in> set bs then buffer_size (device ?w) = 0 \<and>
       (\<exists>p. p \<notin> set (entry_ptrs w) \<and> entry_ptrs ?w = push (entry_ptrs w) p)
     else entry_ptrs ?w = entry_ptrs w"
    using w3 by (cases "newline \<in> set bs") simp_all
  moreover have "\<not> sint chunk < 0" using pos by simp
  ultimately have "write_frame bs chunk w ?w" using pos unfolding write_frame_def by (simp only: simp_thms)
  then show ?thesis using eff w3 usr by (simp add: Let_def flip: w3_def)
qed

lemma write_locked_effect:
  assumes kok: "kernel_ok k" and st: "dev_state k w xs pend" and wd: "scratch k w wd"
    and wdn: "wd \<noteq> NULL"
    and len: "length bs = unat count" and small: "length bs < 2 ^ 63"
    and src: "\<forall>n \<le> length bs. mem_read (kheap w) wd 0 n = Some (take n bs)"
  shows "\<exists>r pos' w' pend'. write_locked k oob wd bs count pos w = Ret (r, pos', w') \<and>
     \<not> lock (device w') \<and> user w' = user w \<and>
     (\<not> poisoned w \<longrightarrow> pend' = pend) \<and> length pend' = unat (buffer_size (device w)) \<and>
     write_effect k w xs pend' bs pos r pos' w' \<and> write_frame bs r w w'"
proof -
  have log: "log_rep k w xs" using st by (simp add: dev_state_def)
  have wd_e: "wd \<notin> set (entry_ptrs w)" using wd by (simp add: scratch_def live_def)
  let ?chunk = "of_nat (length (first_packet bs)) :: size_t"
  have fpl: "length (first_packet bs) < 2 ^ 63" using first_packet_length [of bs] small by linarith
  have uc: "unat ?chunk = length (first_packet bs)" using fpl by (simp add: unat_of_nat)
  then have csmall: "unat ?chunk < 2 ^ 63" using fpl by simp
  obtain g w1 where gb: "grow_buffer k ?chunk w = (g, w1)" by (cases "grow_buffer k ?chunk w")
  note body = write_locked_body [OF len gb, unfolded Let_def]
  show ?thesis
  proof (cases g)
    case False
    then show ?thesis using failed_write_effect [OF kok st wd wdn fpl, of w1] gb
      by (auto simp: body Let_def)
  next
    case True
    then have gb1: "grow_buffer k ?chunk w = (True, w1)" using gb by simp
    from grow_state [OF kok st wd csmall gb1] obtain pend'
      where pe: "\<not> poisoned w \<longrightarrow> pend' = pend"
      and pl: "length pend' = unat (buffer_size (device w))" and gr: "grown k w wd pend' ?chunk w1"
      by blast
    have psmall: "length pend' < 2 ^ 63" using dev_state_size(1) [OF st] pl by simp
    have sr: "mem_read (kheap w) wd 0 (unat ?chunk) = Some (first_packet bs)"
      using src first_packet_length [of bs] by (simp add: uc first_packet_prefix)
    obtain w2 where w2: "append_chunk wd ?chunk w1 = Ret w2" "dev_rep k w2 xs (pend' @ first_packet bs)"
        "user w2 = user w" "scratch k w2 wd"
        "buffer_size (device w2) = buffer_size (device w) + ?chunk" "ring_of w2 = ring_of w"
        "\<forall>q \<in> set (entry_ptrs w). kheap w2 q = kheap w q"
      using append_chunk_grown [OF log pl [symmetric] psmall wd csmall gr sr uc [symmetric]] by blast
    from finished_write_effect [OF kok fpl w2(4) wd_e w2(2,6,7,3) refl, of oob pos]
    show ?thesis using True w2(1) pe pl by (auto simp: body Let_def)
  qed
qed

lemma mutex_lock_free:
  "private_data filp = Aesd_device \<Longrightarrow> \<not> lock (device w) \<Longrightarrow>
     mutex_lock filp w = Ret (set_lock True w)"
  by (simp add: mutex_lock_def)

lemma mutex_lock_held:
  "private_data filp = Aesd_device \<Longrightarrow> lock (device w) \<Longrightarrow> mutex_lock filp w = Blocked"
  by (simp add: mutex_lock_def)

lemma some_pending:
  assumes st: "dev_state k w xs pend"
  obtains pend' where "\<not> poisoned w \<longrightarrow> pend' = pend" "length pend' = unat (buffer_size (device w))"
    "dev_state k w xs pend'"
proof (cases "poisoned w")
  case True
  then show ?thesis
    using st that [of "replicate (unat (buffer_size (device w))) 0"] by (simp add: dev_state_def)
next
  case False
  then show ?thesis using st that [of pend] dev_state_size(2) [OF st] by simp
qed

lemma rejected_write_effect:
  assumes st: "dev_state k w xs pend" and free: "\<not> lock (device w)" and r: "r = - ENOMEM \<or> r = - EFAULT"
    and res: "out = Ret (r, pos, w)"
  shows "\<exists>r pos' w' pend'. out = Ret (r, pos', w') \<and> \<not> lock (device w') \<and> user w' = user w \<and>
     (\<not> poisoned w \<longrightarrow> pend' = pend) \<and> length pend' = unat (buffer_size (device w)) \<and>
     write_effect k w xs pend' bs pos r pos' w' \<and> write_frame bs r w w'"
proof -
  have "write_frame bs r w w" using r by (auto simp: write_frame_def)
  moreover obtain pend' where "\<not> poisoned w \<longrightarrow> pend' = pend" "length pend' = unat (buffer_size (device w))"
    "dev_state k w xs pend'"
    using some_pending [OF st] .
  moreover from this(3) have "write_effect k w xs pend' bs pos r pos w"
    using r unfolding write_effect_def by blast
  ultimately show ?thesis using free res by (intro exI [of _ r] exI [of _ pos] exI [of _ w] exI [of _ pend']) simp
qed

text \<open>The part under the lock, which starts with the copy of the user's bytes in a block of its own.\<close>

lemma copied_write_effect:
  assumes kok: "kernel_ok k" and len: "length bs = unat count" "length bs < 2 ^ 63"
    and wd: "wd \<noteq> NULL" "scratch k (w\<lparr>kheap := h\<rparr>) wd" "h(wd := None) = kheap w"
    and st: "dev_state k (w\<lparr>kheap := h\<rparr>) xs pend"
    and src: "\<forall>n \<le> length bs. mem_read h wd 0 n = Some (take n bs)"
  shows "\<exists>r pos' w' pend'. write_locked k oob wd bs count pos (set_lock True (w\<lparr>kheap := h\<rparr>)) = Ret (r, pos', w') \<and>
     \<not> lock (device w') \<and> user w' = user w \<and>
     (\<not> poisoned w \<longrightarrow> pend' = pend) \<and> length pend' = unat (buffer_size (device w)) \<and>
     write_effect k w xs pend' bs pos r pos' w' \<and> write_frame bs r w w'"
proof -
  let ?w = "set_lock True (w\<lparr>kheap := h\<rparr>)"
  obtain r pos' w' pend' where run: "write_locked k oob wd bs count pos ?w = Ret (r, pos', w')"
      "\<not> lock (device w')" "user w' = user ?w" "\<not> poisoned ?w \<longrightarrow> pend' = pend"
      "length pend' = unat (buffer_size (device ?w))" "write_effect k ?w xs pend' bs pos r pos' w'"
    and frame: "write_frame bs r ?w w'"
    using write_locked_effect [OF kok, of ?w xs pend wd bs count oob pos] st wd len src by auto
  have "wd \<notin> set (entry_ptrs w)" using wd(2) by (auto simp: scratch_def live_def)
  then have "\<forall>q \<in> set (entry_ptrs w). h q = kheap w q" using wd(3) by (metis fun_upd_other)
  then have "write_frame bs r w w'" using frame by (auto simp: write_frame_def set_lock_def)
  moreover have "write_effect k w xs pend' bs pos r pos' w'"
    using run(6) by (simp add: write_effect_def poisoned_def set_lock_def)
  moreover have "poisoned ?w = poisoned w" "user ?w = user w" "buffer_size (device ?w) = buffer_size (device w)"
    by (simp_all add: poisoned_def set_lock_def)
  ultimately show ?thesis using run(1-5) by metis
qed

lemma aesd_write_effect:
  assumes kok: "kernel_ok k" and st: "dev_state k w xs pend"
    and fil: "private_data filp = Aesd_device" and free: "\<not> lock (device w)"
  shows "\<exists>r pos' w' pend'. aesd_write k oob filp buf count pos w = Ret (r, pos', w') \<and>
     \<not> lock (device w') \<and> user w' = user w \<and>
     (\<not> poisoned w \<longrightarrow> pend' = pend) \<and> length pend' = unat (buffer_size (device w)) \<and>
     write_effect k w xs pend' (get_user (user w) buf (unat count)) pos r pos' w' \<and>
     write_frame (get_user (user w) buf (unat count)) r w w'"
proof -
  obtain wd h1 where km: "kmalloc k (kheap w) count = (wd, h1)" by (cases "kmalloc k (kheap w) count")
  obtain unc bs where cu: "copy_from_user k (user w) buf count = (unc, bs)"
    by (cases "copy_from_user k (user w) buf count")
  have len: "length bs = unat count"
    and data: "unc = 0 \<Longrightarrow> bs = get_user (user w) buf (unat count)"
    using kok cu by (auto simp: kernel_ok_def user_copy_ok_def)
  show ?thesis
  proof (cases "wd = NULL")
    case True
    then have "h1 = kheap w"
      using kok dev_state_mem_ok [OF st] km by (auto simp: kernel_ok_def kmalloc_ok_def)
    then have "aesd_write k oob filp buf count pos w = Ret (- ENOMEM, pos, w)"
      using True by (simp add: aesd_write_def km)
    then show ?thesis by (rule rejected_write_effect [OF st free, rotated]) simp
  next
    case False
    obtain h2 where h2: "mem_write h1 wd 0 bs = Some h2" "h2(wd := None) = kheap w"
        "dev_state k (w\<lparr>kheap := h2\<rparr>) xs pend" "scratch k (w\<lparr>kheap := h2\<rparr>) wd"
        "\<forall>n \<le> length bs. mem_read h2 wd 0 n = Some (take n bs)" "length bs < 2 ^ 63"
      using scratch_copy [OF kok st km False len] by blast
    show ?thesis
    proof (cases "unc = 0")
      case True
      then have run: "aesd_write k oob filp buf count pos w =
          write_locked k oob wd bs count pos (set_lock True (w\<lparr>kheap := h2\<rparr>))"
        using False fil free by (simp add: aesd_write_def km cu h2(1) mutex_lock_free)
      show ?thesis unfolding run data [OF True, symmetric]
        by (rule copied_write_effect [OF kok len h2(6) False h2(4,2,3,5)])
    next
      case copied: False
      have "kfree_in k wd (w\<lparr>kheap := h2\<rparr>) = w"
        using kok h2(2) by (simp add: kfree_in_def kernel_ok_def kfree_ok_def)
      then have "aesd_write k oob filp buf count pos w = Ret (- EFAULT, pos, w)"
        using copied False by (simp add: aesd_write_def km cu h2(1))
      then show ?thesis by (rule rejected_write_effect [OF st free, rotated]) simp
    qed
  qed
qed

end
