(* ===== verification/Device_Read.thy ===== *)
theory Device_Read
  imports Device_Write
begin

text \<open>
  \<open>aesd_read\<close> and the sequence of reads a user makes: one read returns the rest of the entry that
  holds the file position, cut to the count asked for; reading on until a read returns nothing
  delivers the whole log from the position on.
\<close>

subsection \<open>The abstract read\<close>

definition next_read :: "byte list list \<Rightarrow> nat \<Rightarrow> nat \<Rightarrow> byte list" where
  "next_read xs n count =
     (case locate (map length xs) n of None \<Rightarrow> [] | Some (i, j) \<Rightarrow> take count (drop j (xs ! i)))"

lemma next_read_prefix:
  "next_read xs n count = take (length (next_read xs n count)) (drop n (concat xs))"
proof (cases "locate (map length xs) n")
  case None
  then show ?thesis by (simp add: next_read_def)
next
  case (Some p)
  then obtain i j where l: "locate (map length xs) n = Some (i, j)" by (cases p) auto
  have "next_read xs n count = take count (drop j (xs ! i))" by (simp add: next_read_def l)
  then show ?thesis by (simp only: locate_concat(3) [OF l] take_length_take)
qed

lemma next_read_Nil_iff:
  "next_read xs n count = [] \<longleftrightarrow> length (concat xs) \<le> n \<or> count = 0"
proof (cases "locate (map length xs) n")
  case None
  moreover from None have "length (concat xs) \<le> n" by (simp add: locate_None_iff length_concat)
  ultimately show ?thesis by (simp add: next_read_def)
next
  case (Some p)
  then obtain i j where l: "locate (map length xs) n = Some (i, j)" by (cases p) auto
  then have "j < length (xs ! i)" by (auto simp: locate_Some_iff)
  then show ?thesis using locate_concat(1) [OF l] by (auto simp: next_read_def l)
qed

lemma next_read_length: "length (next_read xs n count) \<le> count"
  by (auto simp: next_read_def split: option.splits)

lemma next_read_bound: "n + length (next_read xs n count) \<le> max n (length (concat xs))"
proof -
  have "length (next_read xs n count) \<le> length (drop n (concat xs))"
    using next_read_prefix [of xs n count] by (metis length_take min.cobounded1)
  then show ?thesis by (auto simp: length_concat)
qed

text \<open>Reading on until nothing comes: the user's loop, which a positive count makes terminate.\<close>

function drain :: "byte list list \<Rightarrow> nat \<Rightarrow> nat \<Rightarrow> byte list" where
  "drain xs n count =
     (if next_read xs n count = [] then []
      else next_read xs n count @ drain xs (n + length (next_read xs n count)) count)"
  by pat_completeness auto
termination
proof (relation "measure (\<lambda>(xs, n, count). length (concat xs) - n)")
  fix xs :: "byte list list" and n count :: nat
  assume "next_read xs n count \<noteq> []"
  then have "n < length (concat xs)" and "0 < length (next_read xs n count)"
    by (simp_all add: next_read_Nil_iff)
  then have "length (concat xs) - (n + length (next_read xs n count)) < length (concat xs) - n"
    by linarith
  then show "((xs, n + length (next_read xs n count), count), (xs, n, count))
      \<in> measure (\<lambda>(xs, n, count). length (concat xs) - n)"
    by simp
qed simp

declare drain.simps [simp del]

lemma drain_all: "0 < count \<Longrightarrow> drain xs n count = drop n (concat xs)"
proof (induction xs n count rule: drain.induct)
  case (1 xs n count)
  let ?d = "next_read xs n count"
  show ?case
  proof (cases "?d = []")
    case True
    then have "length (concat xs) \<le> n" using "1.prems" by (simp add: next_read_Nil_iff)
    then show ?thesis using True by (subst drain.simps) simp
  next
    case False
    then have "drain xs n count = ?d @ drop (n + length ?d) (concat xs)"
      using "1.IH" "1.prems" by (subst drain.simps) simp
    also have "drop (n + length ?d) (concat xs) = drop (length ?d) (drop n (concat xs))"
      by (simp add: add.commute)
    finally show ?thesis using next_read_prefix [of xs n count] by (metis append_take_drop_id)
  qed
qed

subsection \<open>The whole call\<close>

lemma unlock_lock: "\<not> lock (device w) \<Longrightarrow> mutex_unlock (set_lock True w) = w"
  by (simp add: mutex_unlock_def set_lock_def)

definition read_effect ::
  "byte list list \<Rightarrow> nat \<Rightarrow> size_t \<Rightarrow> loff_t \<Rightarrow> world \<Rightarrow> ssize_t \<Rightarrow> loff_t \<Rightarrow> world \<Rightarrow> bool"
where
  "read_effect xs buf count pos w r pos' w' \<longleftrightarrow>
     (let d = next_read xs (unat pos) (unat count) in
      (r = of_nat (length d) \<and> length d < 2 ^ 63 \<and> pos' = pos + r \<and>
         w' = w\<lparr>user := put_user (user w) buf d\<rparr>) \<or>
      (d \<noteq> [] \<and> r = - EFAULT \<and> pos' = pos - EFAULT \<and>
         (\<exists>m < length d. w' = w\<lparr>user := put_user (user w) buf (take m d)\<rparr>)))"

lemma put_user_Nil [simp]: "put_user m u [] = m"
  by (rule ext) (auto simp: put_user_def)

lemma copy_entry_out_effect:
  assumes kok: "kernel_ok k" and e: "kheap w (buffptr e) = Some blk"
    and fits: "unat j + unat n \<le> length blk" and d: "d = take (unat n) (drop (unat j) blk)"
  shows "\<exists>u w'. copy_entry_out k buf e j n w = Ret (u, w') \<and>
     (if u = 0 then w' = w\<lparr>user := put_user (user w) buf d\<rparr>
      else d \<noteq> [] \<and> (\<exists>m < length d. w' = w\<lparr>user := put_user (user w) buf (take m d)\<rparr>))"
proof -
  have rd: "mem_read (kheap w) (buffptr e) (unat j) (unat n) = Some d"
    using mem_read_part [of "kheap w" "buffptr e" blk, OF e fits] d by simp
  obtain u m where cu: "copy_to_user k (user w) buf d = (u, m)"
    by (cases "copy_to_user k (user w) buf d")
  then have u: "unat u \<le> length d" and m: "m = put_user (user w) buf (take (length d - unat u) d)"
    using kok by (auto simp: kernel_ok_def user_copy_ok_def)
  have res: "copy_entry_out k buf e j n w = Ret (u, w\<lparr>user := m\<rparr>)"
    by (simp add: copy_entry_out_def rd cu)
  show ?thesis
  proof (cases "u = 0")
    case True
    then show ?thesis using res m by simp
  next
    case False
    then have "0 < unat u" by (simp add: unat_gt_0)
    then have "d \<noteq> []" and "length d - unat u < length d" using u by auto
    then show ?thesis using res m False by auto
  qed
qed

lemma next_read_total: "length (next_read xs n count) \<le> length (concat xs)"
  using next_read_bound [of n xs count] next_read_Nil_iff [of xs n count]
  by (cases "length (concat xs) \<le> n") (simp_all add: max_def)

text \<open>The entry and the offset in it that a search finds, with the piece of the log they stand for.\<close>

lemma found_block:
  assumes rep: "log_rep k w xs" and found: "aesd_circular_buffer_find_entry_offset_for_fpos (ring_of w) pos = Some (s, j)"
  obtains ys where "kheap w (buffptr (entry (ring_of w) ! s)) = Some ys"
    and "entry_len (entry (ring_of w) ! s) = length ys" and "unat j < length ys"
    and "\<And>n. next_read xs (unat pos) n = take n (drop (unat j) ys)"
proof -
  let ?b = "ring_of w"
  have inv: "cb_inv ?b" using rep by (simp add: log_rep_def)
  have sizes: "map entry_len (contents ?b) = map length xs" using rep by (simp add: log_rep_def)
  have small: "sum_list (map entry_len (contents ?b)) < 2 ^ 64"
    using log_rep_total [OF rep] by (simp add: log_rep_sizes [OF rep])
  obtain i where i: "i < length (contents ?b)" and it: "entry ?b ! s = contents ?b ! i"
    and l: "locate (map entry_len (contents ?b)) (unat pos) = Some (i, unat j)"
    using cb.find_Some [OF inv small found] by metis
  have "kheap w (buffptr (entry ?b ! s)) = Some (xs ! i)" "entry_len (entry ?b ! s) = length (xs ! i)"
    using log_rep_block [OF rep i] by (simp_all add: it)
  moreover have "unat j < length (xs ! i)" using l sizes by (auto simp: locate_Some_iff)
  moreover have "next_read xs (unat pos) n = take n (drop (unat j) (xs ! i))" for n
    using l sizes by (simp add: next_read_def)
  ultimately show thesis by (rule that)
qed

lemma missing_block:
  assumes rep: "log_rep k w xs" and none: "aesd_circular_buffer_find_entry_offset_for_fpos (ring_of w) pos = None"
  shows "next_read xs (unat pos) n = []"
proof -
  have inv: "cb_inv (ring_of w)" and sizes: "map entry_len (contents (ring_of w)) = map length xs"
    using rep by (simp_all add: log_rep_def)
  have "sum_list (map entry_len (contents (ring_of w))) < 2 ^ 64"
    using log_rep_total [OF rep] by (simp add: log_rep_sizes [OF rep])
  from cb.find_None [OF inv this, of pos] none have "locate (map length xs) (unat pos) = None"
    by (simp add: locate_None_iff sizes)
  then show ?thesis by (simp add: next_read_def)
qed

lemma copy_size:
  assumes "entry_len e = length ys" and "unat j < length ys"
  shows "unat (if entry_size e - j < count then entry_size e - j else count) =
    length (take (unat count) (drop (unat j) ys))"
proof -
  have "j \<le> entry_size e" using assms by (simp add: word_le_nat_alt)
  then have "unat (entry_size e - j) = length ys - unat j" using assms(1) by (simp add: unat_sub_le)
  then show ?thesis by (auto simp: word_less_nat_alt)
qed

lemma aesd_read_effect:
  assumes kok: "kernel_ok k" and rep: "log_rep k w xs"
    and fil: "private_data filp = Aesd_device" and free: "\<not> lock (device w)"
  shows "\<exists>r pos' w'. aesd_read k filp buf count pos w = Ret (r, pos', w') \<and>
     read_effect xs buf count pos w r pos' w'"
proof (cases "aesd_circular_buffer_find_entry_offset_for_fpos (ring_of w) pos")
  case None
  have "aesd_read k filp buf count pos w = Ret (0, pos, w)"
    using None fil free by (simp add: aesd_read_def mutex_lock_free unlock_lock)
  then show ?thesis using missing_block [OF rep None] by (auto simp: read_effect_def)
next
  case (Some p)
  let ?lw = "set_lock True w" and ?d = "next_read xs (unat pos) (unat count)"
  have ret: "mutex_unlock (?lw\<lparr>user := m\<rparr>) = w\<lparr>user := m\<rparr>" for m
    using free by (simp add: mutex_unlock_def set_lock_def)
  obtain s j where p: "p = (s, j)" by (cases p)
  note found = Some [unfolded p]
  let ?e = "entry (ring_of w) ! s"
  obtain ys where blk: "kheap w (buffptr ?e) = Some ys" and el: "entry_len ?e = length ys"
    and j: "unat j < length ys" and d: "\<And>n. next_read xs (unat pos) n = take n (drop (unat j) ys)"
    using found_block [OF rep found] by metis
  define n where "n = (if entry_size ?e - j < count then entry_size ?e - j else count)"
  have un: "unat n = length ?d" unfolding n_def d by (rule copy_size [OF el j])
  have dn: "?d = take (unat n) (drop (unat j) ys)" unfolding un unfolding d
    by (rule take_length_take [of "unat count" _ "[]", simplified append_Nil2, symmetric])
  have dl: "length ?d < 2 ^ 63"
    using next_read_total [of xs "unat pos" "unat count"] log_rep_total [OF rep] by linarith
  have nr: "n = of_nat (length ?d)" using un by (metis of_nat_unat ucast_id)
  have fits: "unat j + unat n \<le> length ys" using un d j by simp
  have "kheap ?lw (buffptr ?e) = Some ys" using blk by simp
  from copy_entry_out_effect [OF kok this fits dn, of buf] obtain u w1
    where co: "copy_entry_out k buf ?e j n ?lw = Ret (u, w1)"
      and w1: "if u = 0 then w1 = ?lw\<lparr>user := put_user (user ?lw) buf ?d\<rparr>
        else ?d \<noteq> [] \<and> (\<exists>m < length ?d. w1 = ?lw\<lparr>user := put_user (user ?lw) buf (take m ?d)\<rparr>)"
    by blast
  have res: "aesd_read k filp buf count pos w =
      Ret (if u \<noteq> 0 then - EFAULT else n, pos + (if u \<noteq> 0 then - EFAULT else n), mutex_unlock w1)"
    using fil free found co by (auto simp: aesd_read_def mutex_lock_free n_def Let_def)
  show ?thesis
  proof (cases "u = 0")
    case True
    then have "aesd_read k filp buf count pos w =
        Ret (of_nat (length ?d), pos + of_nat (length ?d), w\<lparr>user := put_user (user w) buf ?d\<rparr>)"
      using res w1 nr by (simp add: ret)
    then show ?thesis using dl by (auto simp: read_effect_def)
  next
    case False
    with w1 obtain m where ne: "?d \<noteq> []" and m: "m < length ?d"
      and wm: "w1 = ?lw\<lparr>user := put_user (user ?lw) buf (take m ?d)\<rparr>" by auto
    have "read_effect xs buf count pos w (- EFAULT) (pos - EFAULT) (w\<lparr>user := put_user (user w) buf (take m ?d)\<rparr>)"
      unfolding read_effect_def Let_def using ne m by blast
    then show ?thesis using res False by (auto simp: wm ret)
  qed
qed

text \<open>A read that reports an error has met a failing copy to user memory.\<close>

lemma aesd_read_reliable:
  assumes log: "log_rep k w xs" and fil: "private_data filp = Aesd_device" and free: "\<not> lock (device w)"
    and copies: "\<forall>m u bs. fst (copy_to_user k m u bs) = 0"
    and res: "aesd_read k filp buf count pos w = Ret (r, pos', w')"
  shows "0 \<le> sint r"
proof -
  let ?b = "ring_of w"
  have inv: "cb_inv ?b" using log by (simp add: log_rep_def)
  have small: "sum_list (map entry_len (contents ?b)) < 2 ^ 63"
    using log_rep_total [OF log] by (simp add: log_rep_sizes [OF log])
  have nonneg: "0 \<le> sint v" if "unat v < 2 ^ 63" for v :: size_t
    using sint_of_nat64 [OF that] by simp
  show ?thesis
  proof (cases "aesd_circular_buffer_find_entry_offset_for_fpos ?b pos")
    case None
    then have "r = 0" using res fil free by (simp add: aesd_read_def mutex_lock_free)
    then show ?thesis by simp
  next
    case (Some p)
    obtain s j where p: "p = (s, j)" by (cases p)
    have "sum_list (map entry_len (contents ?b)) < 2 ^ 64" using small by simp
    from cb.find_Some [OF inv this Some [unfolded p]] obtain i
      where i: "i < length (contents ?b)" "entry ?b ! s = contents ?b ! i" "unat j < entry_len (contents ?b ! i)"
      by metis
    let ?n = "entry_size (entry ?b ! s) - j"
    have "entry_len (contents ?b ! i) \<le> sum_list (map entry_len (contents ?b))"
      by (intro member_le_sum_list) (use i(1) in auto)
    moreover have "unat ?n \<le> entry_len (entry ?b ! s)"
      using i by (subst unat_sub_le) (simp_all add: word_le_nat_alt)
    ultimately have n: "unat ?n < 2 ^ 63" using i(2) small by simp
    have co: "u = 0" if "copy_entry_out k buf e off len v = Ret (u, v')" for e off len v u v'
      using that copies by (auto simp: copy_entry_out_def split: option.splits prod.splits) (metis fst_conv)
    have "r = (if ?n < count then ?n else count)"
      using res fil free Some co
      by (auto simp: p aesd_read_def mutex_lock_free Let_def obind_Ret_iff split: if_splits)
    then show ?thesis using n by (intro nonneg) (auto simp: word_less_nat_alt)
  qed
qed

end
