(* ===== verification/Device_Seek.thy ===== *)
theory Device_Seek
  imports Device_Read
begin

text \<open>
  \<open>aesd_llseek\<close>, \<open>aesd_file_offset\<close> and \<open>aesd_ioctl\<close>. The ioctl adds up the sizes of the entries
  in the order of the array, from index 0, which is the order of the packets only while the ring
  has not wrapped.
\<close>

subsection \<open>The array as a list of packets\<close>

lemma entries_not_full:
  assumes inv: "cb_inv b" and nf: "\<not> full b"
  shows "entry b = contents b @ replicate (10 - ring_count b) empty_entry"
proof -
  have "map (ring b) [0..<10] = map ((!) (entry b)) [0..<10]"
    by (rule map_cong [OF refl]) (simp add: ring_def slot_of_not_full [OF inv nf] max_ops)
  also have "\<dots> = entry b"
    using inv map_nth [of "entry b"] by (simp add: cb_inv_def max_ops)
  finally show ?thesis using ring_all [OF inv] by (simp add: max_ops)
qed

lemma entries_full:
  assumes inv: "cb_inv b" and f: "full b"
  shows "entry b = drop (10 - unat (out_offs b)) (contents b) @ take (10 - unat (out_offs b)) (contents b)"
    (is "_ = ?r")
proof (rule nth_equalityI)
  let ?o = "unat (out_offs b)"
  have len: "length (entry b) = 10" and o: "?o < 10"
    using inv by (simp_all add: cb_inv_def max_ops)
  have cl: "length (contents b) = 10" using f by (simp add: contents_length ring_count_def max_ops)
  show "length (entry b) = length ?r" using len cl o by simp
  have c: "contents b ! m = entry b ! ((?o + m) mod 10)" if "m < 10" for m
    using that f by (simp add: contents_def ring_count_def ring_def slot_of_def max_ops)
  fix i assume "i < length (entry b)"
  then have i: "i < 10" using len by simp
  show "entry b ! i = ?r ! i"
  proof (cases "i < ?o")
    case True
    then have "(?o + (10 - ?o + i)) mod 10 = i" using o by simp
    then show ?thesis using True o cl c [of "10 - ?o + i"] by (simp add: nth_append)
  next
    case False
    then have "(?o + (i - ?o)) mod 10 = i" using i by simp
    then show ?thesis using False o cl i c [of "i - ?o"] by (simp add: nth_append)
  qed
qed

definition array_packets :: "aesd_circular_buffer \<Rightarrow> byte list list \<Rightarrow> byte list list" where
  "array_packets b xs =
     (if full b then drop (10 - unat (out_offs b)) xs @ take (10 - unat (out_offs b)) xs
      else xs @ replicate (10 - length xs) [])"

lemma array_packets_sizes:
  assumes rep: "log_rep k w xs"
  shows "map entry_len (entry (ring_of w)) = map length (array_packets (ring_of w) xs)"
proof -
  let ?b = "ring_of w"
  have inv: "cb_inv ?b" and sz: "map entry_len (contents ?b) = map length xs"
    using rep by (auto simp: log_rep_def)
  show ?thesis
  proof (cases "full ?b")
    case True
    then show ?thesis
      by (subst entries_full [OF inv True]) (simp add: array_packets_def drop_map [symmetric]
          take_map [symmetric] sz)
  next
    case False
    then show ?thesis
      by (subst entries_not_full [OF inv False])
        (simp add: array_packets_def sz log_rep_length [OF rep] empty_entry_def map_replicate)
  qed
qed

lemma array_packets_length: "log_rep k w xs \<Longrightarrow> length (array_packets (ring_of w) xs) = 10"
  using array_packets_sizes [of k w xs] by (auto simp: log_rep_def cb_inv_def max_ops dest: map_eq_imp_length_eq)

lemma array_packets_total:
  "log_rep k w xs \<Longrightarrow> length (concat (array_packets (ring_of w) xs)) = length (concat xs)"
proof -
  have "length (concat (drop n xs)) + length (concat (take n xs)) = length (concat xs)" for n
    by (metis add.commute append_take_drop_id concat_append length_append)
  then show ?thesis by (simp add: array_packets_def concat_replicate_trivial)
qed

subsection \<open>The offset loop\<close>

lemma offset_loop_sum:
  assumes len: "length (entry b) = 10" and c: "c \<le> 10"
  shows "i \<le> c \<Longrightarrow> offset_loop oobe b (of_nat c) (of_nat i) u =
     u + of_nat (sum_list (map entry_len (take (c - i) (drop i (entry b)))))"
proof (induction "c - i" arbitrary: i u)
  case 0
  then have "i = c" by simp
  then show ?case by (subst offset_loop.simps) simp
next
  case (Suc n)
  then have i: "i < c" "i < 10" using c by simp_all
  have ui: "unat (of_nat i :: uint32) = i" using i by (simp add: unat_of_nat)
  have guard: "(of_nat i :: uint32) < of_nat c"
    using i c by (simp add: word_less_nat_alt unat_of_nat)
  have next_i: "(of_nat i + 1 :: uint32) = of_nat (Suc i)" by simp
  have split: "take (c - i) (drop i (entry b)) = entry b ! i # take (c - Suc i) (drop (Suc i) (entry b))"
    using i len by (simp add: Cons_nth_drop_Suc [symmetric] Suc_diff_Suc take_Cons')
  have "offset_loop oobe b (of_nat c) (of_nat i) u =
      offset_loop oobe b (of_nat c) (of_nat (Suc i)) (u + entry_size (entry b ! i))"
    using guard i
    by (subst offset_loop.simps) (simp add: ui next_i entry_size_at_def max_ops del: of_nat_Suc)
  also have "\<dots> = u + entry_size (entry b ! i) +
      of_nat (sum_list (map entry_len (take (c - Suc i) (drop (Suc i) (entry b)))))"
    using Suc.hyps i by (intro Suc.hyps(1)) simp_all
  finally show ?case by (simp add: split)
qed

lemma offset_loop_packets:
  assumes rep: "log_rep k w xs" and c: "c \<le> 10"
  shows "offset_loop oobe (ring_of w) (of_nat c) 0 0 =
     of_nat (length (concat (take c (array_packets (ring_of w) xs))))"
proof -
  have "length (entry (ring_of w)) = 10" using rep by (simp add: log_rep_def cb_inv_def max_ops)
  from offset_loop_sum [OF this c, of 0 oobe 0]
  have "offset_loop oobe (ring_of w) (of_nat c) 0 0 =
      of_nat (sum_list (take c (map entry_len (entry (ring_of w)))))"
    by (simp add: take_map)
  then show ?thesis
    by (simp only: array_packets_sizes [OF rep] take_map length_concat)
qed

subsection \<open>The calls\<close>

lemma aesd_file_offset_effect:
  assumes rep: "log_rep k w xs" and c: "unat cmd < 10"
    and fil: "private_data filp = Aesd_device" and free: "\<not> lock (device w)"
  defines "ap \<equiv> array_packets (ring_of w) xs"
  shows "aesd_file_offset oobe filp cmd off w =
     (if unat off \<le> length (ap ! unat cmd)
      then Ret (0, filp\<lparr>f_pos := of_nat (length (concat (take (unat cmd) ap)) + unat off)\<rparr>, w)
      else Ret (- EINVAL, filp, w))"
proof -
  have apl: "length ap = 10" unfolding ap_def by (rule array_packets_length [OF rep])
  have "map entry_len (entry (ring_of w)) ! unat cmd = map length ap ! unat cmd"
    unfolding ap_def by (simp only: array_packets_sizes [OF rep])
  moreover have "length (entry (ring_of w)) = 10"
    using rep by (simp add: log_rep_def cb_inv_def max_ops)
  ultimately have sz: "entry_len (entry (ring_of w) ! unat cmd) = length (ap ! unat cmd)"
    using c apl by simp
  have ok: "\<not> of_nat AESDCHAR_MAX_WRITE_OPERATIONS_SUPPORTED < cmd"
    using c by (simp add: word_less_nat_alt max_ops)
  have uo: "unat (ucast off :: size_t) = unat off" by (simp add: unat_ucast_up)
  have "offset_loop oobe (ring_of w) (of_nat (unat cmd)) 0 0
      = of_nat (length (concat (take (unat cmd) ap)))"
    unfolding ap_def using c by (intro offset_loop_packets [OF rep]) simp
  then have loop: "offset_loop oobe (ring_of w) cmd 0 0 + ucast off =
      of_nat (length (concat (take (unat cmd) ap)) + unat off)"
    by simp
  show ?thesis
    using fil free ok c
    by (simp add: aesd_file_offset_def mutex_lock_free unlock_lock Let_def entry_size_at_def max_ops
        word_less_nat_alt sz loop uo)
qed

lemma aesd_llseek_effect:
  assumes kok: "kernel_ok k" and fil: "private_data filp = Aesd_device" and free: "\<not> lock (device w)"
    and pos: "0 \<le> sint (f_pos filp)" and sz: "0 \<le> sint (total_size (ring_of w))"
  shows "aesd_llseek k filp off whence w =
     (if seek_allowed (f_pos filp) off whence (total_size (ring_of w))
      then (let p = word_of_int (seek_target (f_pos filp) off whence (total_size (ring_of w)))
            in Ret (p, filp\<lparr>f_pos := p\<rparr>, w))
      else Ret (- EINVAL, filp, set_lock True w))"
proof -
  let ?s = "total_size (ring_of w)"
  obtain r p where fs: "fixed_size_llseek k (f_pos filp) off whence ?s = (r, p)"
    by (cases "fixed_size_llseek k (f_pos filp) off whence ?s")
  have law: "if seek_allowed (f_pos filp) off whence ?s
      then r = word_of_int (seek_target (f_pos filp) off whence ?s) \<and> p = r
      else sint r < 0 \<and> p = f_pos filp"
    using kok fs pos sz unfolding kernel_ok_def llseek_ok_def by blast
  show ?thesis
  proof (cases "seek_allowed (f_pos filp) off whence ?s")
    case False
    then show ?thesis using law fs fil free
      by (simp add: aesd_llseek_def mutex_lock_free)
  next
    case True
    let ?t = "seek_target (f_pos filp) off whence ?s"
    have hi: "sint (f_pos filp) < 2 ^ 63" "sint ?s < 2 ^ 63"
      using sint_less [of "f_pos filp"] sint_less [of ?s] by simp_all
    have "0 \<le> ?t \<and> ?t < 2 ^ 63"
      using True pos hi by (auto simp: seek_allowed_def seek_target_def)
    then have "sint (word_of_int ?t :: loff_t) = ?t"
      by (intro sint64_word_of_int) simp_all
    then show ?thesis using True law fs fil free \<open>0 \<le> ?t \<and> ?t < 2 ^ 63\<close>
      by (simp add: aesd_llseek_def mutex_lock_free unlock_lock Let_def)
  qed
qed

lemma aesd_ioctl_seekto:
  assumes kok: "kernel_ok k" and log: "log_rep k w xs" and nf: "\<not> full (ring_of w)"
    and fil: "private_data filp = Aesd_device" and free: "\<not> lock (device w)"
    and copy: "copy_from_user k (user w) arg 8 = (0, bs)"
    and cmd: "unat (write_cmd (seekto_of_bytes bs)) = i"
    and off: "unat (write_cmd_offset (seekto_of_bytes bs)) = j"
    and i: "i < length xs" and j: "j \<le> length (xs ! i)"
  shows "aesd_ioctl k oobe filp (AESDCHAR_IOCSEEKTO k) arg w =
    Ret (0, filp\<lparr>f_pos := of_nat (length (concat (take i xs)) + j)\<rparr>, w)"
proof -
  have i10: "i < 10" using i log_rep_bounded [OF log] by simp
  have ioc: "ioc_type k (AESDCHAR_IOCSEEKTO k) = AESD_IOC_MAGIC" "ioc_nr k (AESDCHAR_IOCSEEKTO k) = 1"
    using kok by (simp_all add: kernel_ok_def ioc_ok_def AESDCHAR_IOCSEEKTO_def AESD_IOC_MAGIC_def)
  have ap: "array_packets (ring_of w) xs = xs @ replicate (10 - length xs) []"
    using nf by (simp add: array_packets_def)
  show ?thesis
    using aesd_file_offset_effect [OF log _ fil free, of "write_cmd (seekto_of_bytes bs)" oobe
        "write_cmd_offset (seekto_of_bytes bs)"] i j i10
    by (simp add: aesd_ioctl_def ioc copy AESDCHAR_IOC_MAXNR_def cmd off ap nth_append)
qed

lemma all_calls_block:
  assumes "private_data filp = Aesd_device" and "lock (device w)"
  shows "aesd_read k filp buf count pos w = Blocked"
    and "aesd_llseek k filp off whence w = Blocked"
    and "aesd_file_offset oobe filp cmd coff w = Blocked"
  using assms by (simp_all add: aesd_read_def aesd_llseek_def aesd_file_offset_def mutex_lock_held)

lemma write_blocks_or_fails:
  assumes fil: "private_data filp = Aesd_device" and "lock (device w)"
    and "aesd_write k oob filp buf count pos w = Ret (r, p, w')"
  shows "r \<in> {- ENOMEM, - EFAULT}"
  using assms
  by (auto simp: aesd_write_def mutex_lock_held Let_def split: prod.splits option.splits if_splits)

end
