(* ===== verification/Driver_Module.thy ===== *)
theory Driver_Module
  imports Device_Seek "HOL-Library.Multiset"
begin

text \<open>
  Loading and unloading the driver: \<open>aesd_setup_cdev\<close>, \<open>aesd_init_module\<close> and
  \<open>aesd_cleanup_module\<close> of \<^verbatim>\<open>aesd-char-driver/main.c\<close>. The device-number services of the kernel
  are the parameter \<open>chrdev\<close>; the calls that only change the kernel's own tables are recorded in a
  trace of events, in order. Freeing memory that is not allocated is \<open>Undef\<close>.
\<close>

subsection \<open>State and services\<close>

type_synonym dev_t = "32 word"

record chrdev =
  alloc_chrdev_region :: "32 word \<Rightarrow> 32 word \<times> dev_t"
  dev_major :: "dev_t \<Rightarrow> 32 word"
  mkdev :: "32 word \<Rightarrow> 32 word \<Rightarrow> dev_t"
  cdev_add :: "dev_t \<Rightarrow> 32 word"

datatype module_event =
  Mutex_init
| Cdev_init
| Cdev_added dev_t
| Cdev_del
| Mutex_destroy
| Region_registered dev_t
| Region_unregistered dev_t

record driver =
  dworld :: world
  aesd_major :: "32 word"
  events :: "module_event list"

abbreviation aesd_minor :: "32 word" where
  "aesd_minor \<equiv> 0"

definition emit :: "module_event \<Rightarrow> driver \<Rightarrow> driver" where
  "emit e m = m\<lparr>events := events m @ [e]\<rparr>"

subsection \<open>Loading\<close>

text \<open>The device structure after \<open>memset\<close> to zero bytes.\<close>

definition zero_dev :: aesd_dev where
  "zero_dev = \<lparr>lock = False,
     circ_buffer = \<lparr>entry = replicate AESDCHAR_MAX_WRITE_OPERATIONS_SUPPORTED empty_entry,
                    in_offs = 0, out_offs = 0, full = False, total_size = 0\<rparr>,
     working_entry = empty_entry, dev_buffer = NULL, buffer_size = 0\<rparr>"

definition aesd_setup_cdev :: "chrdev \<Rightarrow> driver \<Rightarrow> 32 word \<times> driver" where
  "aesd_setup_cdev c m =
     (let devno = mkdev c (aesd_major m) aesd_minor;
          m = emit Cdev_init m;
          err = cdev_add c devno
      in (err, if err = 0 then emit (Cdev_added devno) m else m))"

definition aesd_init_module :: "chrdev \<Rightarrow> driver \<Rightarrow> 32 word \<times> driver" where
  "aesd_init_module c m =
     (let (result, dev) = alloc_chrdev_region c aesd_minor;
          m = m\<lparr>aesd_major := dev_major c dev\<rparr>
      in if sint result < 0 then (result, m)
      else let
          m = emit (Region_registered dev) m;
          m = m\<lparr>dworld := (dworld m)\<lparr>device := zero_dev\<rparr>\<rparr>;
          m = emit Mutex_init (m\<lparr>dworld := set_lock False (dworld m)\<rparr>);
          m = m\<lparr>dworld := (dworld m)\<lparr>device := (device (dworld m))
                  \<lparr>circ_buffer := aesd_circular_buffer_init\<rparr>\<rparr>\<rparr>;
          (result, m) = aesd_setup_cdev c m
        in (result, if result \<noteq> 0 then emit (Region_unregistered dev) m else m))"

subsection \<open>Unloading\<close>

definition kfree_checked :: "kernel \<Rightarrow> ptr \<Rightarrow> world \<Rightarrow> world outcome" where
  "kfree_checked k p w =
     (if p = NULL \<or> p = zero_size_ptr k \<or> kheap w p \<noteq> None then Ret (kfree_in k p w) else Undef)"

definition aesd_cleanup_module :: "kernel \<Rightarrow> chrdev \<Rightarrow> driver \<Rightarrow> driver outcome" where
  "aesd_cleanup_module k c m =
     (let devno = mkdev c (aesd_major m) aesd_minor;
          m = emit Cdev_del m
      in obind (AESD_CIRCULAR_BUFFER_FOREACH (\<lambda>e r. obind r (kfree_checked k (buffptr e)))
                  (circ_buffer (device (dworld m))) (Ret (dworld m)))
          (\<lambda>w. Ret (emit (Region_unregistered devno) (emit Mutex_destroy (m\<lparr>dworld := w\<rparr>)))))"

subsection \<open>Lemmas\<close>

lemma emit_simps [simp]:
  "dworld (emit e m) = dworld m" "aesd_major (emit e m) = aesd_major m"
  "events (emit e m) = events m @ [e]"
  by (simp_all add: emit_def)

lemma init_module_device:
  assumes "aesd_init_module c m = (0, m')"
  shows "device (dworld m') = zero_dev" and "kheap (dworld m') = kheap (dworld m)"
    and "user (dworld m') = user (dworld m)"
  using assms
  by (auto simp: aesd_init_module_def aesd_setup_cdev_def Let_def zero_dev_def set_lock_def
      aesd_circular_buffer_init_def split: prod.splits if_splits)

lemma zero_dev_rep:
  assumes "device w = zero_dev" and "mem_ok k (kheap w)"
  shows "dev_rep k w [] []" and "\<not> lock (device w)"
proof -
  have b: "ring_of w = aesd_circular_buffer_init"
    using assms(1) by (simp add: zero_dev_def aesd_circular_buffer_init_def)
  show "dev_rep k w [] []"
    using assms(2) unfolding dev_rep_def log_rep_def pend_rep_def b
    by (simp add: cb_inv_init contents_init) (simp add: assms(1) zero_dev_def)
  show "\<not> lock (device w)" using assms(1) by (simp add: zero_dev_def)
qed

text \<open>The blocks the cleanup visits: those of the ring, and NULL for every unused slot.\<close>

lemma entries_ring:
  assumes inv: "cb_inv b"
  shows "mset (map buffptr (entry b)) =
     mset (map buffptr (contents b)) + replicate_mset (10 - ring_count b) NULL"
proof (cases "full b")
  case True
  let ?n = "10 - unat (out_offs b)"
  have "mset (map buffptr (entry b)) = mset (map buffptr (take ?n (contents b) @ drop ?n (contents b)))"
    by (subst entries_full [OF inv True]) (simp add: add.commute del: append_take_drop_id)
  then show ?thesis using True by (simp add: ring_count_def max_ops)
next
  case False
  then show ?thesis
    by (subst entries_not_full [OF inv False]) (simp add: empty_entry_def)
qed

lemma free_all:
  assumes kok: "kernel_ok k" and null: "kheap w NULL = None"
    and alloc: "\<forall>p \<in> set ps. p = NULL \<or> kheap w p \<noteq> None"
    and once: "distinct (filter (\<lambda>p. p \<noteq> NULL) ps)"
  shows "fold (\<lambda>p r. obind r (kfree_checked k p)) ps (Ret w) =
     Ret (w\<lparr>kheap := kheap w |` (- set ps)\<rparr>)"
  using null alloc once
proof (induction ps arbitrary: w)
  case Nil
  show ?case by (simp add: restrict_map_def)
next
  case (Cons p ps)
  have free: "kfree_in k p w = w\<lparr>kheap := (kheap w)(p := None)\<rparr>"
    using kok by (simp add: kfree_in_def kernel_ok_def kfree_ok_def)
  have step: "kfree_checked k p w = Ret (w\<lparr>kheap := (kheap w)(p := None)\<rparr>)"
    using Cons.prems by (auto simp: kfree_checked_def free)
  have notin: "p = NULL \<or> p \<notin> set ps" using Cons.prems(3) by auto
  let ?v = "w\<lparr>kheap := (kheap w)(p := None)\<rparr>"
  have "kheap ?v NULL = None" using Cons.prems(1) by simp
  moreover have "\<forall>q \<in> set ps. q = NULL \<or> kheap ?v q \<noteq> None"
    using Cons.prems(2) notin by auto
  moreover have "distinct (filter (\<lambda>p. p \<noteq> NULL) ps)"
    using Cons.prems(3) by (simp split: if_splits)
  ultimately have "fold (\<lambda>p r. obind r (kfree_checked k p)) ps (Ret ?v) =
      Ret (?v\<lparr>kheap := kheap ?v |` (- set ps)\<rparr>)"
    by (rule Cons.IH)
  moreover have "((kheap w)(p := None)) |` (- set ps) = kheap w |` (- set (p # ps))"
    by (rule ext) (auto simp: restrict_map_def)
  ultimately show ?case by (simp add: step del: Compl_insert)
qed

lemma filter_no_null: "filter_mset (\<lambda>p. p \<noteq> x) (replicate_mset n x) = {#}"
  by (induction n) simp_all

lemma cleanup_effect:
  assumes kok: "kernel_ok k" and log: "log_rep k (dworld m) xs"
  shows "aesd_cleanup_module k c m =
     Ret (emit (Region_unregistered (mkdev c (aesd_major m) 0)) (emit Mutex_destroy (emit Cdev_del
       (m\<lparr>dworld := (dworld m)\<lparr>kheap := kheap (dworld m) |` (- set (entry_ptrs (dworld m)))\<rparr>\<rparr>))))"
proof -
  let ?w = "dworld m" and ?b = "ring_of (dworld m)"
  have inv: "cb_inv ?b" and mem: "mem_ok k (kheap ?w)" and dist: "distinct (entry_ptrs ?w)"
    using log by (simp_all add: log_rep_def)
  have null: "kheap ?w NULL = None" using mem by (simp add: mem_ok_def)
  note ms = entries_ring [OF inv]
  have sets: "set (map buffptr (entry ?b)) \<subseteq> insert NULL (set (entry_ptrs ?w))"
    "set (entry_ptrs ?w) \<subseteq> set (map buffptr (entry ?b))"
    using arg_cong [OF ms, of set_mset] by (auto split: if_splits)
  have alloc: "\<forall>p \<in> set (map buffptr (entry ?b)). p = NULL \<or> kheap ?w p \<noteq> None"
    using sets(1) log_rep_allocated [OF log] by blast
  have nonnull: "filter (\<lambda>p. p \<noteq> NULL) (entry_ptrs ?w) = entry_ptrs ?w"
    using log_rep_allocated [OF log] null by (intro filter_True) metis
  have "mset (filter (\<lambda>p. p \<noteq> NULL) (map buffptr (entry ?b))) = mset (entry_ptrs ?w)"
    using arg_cong [OF ms, of "filter_mset (\<lambda>p. p \<noteq> NULL)"] arg_cong [OF nonnull, of mset]
    by (simp add: filter_no_null del: mset_map)
  then have once: "distinct (filter (\<lambda>p. p \<noteq> NULL) (map buffptr (entry ?b)))"
    using dist by (metis mset_eq_imp_distinct_iff)
  have "kheap ?w |` (- set (map buffptr (entry ?b))) = kheap ?w |` (- set (entry_ptrs ?w))"
    using sets null by (intro ext) (auto simp: restrict_map_def)
  then have "fold (\<lambda>e r. obind r (kfree_checked k (buffptr e))) (entry ?b) (Ret ?w) =
      Ret (?w\<lparr>kheap := kheap ?w |` (- set (entry_ptrs ?w))\<rparr>)"
    using free_all [OF kok null alloc once] by (simp add: fold_map comp_def)
  moreover have "length (entry ?b) = AESDCHAR_MAX_WRITE_OPERATIONS_SUPPORTED"
    using inv by (simp add: cb_inv_def)
  ultimately show ?thesis
    by (simp add: aesd_cleanup_module_def foreach_fold emit_def)
qed

end
