(* ===== verification/Device_System.thy ===== *)
theory Device_System
  imports Driver_Module
begin

text \<open>
  The driver as user programs see it: the table \<open>aesd_fops\<close> of
  \<^verbatim>\<open>aesd-char-driver/main.c\<close>, system calls on open files dispatched through it, and the step
  relation of a system in which programs call the driver in any order. The abstract specification
  is a log of packets with the bytes of an unfinished line; every step of the system is a step of
  the log.
\<close>

subsection \<open>The table of file operations\<close>

record file_operations =
  fop_read :: "open_file \<Rightarrow> nat \<Rightarrow> size_t \<Rightarrow> loff_t \<Rightarrow> world \<Rightarrow> (ssize_t \<times> loff_t \<times> world) outcome"
  fop_write :: "open_file \<Rightarrow> nat \<Rightarrow> size_t \<Rightarrow> loff_t \<Rightarrow> world \<Rightarrow> (ssize_t \<times> loff_t \<times> world) outcome"
  fop_open :: "inode \<Rightarrow> open_file \<Rightarrow> 32 word \<times> open_file"
  fop_release :: "inode \<Rightarrow> open_file \<Rightarrow> 32 word \<times> open_file"
  fop_llseek :: "open_file \<Rightarrow> loff_t \<Rightarrow> nat \<Rightarrow> world \<Rightarrow> (loff_t \<times> open_file \<times> world) outcome"
  fop_unlocked_ioctl ::
    "open_file \<Rightarrow> uint32 \<Rightarrow> nat \<Rightarrow> world \<Rightarrow> (64 word \<times> open_file \<times> world) outcome"

definition aesd_fops ::
  "kernel \<Rightarrow> (nat \<Rightarrow> size_t) \<Rightarrow> (nat \<Rightarrow> size_t) \<Rightarrow> file_operations"
where
  "aesd_fops k oob oobe =
     \<lparr>fop_read = aesd_read k, fop_write = aesd_write k oob, fop_open = aesd_open,
      fop_release = aesd_release, fop_llseek = aesd_llseek k,
      fop_unlocked_ioctl = aesd_ioctl k oobe\<rparr>"

subsection \<open>System calls\<close>

text \<open>
  The contract of the kernel's file layer: a call on a descriptor that is not open fails with
  \<open>EBADF\<close>, and so does a write on one that was not opened for writing; \<open>read\<close> and \<open>write\<close> get the position of the file and store it back; \<open>open\<close> starts at
  position 0. \<open>Store\<close> is a user program writing to its own memory.
\<close>

record system =
  sworld :: world
  files :: "nat \<Rightarrow> open_file option"

datatype call =
  Open nat bool
| Close nat
| Read nat nat size_t
| Write nat nat size_t
| Llseek nat loff_t nat
| Ioctl nat uint32 nat
| Store nat "byte list"

definition aesd_inode :: inode where
  "aesd_inode = \<lparr>i_cdev = Aesd_device\<rparr>"

abbreviation EBADF :: ssize_t where "EBADF \<equiv> 9"

definition with_file :: "system \<Rightarrow> nat \<Rightarrow> (open_file \<Rightarrow> (ssize_t \<times> system) outcome)
    \<Rightarrow> (ssize_t \<times> system) outcome" where
  "with_file s fd f = (case files s fd of None \<Rightarrow> Ret (- EBADF, s) | Some filp \<Rightarrow> f filp)"

definition put_file :: "nat \<Rightarrow> open_file \<Rightarrow> world \<Rightarrow> system \<Rightarrow> system" where
  "put_file fd filp w s = s\<lparr>sworld := w, files := (files s)(fd \<mapsto> filp)\<rparr>"

fun sys_call :: "file_operations \<Rightarrow> call \<Rightarrow> system \<Rightarrow> (ssize_t \<times> system) outcome" where
  "sys_call f (Open fd writes) s =
     (let (r, filp) = fop_open f aesd_inode \<lparr>private_data = No_device, f_pos = 0, can_write = writes\<rparr>
      in Ret (scast r, put_file fd filp (sworld s) s))"
| "sys_call f (Close fd) s =
     with_file s fd (\<lambda>filp. let (r, filp) = fop_release f aesd_inode filp
       in Ret (scast r, s\<lparr>files := (files s)(fd := None)\<rparr>))"
| "sys_call f (Read fd buf n) s =
     with_file s fd (\<lambda>filp. obind (fop_read f filp buf n (f_pos filp) (sworld s))
       (\<lambda>(r, pos, w). Ret (r, put_file fd (filp\<lparr>f_pos := pos\<rparr>) w s)))"
| "sys_call f (Write fd buf n) s =
     with_file s fd (\<lambda>filp. if \<not> can_write filp then Ret (- EBADF, s)
       else obind (fop_write f filp buf n (f_pos filp) (sworld s))
         (\<lambda>(r, pos, w). Ret (r, put_file fd (filp\<lparr>f_pos := pos\<rparr>) w s)))"
| "sys_call f (Llseek fd off whence) s =
     with_file s fd (\<lambda>filp. obind (fop_llseek f filp off whence (sworld s))
       (\<lambda>(r, filp, w). Ret (r, put_file fd filp w s)))"
| "sys_call f (Ioctl fd cmd arg) s =
     with_file s fd (\<lambda>filp. obind (fop_unlocked_ioctl f filp cmd arg (sworld s))
       (\<lambda>(r, filp, w). Ret (r, put_file fd filp w s)))"
| "sys_call f (Store a bs) s =
     Ret (0, s\<lparr>sworld := (sworld s)\<lparr>user := put_user (user (sworld s)) a bs\<rparr>\<rparr>)"

text \<open>A step of the system: one call, whatever the memory next to the ring holds.\<close>

inductive sys_step :: "kernel \<Rightarrow> system \<Rightarrow> system \<Rightarrow> bool" for k where
  sys_step_call: "sys_call (aesd_fops k oob oobe) c s = Ret (r, s') \<Longrightarrow> sys_step k s s'"

inductive_cases sys_stepE: "sys_step k s s'"

text \<open>Steps along which no write has lost the write buffer.\<close>

inductive sound_run :: "kernel \<Rightarrow> system \<Rightarrow> system \<Rightarrow> bool" for k where
  sound_refl: "\<not> poisoned (sworld s) \<Longrightarrow> sound_run k s s"
| sound_step: "sound_run k s t \<Longrightarrow> sys_step k t u \<Longrightarrow> \<not> poisoned (sworld u) \<Longrightarrow> sound_run k s u"

subsection \<open>The abstract log\<close>

text \<open>
  The packets, oldest first, and the bytes of the unfinished line; \<open>None\<close> when they are lost. A
  log that lost them goes on with bytes that nobody wrote.
\<close>

type_synonym log = "byte list list \<times> byte list option"

inductive log_step :: "log \<Rightarrow> log \<Rightarrow> bool" where
  log_keep: "log_step l l"
| log_append: "newline \<notin> set bs \<Longrightarrow> log_step (xs, Some p) (xs, Some (p @ bs))"
| log_commit: "newline \<notin> set bs \<Longrightarrow>
     log_step (xs, Some p) (push xs (p @ bs @ [newline]), Some [])"
| log_lose: "log_step (xs, p) (xs, None)"
| log_append_lost: "newline \<notin> set bs \<Longrightarrow> log_step (xs, None) (xs, Some (garbage @ bs))"
| log_commit_lost: "newline \<notin> set bs \<Longrightarrow>
     log_step (xs, None) (push xs (garbage @ bs @ [newline]), Some [])"

inductive_simps log_step_Some: "log_step (xs, Some p) (ys, Some q)"

definition world_log :: "kernel \<Rightarrow> world \<Rightarrow> log \<Rightarrow> bool" where
  "world_log k w l \<longleftrightarrow>
     (case l of
        (xs, Some pend) \<Rightarrow> dev_rep k w xs pend
      | (xs, None) \<Rightarrow> poisoned w \<and> (\<forall>pend. dev_state k w xs pend))"

definition log_abs :: "kernel \<Rightarrow> system \<Rightarrow> log \<Rightarrow> bool" where
  "log_abs k s l \<longleftrightarrow>
     (\<forall>fd filp. files s fd = Some filp \<longrightarrow> private_data filp = Aesd_device) \<and>
     world_log k (sworld s) l"

subsection \<open>One call\<close>

lemma first_packet_newline:
  assumes "newline \<in> set bs"
  obtains ys where "first_packet bs = ys @ [newline]" and "newline \<notin> set ys"
proof -
  have "newline \<notin> set (takeWhile (\<lambda>b. b \<noteq> newline) bs)" by (auto dest: set_takeWhileD)
  then show thesis using assms by (intro that) (simp_all add: first_packet_def)
qed

lemma world_log_state:
  assumes "world_log k w (xs, p)"
  obtains pend where "dev_state k w xs pend"
    and "\<And>q. p = Some q \<Longrightarrow> pend = q"
    and "p = None \<longleftrightarrow> poisoned w"
  using assms that dev_rep_state dev_rep_not_poisoned
  by (cases p) (auto simp: world_log_def)

lemma world_log_intro:
  "dev_state k w xs pend \<Longrightarrow> world_log k w (xs, if poisoned w then None else Some pend)"
  by (auto simp: world_log_def dev_state_iff_rep) (simp add: dev_state_def)

lemma world_log_rep: "dev_rep k w xs pend \<Longrightarrow> world_log k w (xs, Some pend)"
  by (simp add: world_log_def)

lemma log_abs_files:
  "log_abs k s l \<Longrightarrow> files s fd = Some filp \<Longrightarrow> private_data filp = Aesd_device"
  by (auto simp: log_abs_def)

lemma log_abs_put_file:
  "log_abs k s l \<Longrightarrow> private_data filp = Aesd_device \<Longrightarrow> world_log k w l' \<Longrightarrow>
     log_abs k (put_file fd filp w s) l'"
  by (simp add: log_abs_def put_file_def)

lemma world_log_same_device [simp]:
  "world_log k (w\<lparr>user := m\<rparr>) l = world_log k w l"
  "world_log k (set_lock b w) l = world_log k w l"
  by (cases l, cases "snd l", auto simp: world_log_def poisoned_def set_lock_def dev_rep_def
      dev_state_def log_rep_def pend_rep_def)+

lemma filp_same [simp, intro]: "\<exists>p. filp = filp\<lparr>f_pos := p\<rparr>"
  by (rule exI [of _ "f_pos filp"]) simp

lemma aesd_write_held:
  assumes kok: "kernel_ok k" and st: "dev_state k w xs pend"
    and fil: "private_data filp = Aesd_device" and held: "lock (device w)"
  shows "aesd_write k oob filp buf n pos w
           \<in> {Ret (- ENOMEM, pos, w), Ret (- EFAULT, pos, w), Blocked}"
proof -
  obtain wd h1 where km: "kmalloc k (kheap w) n = (wd, h1)" by (cases "kmalloc k (kheap w) n")
  obtain unc bs where cu: "copy_from_user k (user w) buf n = (unc, bs)"
    by (cases "copy_from_user k (user w) buf n")
  have len: "length bs = unat n"
    using kok cu by (auto simp: kernel_ok_def user_copy_ok_def)
  show ?thesis
  proof (cases "wd = NULL")
    case True
    then have "h1 = kheap w"
      using kok dev_state_mem_ok [OF st] km by (auto simp: kernel_ok_def kmalloc_ok_def)
    then show ?thesis using True by (simp add: aesd_write_def km)
  next
    case False
    obtain h2 where h2: "mem_write h1 wd 0 bs = Some h2" "h2(wd := None) = kheap w"
      using scratch_copy [OF kok st km False len] by blast
    have "kfree_in k wd (w\<lparr>kheap := h2\<rparr>) = w"
      using kok h2(2) by (simp add: kfree_in_def kernel_ok_def kfree_ok_def)
    then show ?thesis
      using False fil held by (simp add: aesd_write_def km cu h2(1) mutex_lock_held Let_def)
  qed
qed

lemma aesd_read_held:
  "private_data filp = Aesd_device \<Longrightarrow> lock (device w) \<Longrightarrow>
     aesd_read k filp buf n pos w = Blocked"
  by (simp add: aesd_read_def mutex_lock_held)

lemma file_offset_world:
  assumes "private_data filp = Aesd_device"
  shows "aesd_file_offset oobe filp cmd off w = Blocked \<and> lock (device w) \<or>
     (\<exists>r p. aesd_file_offset oobe filp cmd off w = Ret (r, filp\<lparr>f_pos := p\<rparr>, w) \<and>
        \<not> lock (device w))"
proof (cases "lock (device w)")
  case True
  then show ?thesis using assms by (simp add: aesd_file_offset_def mutex_lock_held)
next
  case False
  then show ?thesis using assms False
    by (auto simp: aesd_file_offset_def mutex_lock_free unlock_lock Let_def)
qed

lemma ioctl_world:
  assumes "private_data filp = Aesd_device"
  shows "aesd_ioctl k oobe filp cmd arg w = Blocked \<and> lock (device w) \<or>
     (\<exists>r p. aesd_ioctl k oobe filp cmd arg w = Ret (r, filp\<lparr>f_pos := p\<rparr>, w))"
proof -
  obtain u bs where cu: "copy_from_user k (user w) arg 8 = (u, bs)"
    by (cases "copy_from_user k (user w) arg 8")
  show ?thesis
    using file_offset_world [OF assms, of oobe "write_cmd (seekto_of_bytes bs)"
        "write_cmd_offset (seekto_of_bytes bs)" w]
    by (auto simp: aesd_ioctl_def cu)
qed

lemma llseek_world:
  assumes "private_data filp = Aesd_device"
  shows "aesd_llseek k filp off whence w = Blocked \<and> lock (device w) \<or>
     \<not> lock (device w) \<and>
     (\<exists>r p b. aesd_llseek k filp off whence w = Ret (r, filp\<lparr>f_pos := p\<rparr>, set_lock b w))"
proof (cases "lock (device w)")
  case True
  then show ?thesis using assms by (simp add: aesd_llseek_def mutex_lock_held)
next
  case False
  obtain r p where "fixed_size_llseek k (f_pos filp) off whence (total_size (ring_of w)) = (r, p)"
    by (cases "fixed_size_llseek k (f_pos filp) off whence (total_size (ring_of w))")
  then have "aesd_llseek k filp off whence w =
      (if sint r < 0 then Ret (- EINVAL, filp\<lparr>f_pos := p\<rparr>, set_lock True w)
       else Ret (r, filp\<lparr>f_pos := r\<rparr>, set_lock False w))"
    using assms False
    by (simp add: aesd_llseek_def mutex_lock_free Let_def mutex_unlock_def) (simp add: set_lock_def)
  then show ?thesis using False by auto
qed

subsection \<open>Every call is a step of the log\<close>

lemma log_step_write:
  assumes p: "p = Some q \<or> p = None" and q: "p = Some q \<Longrightarrow> pend' = q"
  shows "newline \<notin> set bs \<Longrightarrow> log_step (xs, p) (xs, Some (pend' @ first_packet bs))"
    and "newline \<in> set bs \<Longrightarrow> log_step (xs, p) (push xs (pend' @ first_packet bs), Some [])"
proof -
  assume "newline \<notin> set bs"
  moreover from this have "first_packet bs = bs" by (simp add: first_packet_def)
  ultimately show "log_step (xs, p) (xs, Some (pend' @ first_packet bs))"
    using p q log_append log_append_lost by auto
next
  assume "newline \<in> set bs"
  then obtain ys where "first_packet bs = ys @ [newline]" and "newline \<notin> set ys"
    by (rule first_packet_newline)
  then show "log_step (xs, p) (push xs (pend' @ first_packet bs), Some [])"
    using p q log_commit log_commit_lost by auto
qed

text \<open>What a write has done, as a step of the log: a failure, or the first packet at the end.\<close>

lemma write_effect_log:
  assumes eff: "write_effect k w xs pend bs pos r pos' w'" and p: "p = None \<or> p = Some pend"
  obtains (failed) l where "r \<in> {- ENOMEM, - EFAULT}" "fst l = xs" "log_step (xs, p) l" "world_log k w' l"
  | (stored) l where "r = of_nat (length (first_packet bs))" "length (first_packet bs) < 2 ^ 63"
      "l = (if newline \<in> set bs then (push xs (pend @ first_packet bs), Some []) else (xs, Some (pend @ first_packet bs)))"
      "log_step (xs, p) l" "world_log k w' l"
proof (cases "r \<in> {- ENOMEM, - EFAULT} \<and> dev_state k w' xs pend")
  case True
  have "log_step (xs, p) (xs, if poisoned w' then None else Some pend)"
    using p log_lose log_keep log_append_lost [of "[]" xs pend] by auto
  then show ?thesis using failed world_log_intro True by (metis fst_conv)
next
  case False
  let ?l = "if newline \<in> set bs then (push xs (pend @ first_packet bs), Some []) else (xs, Some (pend @ first_packet bs))"
  have r: "r = of_nat (length (first_packet bs))" "length (first_packet bs) < 2 ^ 63"
    and rep: "if newline \<in> set bs then dev_rep k w' (push xs (pend @ first_packet bs)) []
      else dev_rep k w' xs (pend @ first_packet bs)"
    using eff False unfolding write_effect_def by blast+
  have p': "p = Some pend \<or> p = None" "\<And>q. p = Some q \<Longrightarrow> pend = q" using p by auto
  have "log_step (xs, p) ?l" using log_step_write [OF p'] by (cases "newline \<in> set bs") simp_all
  moreover have "world_log k w' ?l" using rep world_log_rep by (cases "newline \<in> set bs") simp_all
  ultimately show ?thesis using stored r by blast
qed

lemma write_refines:
  assumes kok: "kernel_ok k" and abs: "world_log k w (xs, p)" and fil: "private_data filp = Aesd_device"
  shows "aesd_write k oob filp buf n pos w \<noteq> Undef"
    and "aesd_write k oob filp buf n pos w = Ret (r, pos', w') \<Longrightarrow>
      \<exists>l'. log_step (xs, p) l' \<and> world_log k w' l'"
proof -
  obtain pend where st: "dev_state k w xs pend" and q: "\<And>q. p = Some q \<Longrightarrow> pend = q"
    and lost: "p = None \<longleftrightarrow> poisoned w"
    using world_log_state [OF abs] by blast
  have all: "aesd_write k oob filp buf n pos w \<noteq> Undef \<and>
    (\<forall>r pos' w'. aesd_write k oob filp buf n pos w = Ret (r, pos', w') \<longrightarrow>
      (\<exists>l'. log_step (xs, p) l' \<and> world_log k w' l'))"
  proof (cases "lock (device w)")
    case True
    moreover have "\<exists>l'. log_step (xs, p) l' \<and> world_log k w l'" using abs log_keep by blast
    ultimately show ?thesis using aesd_write_held [OF kok st fil True, of oob buf n pos]
      by (auto simp del: split_paired_Ex)
  next
    case False
    obtain r pos' w' pend' where res: "aesd_write k oob filp buf n pos w = Ret (r, pos', w')"
      and pe: "\<not> poisoned w \<longrightarrow> pend' = pend"
      and eff: "write_effect k w xs pend' (get_user (user w) buf (unat n)) pos r pos' w'"
      using aesd_write_effect [OF kok st fil False, of oob buf n pos] by blast
    have "p = None \<or> p = Some pend'" using pe q lost by (cases p) simp_all
    from write_effect_log [OF eff this] have "\<exists>l'. log_step (xs, p) l' \<and> world_log k w' l'" by metis
    then show ?thesis using res by simp
  qed
  show "aesd_write k oob filp buf n pos w \<noteq> Undef" using all by blast
  show "aesd_write k oob filp buf n pos w = Ret (r, pos', w') \<Longrightarrow>
      \<exists>l'. log_step (xs, p) l' \<and> world_log k w' l'"
    using all by blast
qed

lemma world_log_rep_log: "world_log k w (xs, p) \<Longrightarrow> log_rep k w xs"
  by (cases p) (auto simp: world_log_def dev_rep_def dev_state_def)

lemma read_refines:
  assumes kok: "kernel_ok k" and abs: "world_log k w (xs, p)" and fil: "private_data filp = Aesd_device"
  shows "aesd_read k filp buf n pos w \<noteq> Undef"
    and "aesd_read k filp buf n pos w = Ret (r, pos', w') \<Longrightarrow> world_log k w' (xs, p)"
proof -
  have all: "aesd_read k filp buf n pos w = Blocked \<or>
    (\<exists>r pos' m. aesd_read k filp buf n pos w = Ret (r, pos', w\<lparr>user := m\<rparr>))"
  proof (cases "lock (device w)")
    case True
    then show ?thesis using fil by (simp add: aesd_read_held)
  next
    case False
    from aesd_read_effect [OF kok world_log_rep_log [OF abs] fil False, of buf n pos]
    show ?thesis by (auto simp: read_effect_def Let_def)
  qed
  show "aesd_read k filp buf n pos w \<noteq> Undef" using all by auto
  show "aesd_read k filp buf n pos w = Ret (r, pos', w') \<Longrightarrow> world_log k w' (xs, p)"
    using all abs by auto
qed

text \<open>A call that is defined and, when it returns, has made a step of the log.\<close>

definition keeps_log :: "kernel \<Rightarrow> log \<Rightarrow> (ssize_t \<times> system) outcome \<Rightarrow> bool" where
  "keeps_log k l x \<longleftrightarrow> x \<noteq> Undef \<and>
     (\<forall>r s'. x = Ret (r, s') \<longrightarrow> (\<exists>l'. log_step l l' \<and> log_abs k s' l'))"

lemma keeps_log_same: "log_abs k s l \<Longrightarrow> keeps_log k l (Ret (r, s))"
  by (cases l) (auto simp: keeps_log_def intro: log_keep)

lemma keeps_log_file:
  "log_abs k s l \<Longrightarrow> (\<And>filp. files s fd = Some filp \<Longrightarrow> keeps_log k l (f filp)) \<Longrightarrow>
     keeps_log k l (with_file s fd f)"
  by (cases "files s fd") (simp_all add: with_file_def keeps_log_same)

lemma keeps_log_world:
  assumes "m \<noteq> Undef" and "\<And>r x w. m = Ret (r, x, w) \<Longrightarrow> \<exists>l'. log_step l l' \<and> log_abs k (put_file fd (g x) w s) l'"
  shows "keeps_log k l (obind m (\<lambda>(r, x, w). Ret (r, put_file fd (g x) w s)))"
  using assms by (cases m) (auto simp: keeps_log_def)

text \<open>Every call but \<open>write\<close> leaves the log as it is.\<close>

definition same_log :: "kernel \<Rightarrow> log \<Rightarrow> (ssize_t \<times> system) outcome \<Rightarrow> bool" where
  "same_log k l x \<longleftrightarrow> x \<noteq> Undef \<and> (\<forall>r s'. x = Ret (r, s') \<longrightarrow> log_abs k s' l)"

lemma same_log_Ret [simp]: "same_log k l (Ret (r, s)) \<longleftrightarrow> log_abs k s l"
  by (simp add: same_log_def)

lemma same_log_keeps: "same_log k l x \<Longrightarrow> keeps_log k l x"
  by (cases l) (auto simp: same_log_def keeps_log_def intro: log_keep)

lemma same_log_file:
  "log_abs k s l \<Longrightarrow> (\<And>filp. files s fd = Some filp \<Longrightarrow> same_log k l (f filp)) \<Longrightarrow> same_log k l (with_file s fd f)"
  by (cases "files s fd") (simp_all add: with_file_def)

lemma same_log_world:
  assumes "m \<noteq> Undef" and "\<And>r x w. m = Ret (r, x, w) \<Longrightarrow> log_abs k (put_file fd (g x) w s) l"
  shows "same_log k l (obind m (\<lambda>(r, x, w). Ret (r, put_file fd (g x) w s)))"
  using assms by (cases m) (auto simp: same_log_def)

lemma call_same_log:
  assumes kok: "kernel_ok k" and abs: "log_abs k s l" and c: "\<And>fd buf n. c \<noteq> Write fd buf n"
  shows "same_log k l (sys_call (aesd_fops k oob oobe) c s)"
proof -
  obtain xs p where l: "l = (xs, p)" by (cases l)
  have wl: "world_log k (sworld s) (xs, p)" using abs by (simp add: log_abs_def l)
  note fil = log_abs_files [OF abs] and put = log_abs_put_file [OF abs]
  have pos: "private_data (filp\<lparr>f_pos := q\<rparr>) = Aesd_device" if "files s fd = Some filp" for fd filp q
    using fil [OF that] by simp
  show ?thesis
  proof (cases c)
    case (Open fd writes)
    then show ?thesis using put [OF _ wl [folded l]] by (simp add: aesd_fops_def aesd_open_def aesd_inode_def)
  next
    case (Close fd)
    have "log_abs k (s\<lparr>files := (files s)(fd := None)\<rparr>) l" using abs by (auto simp: log_abs_def)
    then show ?thesis using Close abs
      by (auto simp: aesd_fops_def aesd_release_def intro!: same_log_file)
  next
    case (Read fd buf n)
    have "same_log k l (obind (aesd_read k filp buf n (f_pos filp) (sworld s))
        (\<lambda>(r, pos, w). Ret (r, put_file fd (filp\<lparr>f_pos := pos\<rparr>) w s)))" if f: "files s fd = Some filp" for filp
      using read_refines [OF kok wl fil, OF f] put [OF pos [OF f]] by (intro same_log_world) (auto simp: l)
    then show ?thesis using Read abs by (auto simp: aesd_fops_def intro!: same_log_file)
  next
    case (Llseek fd off whence)
    have "same_log k l (obind (aesd_llseek k filp off whence (sworld s))
        (\<lambda>(r, filp, w). Ret (r, put_file fd filp w s)))" if f: "files s fd = Some filp" for filp
      using llseek_world [OF fil [OF f], of k off whence "sworld s"] put [OF pos [OF f]] wl
      by (intro same_log_world) (auto simp: l)
    then show ?thesis using Llseek abs by (auto simp: aesd_fops_def intro!: same_log_file)
  next
    case (Ioctl fd cmd arg)
    have "same_log k l (obind (aesd_ioctl k oobe filp cmd arg (sworld s))
        (\<lambda>(r, filp, w). Ret (r, put_file fd filp w s)))" if f: "files s fd = Some filp" for filp
      using ioctl_world [OF fil [OF f], of k oobe cmd arg "sworld s"] put [OF pos [OF f]] wl
      by (intro same_log_world) (auto simp: l)
    then show ?thesis using Ioctl abs by (auto simp: aesd_fops_def intro!: same_log_file)
  next
    case (Store a bs)
    then show ?thesis using abs by (simp add: log_abs_def l)
  qed (use c in blast)
qed

lemma call_keeps_log:
  assumes kok: "kernel_ok k" and abs: "log_abs k s l"
  shows "keeps_log k l (sys_call (aesd_fops k oob oobe) c s)"
proof (cases "\<exists>fd buf n. c = Write fd buf n")
  case False
  then show ?thesis by (intro same_log_keeps call_same_log [OF kok abs]) blast
next
  case True
  then obtain fd buf n where c: "c = Write fd buf n" by blast
  obtain xs p where l: "l = (xs, p)" by (cases l)
  have wl: "world_log k (sworld s) (xs, p)" using abs by (simp add: log_abs_def l)
  note fil = log_abs_files [OF abs]
  note wr = write_refines [OF kok wl fil]
  have "keeps_log k l (obind (aesd_write k oob filp buf n (f_pos filp) (sworld s))
      (\<lambda>(r, pos, w). Ret (r, put_file fd (filp\<lparr>f_pos := pos\<rparr>) w s)))" if f: "files s fd = Some filp" for filp
  proof (rule keeps_log_world)
    show "aesd_write k oob filp buf n (f_pos filp) (sworld s) \<noteq> Undef" by (rule wr(1) [OF f])
    have "private_data (filp\<lparr>f_pos := q\<rparr>) = Aesd_device" for q using fil [OF f] by simp
    then show "\<exists>l'. log_step l l' \<and> log_abs k (put_file fd (filp\<lparr>f_pos := q\<rparr>) w s) l'"
      if "aesd_write k oob filp buf n (f_pos filp) (sworld s) = Ret (r, q, w)" for r q w
      using wr(2) [OF f that] log_abs_put_file [OF abs] unfolding l by blast
  qed
  then show ?thesis using c abs by (auto simp: aesd_fops_def intro!: keeps_log_file intro: keeps_log_same)
qed

lemma call_refines:
  assumes "kernel_ok k" and "log_abs k s l"
  shows "sys_call (aesd_fops k oob oobe) c s \<noteq> Undef \<and>
    (\<forall>r s'. sys_call (aesd_fops k oob oobe) c s = Ret (r, s') \<longrightarrow>
      (\<exists>l'. log_step l l' \<and> log_abs k s' l'))"
  using call_keeps_log [OF assms] unfolding keeps_log_def .

subsection \<open>Runs\<close>

text \<open>The system just after the module is loaded: no open file, no packet.\<close>

definition loaded :: "kernel \<Rightarrow> system \<Rightarrow> bool" where
  "loaded k s \<longleftrightarrow> device (sworld s) = zero_dev \<and> mem_ok k (kheap (sworld s)) \<and> files s = Map.empty"

lemma loaded_log: "loaded k s \<Longrightarrow> log_abs k s ([], Some [])"
  using zero_dev_rep(1) [of "sworld s" k] by (simp add: loaded_def log_abs_def world_log_def)

lemma step_refines:
  assumes "kernel_ok k" and "log_abs k s l" and "sys_step k s s'"
  shows "\<exists>l'. log_step l l' \<and> log_abs k s' l'"
  using assms(3) call_refines [OF assms(1,2)] by (auto elim!: sys_stepE)

lemma run_refines:
  assumes "kernel_ok k" and "(sys_step k)\<^sup>*\<^sup>* s s'" and "log_abs k s l"
  shows "\<exists>l'. log_step\<^sup>*\<^sup>* l l' \<and> log_abs k s' l'"
  using assms(2,3)
proof (induction rule: rtranclp_induct)
  case base
  then show ?case by blast
next
  case (step t u)
  then obtain l' where "log_step\<^sup>*\<^sup>* l l'" and "log_abs k t l'" by blast
  with step_refines [OF assms(1) _ step.hyps(2)] show ?case
    by (meson rtranclp.rtrancl_into_rtrancl)
qed

text \<open>A log that has never lost its unfinished line holds lines only.\<close>

definition is_line :: "byte list \<Rightarrow> bool" where
  "is_line bs \<longleftrightarrow> (\<exists>ys. bs = ys @ [newline] \<and> newline \<notin> set ys)"

definition lines_ok :: "byte list list \<Rightarrow> byte list \<Rightarrow> bool" where
  "lines_ok xs pend \<longleftrightarrow> length xs \<le> 10 \<and> (\<forall>x \<in> set xs. is_line x) \<and> newline \<notin> set pend"

lemma push_lines: "lines_ok xs pend \<Longrightarrow> is_line x \<Longrightarrow> lines_ok (push xs x) []"
  using set_push [of xs x] by (auto simp: lines_ok_def length_push)

lemma log_step_lines:
  assumes "log_step (xs, Some p) (ys, Some q)" and "lines_ok xs p"
  shows "lines_ok ys q"
  using assms
proof (cases rule: log_step.cases)
  case (log_commit bs)
  have "is_line (p @ bs @ [newline])"
    using log_commit assms(2) unfolding is_line_def lines_ok_def
    by (intro exI [of _ "p @ bs"]) simp
  then show ?thesis using push_lines [OF assms(2)] log_commit by simp
qed (auto simp: lines_ok_def)

lemma sound_run_lines:
  assumes kok: "kernel_ok k" and run: "sound_run k s t"
    and start: "log_abs k s (xs, Some p)" and ok: "lines_ok xs p"
  shows "\<exists>ys q. log_abs k t (ys, Some q) \<and> lines_ok ys q"
  using run start ok
proof (induction rule: sound_run.induct)
  case (sound_refl s)
  then show ?case by blast
next
  case (sound_step s t u)
  then obtain ys q where abs: "log_abs k t (ys, Some q)" and lines: "lines_ok ys q" by blast
  obtain zs q' where st: "log_step (ys, Some q) (zs, q')" and abs': "log_abs k u (zs, q')"
    using step_refines [OF kok abs sound_step.hyps(2)] by auto
  obtain q'' where "q' = Some q''"
    using abs' sound_step.hyps(3) by (cases q') (auto simp: log_abs_def world_log_def)
  then show ?case using st abs' log_step_lines [OF _ lines] by blast
qed

subsection \<open>A device whose mutex is never released\<close>

lemma world_same [simp, intro]: "\<exists>m. w = w\<lparr>user := m\<rparr>"
  by (rule exI [of _ "user w"]) simp

definition keeps_device :: "world \<Rightarrow> (ssize_t \<times> system) outcome \<Rightarrow> bool" where
  "keeps_device w x \<longleftrightarrow> (\<forall>r s'. x = Ret (r, s') \<longrightarrow> (\<exists>m. sworld s' = w\<lparr>user := m\<rparr>))"

lemma keeps_device_Ret [simp]: "keeps_device w (Ret (r, s)) \<longleftrightarrow> (\<exists>m. sworld s = w\<lparr>user := m\<rparr>)"
  by (simp add: keeps_device_def)

lemma keeps_device_file:
  "(\<And>filp. files s fd = Some filp \<Longrightarrow> keeps_device (sworld s) (f filp)) \<Longrightarrow>
     keeps_device (sworld s) (with_file s fd f)"
  by (cases "files s fd") (simp_all add: with_file_def)

lemma keeps_device_world:
  assumes "\<And>r x w'. m = Ret (r, x, w') \<Longrightarrow> w' = w"
  shows "keeps_device w (obind m (\<lambda>(r, x, w). Ret (r, put_file fd (g x) w s)))"
  using assms by (cases m) (auto simp: keeps_device_def put_file_def)

lemma held_call:
  assumes kok: "kernel_ok k" and abs: "log_abs k s (xs, p)" and held: "lock (device (sworld s))"
  shows "keeps_device (sworld s) (sys_call (aesd_fops k oob oobe) c s)"
proof -
  obtain pend where st: "dev_state k (sworld s) xs pend"
    using abs unfolding log_abs_def by (blast elim: world_log_state)
  note fil = log_abs_files [OF abs]
  show ?thesis
  proof (cases c)
    case (Open fd writes)
    then show ?thesis by (simp add: aesd_fops_def aesd_open_def put_file_def)
  next
    case (Close fd)
    then show ?thesis by (auto simp: aesd_fops_def aesd_release_def intro!: keeps_device_file)
  next
    case (Read fd buf n)
    then show ?thesis using aesd_read_held [OF _ held] fil
      by (auto simp: aesd_fops_def intro!: keeps_device_file keeps_device_world)
  next
    case (Write fd buf n)
    have "w' = sworld s" if "files s fd = Some filp"
      "aesd_write k oob filp buf n (f_pos filp) (sworld s) = Ret (r, q, w')" for filp r q w'
      using aesd_write_held [OF kok st fil [OF that(1)] held, of oob buf n "f_pos filp"] that(2) by auto
    then show ?thesis using Write
      by (auto simp: aesd_fops_def intro!: keeps_device_file keeps_device_world)
  next
    case (Llseek fd off whence)
    have "w' = sworld s" if "files s fd = Some filp"
      "aesd_llseek k filp off whence (sworld s) = Ret (r, x, w')" for filp r x w'
      using llseek_world [OF fil [OF that(1)], of k off whence "sworld s"] that(2) held by auto
    then show ?thesis using Llseek
      by (auto simp: aesd_fops_def intro!: keeps_device_file keeps_device_world [where g = "\<lambda>x. x"])
  next
    case (Ioctl fd cmd arg)
    have "w' = sworld s" if "files s fd = Some filp"
      "aesd_ioctl k oobe filp cmd arg (sworld s) = Ret (r, x, w')" for filp r x w'
      using ioctl_world [OF fil [OF that(1)], of k oobe cmd arg "sworld s"] that(2) by auto
    then show ?thesis using Ioctl
      by (auto simp: aesd_fops_def intro!: keeps_device_file keeps_device_world [where g = "\<lambda>x. x"])
  next
    case (Store a bs)
    then show ?thesis by (simp, blast)
  qed
qed

lemma held_step:
  assumes kok: "kernel_ok k" and abs: "log_abs k s (xs, p)" and held: "lock (device (sworld s))"
    and step: "sys_step k s s'"
  shows "device (sworld s') = device (sworld s)" and "kheap (sworld s') = kheap (sworld s)"
    and "log_abs k s' (xs, p)"
proof -
  obtain oob oobe c r where call: "sys_call (aesd_fops k oob oobe) c s = Ret (r, s')"
    using step by (rule sys_stepE)
  obtain m where m: "sworld s' = (sworld s)\<lparr>user := m\<rparr>"
    using held_call [OF kok abs held, of oob oobe c] call by (auto simp: keeps_device_def)
  obtain l' where "log_abs k s' l'" using call_refines [OF kok abs, of oob oobe c] call by blast
  then show "log_abs k s' (xs, p)" using m abs by (simp add: log_abs_def)
  show "device (sworld s') = device (sworld s)" "kheap (sworld s') = kheap (sworld s)"
    by (simp_all add: m)
qed

lemma held_run:
  assumes kok: "kernel_ok k" and abs: "log_abs k s (xs, p)" and held: "lock (device (sworld s))"
    and run: "(sys_step k)\<^sup>*\<^sup>* s s'"
  shows "device (sworld s') = device (sworld s) \<and> kheap (sworld s') = kheap (sworld s) \<and>
    log_abs k s' (xs, p)"
  using run
proof (induction rule: rtranclp_induct)
  case base
  then show ?case using abs by simp
next
  case (step t u)
  then have "log_abs k t (xs, p)" and "lock (device (sworld t))" using held by simp_all
  from held_step [OF kok this step.hyps(2)] step.IH show ?case by simp
qed

end
