(* ===== verification/Device_History.thy ===== *)
theory Device_History
  imports Device_System
begin

text \<open>
  What a sequence of writes leaves in the device: the bytes the writes have accepted, cut into
  lines, of which the ring keeps the last ten, and the unfinished line. The ring of lines is a
  second instance of the contract of \<open>Log_Interface\<close>.
\<close>

subsection \<open>Lines\<close>

text \<open>The complete lines of \<open>acc @ bs\<close>, and the rest; \<open>acc\<close> is the line read so far.\<close>

fun split_lines :: "byte list \<Rightarrow> byte list \<Rightarrow> byte list list \<times> byte list" where
  "split_lines acc [] = ([], acc)"
| "split_lines acc (b # bs) =
     (if b = newline then (let (ls, rest) = split_lines [] bs in ((acc @ [b]) # ls, rest))
      else split_lines (acc @ [b]) bs)"

lemma split_lines_append:
  "split_lines acc (xs @ ys) =
     (fst (split_lines acc xs) @ fst (split_lines (snd (split_lines acc xs)) ys),
      snd (split_lines (snd (split_lines acc xs)) ys))"
  by (induction acc xs rule: split_lines.induct) (auto simp: Let_def split: prod.splits)

lemma split_lines_part: "newline \<notin> set bs \<Longrightarrow> split_lines acc bs = ([], acc @ bs)"
  by (induction acc bs rule: split_lines.induct) auto

lemma split_lines_line: "newline \<notin> set bs \<Longrightarrow> split_lines acc (bs @ [newline]) = ([acc @ bs @ [newline]], [])"
  by (simp add: split_lines_append split_lines_part)

lemma split_lines_concat: "concat (fst (split_lines acc bs)) @ snd (split_lines acc bs) = acc @ bs"
  by (induction acc bs rule: split_lines.induct) (auto simp: Let_def split: prod.splits)

lemma split_lines_first_packet:
  "split_lines acc (first_packet bs) =
     (if newline \<in> set bs then ([acc @ first_packet bs], []) else ([], acc @ first_packet bs))"
proof (cases "newline \<in> set bs")
  case True
  then obtain ys where "first_packet bs = ys @ [newline]" and "newline \<notin> set ys"
    by (rule first_packet_newline)
  then show ?thesis using True by (simp add: split_lines_line)
next
  case False
  then show ?thesis by (simp add: first_packet_def split_lines_part)
qed

definition keep_lines :: "byte list list \<Rightarrow> byte list list \<Rightarrow> byte list list" where
  "keep_lines ls xs = fold (\<lambda>x l. push l x) ls xs"

interpretation lines: recent_log "[] :: byte list list" "\<lambda>x l. push l x" "\<lambda>x. x" "\<lambda>l. l"
    "\<lambda>_. True" AESDCHAR_MAX_WRITE_OPERATIONS_SUPPORTED
  by unfold_locales (simp_all add: push_def max_ops)

lemma keep_lines_empty: "keep_lines ls [] = drop (length ls - 10) ls"
  using lines.run_items [of ls] by (simp add: keep_lines_def max_ops)

lemma keep_lines_append: "keep_lines (ks @ ls) xs = keep_lines ls (keep_lines ks xs)"
  by (simp add: keep_lines_def)

subsection \<open>Sequences of writes\<close>

text \<open>
  The writes of one user of an open file, each with what it returned and the bytes it was given.
\<close>

fun run_writes ::
  "kernel \<Rightarrow> (nat \<Rightarrow> size_t) \<Rightarrow> open_file \<Rightarrow> (nat \<times> size_t) list \<Rightarrow> world
     \<Rightarrow> ((ssize_t \<times> byte list) list \<times> world) outcome"
where
  "run_writes k oob filp [] w = Ret ([], w)"
| "run_writes k oob filp ((buf, n) # cs) w =
     obind (aesd_write k oob filp buf n (f_pos filp) w) (\<lambda>(r, pos, w').
       obind (run_writes k oob (filp\<lparr>f_pos := pos\<rparr>) cs w') (\<lambda>(rs, w'').
         Ret ((r, get_user (user w) buf (unat n)) # rs, w'')))"

definition accepted :: "ssize_t \<times> byte list \<Rightarrow> byte list" where
  "accepted x = (if sint (fst x) < 0 then [] else take (unat (fst x)) (snd x))"

lemma accepted_count:
  assumes "n < 2 ^ 63"
  shows "accepted (of_nat n, bs) = take n bs"
  using assms by (simp add: accepted_def sint_of_nat64 unat_of_nat)

lemma accepted_error: "r \<in> {- ENOMEM, - EFAULT} \<Longrightarrow> accepted (r, bs) = []"
  by (auto simp: accepted_def)

lemma write_effect_lines:
  assumes eff: "write_effect k w xs pend bs pos r pos' w'"
  shows "dev_state k w' (keep_lines (fst (split_lines pend (accepted (r, bs)))) xs)
      (snd (split_lines pend (accepted (r, bs)))) \<and>
    (\<not> poisoned w \<longrightarrow> r \<noteq> - ENOMEM \<longrightarrow> \<not> poisoned w')"
  using eff unfolding write_effect_def
proof
  assume "r \<in> {- ENOMEM, - EFAULT} \<and> pos' = pos \<and> dev_state k w' xs pend \<and>
    (poisoned w' \<longrightarrow> poisoned w \<or> r = - ENOMEM)"
  then show ?thesis by (auto simp: accepted_error keep_lines_def)
next
  assume *: "r = of_nat (length (first_packet bs)) \<and> length (first_packet bs) < 2 ^ 63 \<and> pos' = pos + r \<and>
    (if newline \<in> set bs then dev_rep k w' (push xs (pend @ first_packet bs)) []
     else dev_rep k w' xs (pend @ first_packet bs))"
  then have "accepted (r, bs) = first_packet bs" by (simp add: accepted_count first_packet_prefix)
  then show ?thesis using * dev_rep_state dev_rep_not_poisoned
    by (auto simp: split_lines_first_packet keep_lines_def split: if_splits)
qed

lemma run_writes_effect:
  assumes kok: "kernel_ok k"
  shows "dev_state k w xs pend \<Longrightarrow> private_data filp = Aesd_device \<Longrightarrow> \<not> lock (device w) \<Longrightarrow>
    \<exists>rs w'. run_writes k oob filp cs w = Ret (rs, w') \<and> length rs = length cs \<and> \<not> lock (device w') \<and>
      (\<not> poisoned w \<longrightarrow> - ENOMEM \<notin> fst ` set rs \<longrightarrow>
        (let (ls, rest) = split_lines pend (concat (map accepted rs))
         in dev_rep k w' (keep_lines ls xs) rest))"
proof (induction cs arbitrary: filp w xs pend)
  case Nil
  then show ?case by (auto simp: keep_lines_def dev_state_iff_rep)
next
  case (Cons c cs)
  obtain buf n where c: "c = (buf, n)" by (cases c)
  let ?bs = "get_user (user w) buf (unat n)"
  obtain r pos w1 pend1 where wr: "aesd_write k oob filp buf n (f_pos filp) w = Ret (r, pos, w1)"
    and free: "\<not> lock (device w1)" and p1: "\<not> poisoned w \<longrightarrow> pend1 = pend"
    and eff: "write_effect k w xs pend1 ?bs (f_pos filp) r pos w1"
    using aesd_write_effect [OF kok Cons.prems, of oob buf n "f_pos filp"] by blast
  let ?ls = "fst (split_lines pend1 (accepted (r, ?bs)))"
  let ?rest = "snd (split_lines pend1 (accepted (r, ?bs)))"
  have one: "dev_state k w1 (keep_lines ?ls xs) ?rest \<and>
      (\<not> poisoned w \<longrightarrow> r \<noteq> - ENOMEM \<longrightarrow> \<not> poisoned w1)"
    by (rule write_effect_lines [OF eff])
  obtain rs w2 where rest: "run_writes k oob (filp\<lparr>f_pos := pos\<rparr>) cs w1 = Ret (rs, w2)"
    and len: "length rs = length cs" and free2: "\<not> lock (device w2)"
    and ih: "\<not> poisoned w1 \<longrightarrow> - ENOMEM \<notin> fst ` set rs \<longrightarrow>
      (let (ls, rest) = split_lines ?rest (concat (map accepted rs))
       in dev_rep k w2 (keep_lines ls (keep_lines ?ls xs)) rest)"
    using Cons.IH [OF conjunct1 [OF one] _ free, of "filp\<lparr>f_pos := pos\<rparr>"] Cons.prems(2) by auto
  have "run_writes k oob filp (c # cs) w = Ret ((r, ?bs) # rs, w2)" by (simp add: c wr rest)
  moreover have "let (ls, rest) = split_lines pend (concat (map accepted ((r, ?bs) # rs)))
       in dev_rep k w2 (keep_lines ls xs) rest"
    if "\<not> poisoned w" and "- ENOMEM \<notin> fst ` set ((r, ?bs) # rs)"
  proof -
    have "pend1 = pend" and "\<not> poisoned w1" using that p1 one by auto
    then show ?thesis using ih that
      by (simp add: split_lines_append keep_lines_append case_prod_beta Let_def)
  qed
  ultimately show ?case using len free2 by (intro exI conjI) auto
qed

end
