(* ===== verification/Example_Device.thy ===== *)
theory Example_Device
  imports Example_Kernel Device_History
begin

text \<open>
  Concrete devices for the witnesses: the device after loading, one with pending bytes, one that
  has lost its write buffer, one whose ring is full, and a kernel that keeps the laws and never
  grows a block.
\<close>

definition tight_kernel :: kernel where
  "tight_kernel = example_kernel
     \<lparr>krealloc := \<lambda>h q n. if q = NULL then example_krealloc h q n else (NULL, h)\<rparr>"

lemma tight_kernel_ok: "kernel_ok tight_kernel"
proof -
  have *: "kmalloc tight_kernel = kmalloc example_kernel" "kfree tight_kernel = kfree example_kernel"
    "zero_size_ptr tight_kernel = zero_size_ptr example_kernel"
    "copy_to_user tight_kernel = copy_to_user example_kernel"
    "copy_from_user tight_kernel = copy_from_user example_kernel"
    "fixed_size_llseek tight_kernel = fixed_size_llseek example_kernel"
    "ioc_type tight_kernel = ioc_type example_kernel" "ioc_nr tight_kernel = ioc_nr example_kernel"
    "iowr tight_kernel = iowr example_kernel"
    by (simp_all add: tight_kernel_def)
  have mem: "mem_ok tight_kernel = mem_ok example_kernel"
    by (intro ext) (simp only: mem_ok_def *)
  have kr: "krealloc_ok example_kernel" using example_kernel_ok by (simp add: kernel_ok_def)
  have "krealloc_ok tight_kernel"
    unfolding krealloc_ok_def mem *
  proof (intro allI impI)
    fix h q n p h'
    assume ok: "mem_ok example_kernel h" "n \<noteq> 0" "q = NULL \<or> h q \<noteq> None"
      and res: "krealloc tight_kernel h q n = (p, h')"
    let ?goal = "\<lambda>p h'. mem_ok example_kernel h' \<and> (p = NULL \<longrightarrow> h' = h) \<and>
      (p \<noteq> NULL \<longrightarrow> p \<noteq> zero_size_ptr example_kernel \<and> (h(q := None)) p = None \<and>
        (\<exists>blk. length blk = unat n \<and> h' = (h(q := None))(p \<mapsto> blk) \<and>
           (\<forall>old. h q = Some old \<longrightarrow> take (length old) blk = take (unat n) old)))"
    show "?goal p h'"
    proof (cases "q = NULL")
      case True
      then have "krealloc example_kernel h q n = (p, h')" using res by (simp add: tight_kernel_def)
      from kr [unfolded krealloc_ok_def, rule_format, OF ok this] show ?thesis by blast
    next
      case False
      then have "p = NULL" and "h' = h" using res by (simp_all add: tight_kernel_def)
      then show ?thesis using ok(1) by blast
    qed
  qed
  moreover have "kmalloc_ok tight_kernel = kmalloc_ok example_kernel"
    "kfree_ok tight_kernel = kfree_ok example_kernel"
    "user_copy_ok tight_kernel = user_copy_ok example_kernel"
    "llseek_ok tight_kernel = llseek_ok example_kernel"
    "ioc_ok tight_kernel = ioc_ok example_kernel"
    by (simp_all only: kmalloc_ok_def kfree_ok_def user_copy_ok_def llseek_ok_def ioc_ok_def mem *)
  ultimately show ?thesis using example_kernel_ok by (simp add: kernel_ok_def)
qed

definition aesd_file :: open_file where
  "aesd_file = \<lparr>private_data = Aesd_device, f_pos = 0, can_write = True\<rparr>"

lemma aesd_file_simps [simp]: "private_data aesd_file = Aesd_device" "f_pos aesd_file = 0" "can_write aesd_file"
  by (simp_all add: aesd_file_def)

text \<open>A user whose memory holds the line "hi" at address 1000.\<close>

definition hi_user :: umem where
  "hi_user = put_user (\<lambda>_. 0) 1000 [104, 105, 10]"

definition empty_world :: world where
  "empty_world = \<lparr>device = zero_dev, kheap = Map.empty, user = hi_user\<rparr>"

lemma empty_world_rep: "dev_rep k empty_world [] []" "\<not> lock (device empty_world)"
  by (rule zero_dev_rep; simp add: empty_world_def mem_ok_empty)+

definition empty_system :: system where
  "empty_system = \<lparr>sworld = empty_world, files = Map.empty\<rparr>"

lemma empty_system_loaded: "loaded k empty_system"
  by (simp add: loaded_def empty_system_def empty_world_def mem_ok_empty)

definition opened_system :: system where
  "opened_system = \<lparr>sworld = empty_world, files = [3 \<mapsto> aesd_file]\<rparr>"

lemma open_step: "sys_step k empty_system opened_system"
  by (rule sys_step_call [where c = "Open 3 True" and r = 0 and oob = "\<lambda>_. 0" and oobe = "\<lambda>_. 0"])
    (simp add: aesd_fops_def aesd_open_def aesd_inode_def put_file_def empty_system_def
      opened_system_def aesd_file_def)

lemma open_run: "(sys_step k)\<^sup>*\<^sup>* empty_system opened_system"
  using open_step by blast

lemma opened_log: "log_abs k opened_system ([], Some [])"
  by (simp add: log_abs_def opened_system_def world_log_def empty_world_rep)

text \<open>A device with the two pending bytes "ab" in a block at address 40.\<close>

definition pending_world :: world where
  "pending_world = \<lparr>device = zero_dev\<lparr>dev_buffer := 40, buffer_size := 2\<rparr>,
     kheap = [40 \<mapsto> [97, 98]], user = hi_user\<rparr>"

lemma zero_dev_ring: "circ_buffer zero_dev = aesd_circular_buffer_init"
  by (simp add: zero_dev_def aesd_circular_buffer_init_def)

lemma pending_world_rep: "zero_size_ptr k = 16 \<Longrightarrow> dev_rep k pending_world [] [97, 98]"
  by (simp add: dev_rep_def log_rep_def pend_rep_def pending_world_def zero_dev_ring cb_inv_init
      contents_init mem_ok_def mem_total_def)

text \<open>A device that has lost a write buffer of five bytes.\<close>

definition lost_world :: world where
  "lost_world = \<lparr>device = zero_dev\<lparr>buffer_size := 5\<rparr>, kheap = Map.empty, user = hi_user\<rparr>"

lemma lost_world_state:
  "poisoned lost_world" "dev_state k lost_world [] pend" "\<not> lock (device lost_world)"
  by (simp_all add: dev_state_def poisoned_def log_rep_def lost_world_def zero_dev_ring cb_inv_init
      contents_init mem_ok_empty) (simp_all add: zero_dev_def)

text \<open>
  A device whose ring was filled with the blocks \<open>ps\<close>, which hold the lines \<open>f p\<close>: with ten
  empty lines, with two lines, and with eleven lines of growing length, the first overwritten.
\<close>

definition made_ring :: "ptr list \<Rightarrow> (ptr \<Rightarrow> byte list) \<Rightarrow> aesd_circular_buffer" where
  "made_ring ps f = fold add_op
     (map (\<lambda>p. (\<lambda>_. 0, \<lparr>buffptr = p, entry_size = of_nat (length (f p))\<rparr>)) ps)
     aesd_circular_buffer_init"

definition made_world :: "ptr list \<Rightarrow> (ptr \<Rightarrow> byte list) \<Rightarrow> umem \<Rightarrow> world" where
  "made_world ps f u = \<lparr>device = zero_dev\<lparr>circ_buffer := made_ring ps f\<rparr>,
     kheap = (\<lambda>p. if p \<in> set ps then Some (f p) else None), user = u\<rparr>"

lemma made_ring_contents:
  "contents (made_ring ps f) =
     map (\<lambda>p. \<lparr>buffptr = p, entry_size = of_nat (length (f p))\<rparr>) (drop (length ps - 10) ps)"
  using cb.run_items [of "map (\<lambda>p. (\<lambda>_. 0, \<lparr>buffptr = p, entry_size = of_nat (length (f p))\<rparr>)) ps"]
  by (simp add: made_ring_def max_ops comp_def drop_map)

lemma full_made_ring: "full (made_ring ps f) \<longleftrightarrow> 10 \<le> length ps"
  by (simp add: made_ring_def full_after)

lemma made_ring_eleven:
  assumes "length ps = 11"
  shows "out_offs (made_ring ps f) = 1"
proof (cases ps rule: rev_cases)
  case Nil
  then show ?thesis using assms by simp
next
  case (snoc qs q)
  let ?ops = "map (\<lambda>p. (\<lambda>_. 0 :: size_t, \<lparr>buffptr = p, entry_size = of_nat (length (f p))\<rparr>)) qs"
  have "length qs = 10" using assms snoc by simp
  then have "full (after ?ops)" and "out_offs (after ?ops) = 0"
    using after_filling [of ?ops] by (simp_all add: full_after max_ops)
  moreover from this have "in_offs (after ?ops) = 0"
    using after_inv [of ?ops] by (simp add: cb_inv_def)
  ultimately have "full (after ?ops)"
    and "unat (in_offs (add_entry_body (\<lambda>_. 0) (after ?ops) e)) = unat (1 :: uint8)" for e
    by (simp_all add: add_entry_body_in_offs max_ops)
  then show ?thesis
    by (simp only: made_ring_def snoc word_unat_eq_iff)
      (simp add: add_op_def add_entry_body_out_offs)
qed

lemma made_world_rep:
  assumes "distinct ps" and "0 \<notin> set ps" and "zero_size_ptr k \<notin> set ps"
    and small: "sum_list (map (\<lambda>p. length (f p)) ps) < 2 ^ 63"
  shows "dev_rep k (made_world ps f u) (map f (drop (length ps - 10) ps)) []"
    and "\<not> lock (device (made_world ps f u))"
proof -
  let ?w = "made_world ps f u" and ?qs = "drop (length ps - 10) ps"
  have inv: "cb_inv (made_ring ps f)" unfolding made_ring_def by (rule cb.run_ok [OF cb_inv_init])
  have dom: "dom (kheap ?w) = set ps" by (auto simp: made_world_def split: if_splits)
  have "mem_total (kheap ?w) = sum_list (map (\<lambda>p. length (f p)) ps)"
    unfolding mem_total_def dom using assms(1)
    by (simp add: sum_list_distinct_conv_sum_set made_world_def)
  then have mem: "mem_ok k (kheap ?w)"
    using assms dom by (simp add: mem_ok_def) (simp add: made_world_def)
  have ptrs: "entry_ptrs ?w = ?qs" by (simp add: made_world_def made_ring_contents comp_def)
  have sub: "p \<in> set ps" if "p \<in> set ?qs" for p using that by (rule in_set_dropD)
  then have "map (kheap ?w) (entry_ptrs ?w) = map Some (map f ?qs)"
    unfolding ptrs by (simp add: made_world_def)
  moreover have "length (f p) < 2 ^ 64" if "p \<in> set ?qs" for p
    using member_le_sum_list [of "length (f p)" "map (\<lambda>p. length (f p)) ps"] sub [OF that] small by simp
  then have "map entry_len (contents (ring_of ?w)) = map length (map f ?qs)"
    by (simp add: made_world_def made_ring_contents unat_of_nat)
  moreover have "distinct (entry_ptrs ?w)" unfolding ptrs using assms(1) by simp
  ultimately have "log_rep k ?w (map f ?qs)"
    using inv mem by (simp add: log_rep_def made_world_def)
  then show "dev_rep k ?w (map f ?qs) []"
    by (simp add: dev_rep_def pend_rep_def made_world_def zero_dev_def)
  show "\<not> lock (device ?w)" by (simp add: made_world_def zero_dev_def)
qed

definition ten_world :: world where
  "ten_world = made_world [40..<50] (\<lambda>_. [newline]) hi_user"

lemma ten_world_rep:
  assumes "zero_size_ptr k = 16"
  shows "dev_rep k ten_world (replicate 10 [newline]) []" and "\<not> lock (device ten_world)"
proof -
  have *: "map (\<lambda>_. [newline]) (drop (length [40..<50] - 10) [40..<50]) = replicate 10 [newline]"
    by (simp add: numeral_eq_Suc)
  show "dev_rep k ten_world (replicate 10 [newline]) []"
    unfolding ten_world_def * [symmetric] by (rule made_world_rep(1)) (use assms in simp_all)
  show "\<not> lock (device ten_world)" by (simp add: ten_world_def made_world_def zero_dev_def)
qed

text \<open>The user's memory at address 1000 holds the ioctl argument for packet 1, offset 0.\<close>

definition two_world :: world where
  "two_world = made_world [40, 41] (\<lambda>p. if p = 40 then [97, 98, 10] else [99, 10])
     (put_user (\<lambda>_. 0) 1000 [1, 0, 0, 0, 0, 0, 0, 0])"

lemma two_world_rep:
  assumes "zero_size_ptr k = 16"
  shows "dev_rep k two_world [[97, 98, 10], [99, 10]] []" and "\<not> lock (device two_world)"
  using made_world_rep [of "[40, 41]" k "\<lambda>p. if p = 40 then [97, 98, 10] else [99, 10]"] assms
  by (simp_all add: two_world_def)

definition growing_line :: "ptr \<Rightarrow> byte list" where
  "growing_line p = replicate (p - 40) 97 @ [newline]"

definition wrapped_world :: world where
  "wrapped_world = made_world [40..<51] growing_line hi_user"

lemma wrapped_world_rep:
  assumes "zero_size_ptr k = 16"
  shows "dev_rep k wrapped_world (map growing_line [41..<51]) []"
    and "\<not> lock (device wrapped_world)"
  using made_world_rep [of "[40..<51]" k growing_line hi_user] assms
  by (simp_all add: wrapped_world_def growing_line_def upt_rec)

end
