(* ===== verification/Device_Properties.thy ===== *)
theory Device_Properties
  imports Example_Device
begin

text \<open>
  The properties of the character device: it refines a log of lines, none of its calls goes
  wrong, and what each call does on every branch, the faulty ones included.
\<close>

subsection \<open>The device as a log\<close>





text \<open>C35: along a run in which no write loses the write buffer, the ring never holds more than ten
  packets, each of them is exactly one line, and the unfinished line has no newline.\<close>

theorem packets_are_lines:
  assumes "kernel_ok k" and "loaded k s" and "sound_run k s t"
  shows "\<exists>xs pend. dev_rep k (sworld t) xs pend \<and> length xs \<le> 10 \<and>
    (\<forall>x \<in> set xs. \<exists>ys. x = ys @ [newline] \<and> newline \<notin> set ys) \<and> newline \<notin> set pend"
proof -
  have "lines_ok [] []" by (simp add: lines_ok_def)
  from sound_run_lines [OF assms(1,3) loaded_log [OF assms(2)] this]
  show ?thesis by (auto simp: log_abs_def world_log_def lines_ok_def is_line_def)
qed

theorem packets_are_lines_witness:
  "\<exists>xs pend. dev_rep example_kernel (sworld opened_system) xs pend \<and> length xs \<le> 10 \<and>
    (\<forall>x \<in> set xs. \<exists>ys. x = ys @ [newline] \<and> newline \<notin> set ys) \<and> newline \<notin> set pend"
proof (rule packets_are_lines [OF example_kernel_ok empty_system_loaded])
  have "\<not> poisoned (sworld empty_system)" "\<not> poisoned (sworld opened_system)"
    using dev_rep_not_poisoned [OF empty_world_rep(1)]
    by (simp_all add: empty_system_def opened_system_def)
  then show "sound_run example_kernel empty_system opened_system"
    using open_step by (blast intro: sound_refl sound_step)
qed

subsection \<open>Writing\<close>

text \<open>C2: a write on an unlocked device returns, unlocked. It takes the bytes given up to and with
  the first newline, or all of them when there is none: they are added to the unfinished line, and
  a newline makes the line a packet of the ring. Or it fails: with \<open>EFAULT\<close> nothing has changed,
  with \<open>ENOMEM\<close> the packets are unchanged.\<close>

theorem write_takes_first_packet:
  assumes kok: "kernel_ok k" and rep: "dev_rep k w xs pend"
    and fil: "private_data filp = Aesd_device" and free: "\<not> lock (device w)"
    and bs: "bs = get_user (user w) buf (unat n)"
  shows "\<exists>r pos' w'. aesd_write k oob filp buf n pos w = Ret (r, pos', w') \<and>
    \<not> lock (device w') \<and> user w' = user w \<and>
    (if r = - EFAULT then pos' = pos \<and> dev_rep k w' xs pend
     else if r = - ENOMEM then pos' = pos \<and> log_rep k w' xs
     else r = of_nat (length (first_packet bs)) \<and> pos' = pos + r \<and>
       (if newline \<in> set bs then dev_rep k w' (push xs (pend @ first_packet bs)) []
        else dev_rep k w' xs (pend @ first_packet bs)))"
proof -
  have np: "\<not> poisoned w" using rep by (rule dev_rep_not_poisoned)
  obtain r pos' w' pend' where *: "aesd_write k oob filp buf n pos w = Ret (r, pos', w')"
      "\<not> lock (device w')" "user w' = user w" and pe: "pend' = pend"
    and eff: "write_effect k w xs pend' bs pos r pos' w'"
    using aesd_write_effect [OF kok dev_rep_state [OF rep] fil free, of oob buf n pos] np
    unfolding bs by blast
  have small: "r \<noteq> - ENOMEM \<and> r \<noteq> - EFAULT"
    if "r = of_nat (length (first_packet bs))" and "length (first_packet bs) < 2 ^ 63"
    using sint_of_nat64 [OF that(2)] that(1) by auto
  have "dev_rep k w' xs pend" if "dev_state k w' xs pend" "r = - EFAULT" "poisoned w' \<longrightarrow> r = - ENOMEM"
    using that by (simp add: dev_state_iff_rep)
  then have "if r = - EFAULT then pos' = pos \<and> dev_rep k w' xs pend
     else if r = - ENOMEM then pos' = pos \<and> log_rep k w' xs
     else r = of_nat (length (first_packet bs)) \<and> pos' = pos + r \<and>
       (if newline \<in> set bs then dev_rep k w' (push xs (pend @ first_packet bs)) []
        else dev_rep k w' xs (pend @ first_packet bs))"
    using eff np small unfolding write_effect_def pe by (auto simp: dev_state_def)
  with * show ?thesis by blast
qed

theorem write_takes_first_packet_witness:
  "\<exists>r pos' w'. aesd_write example_kernel (\<lambda>_. 0) aesd_file 1000 3 0 empty_world = Ret (r, pos', w') \<and>
    \<not> lock (device w') \<and> user w' = user empty_world \<and>
    (if r = - EFAULT then pos' = 0 \<and> dev_rep example_kernel w' [] []
     else if r = - ENOMEM then pos' = 0 \<and> log_rep example_kernel w' []
     else r = 3 \<and> pos' = 0 + r \<and> dev_rep example_kernel w' [[104, 105, 10]] [])"
proof -
  have "[104, 105, 10] = get_user (user empty_world) 1000 (unat (3 :: size_t))"
    by (simp add: empty_world_def hi_user_def get_user_def put_user_def upt_rec)
  from write_takes_first_packet [OF example_kernel_ok empty_world_rep(1) aesd_file_simps(1)
        empty_world_rep(2) this, of "\<lambda>_. 0" 0]
  moreover have "(of_nat (length (first_packet [104, 105, 10 :: byte])) :: ssize_t) = 3"
    and "(newline \<in> set [104, 105, 10 :: byte]) = True"
    and "push [] ([] @ first_packet [104, 105, 10 :: byte]) = [[104, 105, 10]]"
    by (simp_all add: first_packet_def push_def max_ops)
  ultimately show ?thesis by (simp only: if_True)
qed

text \<open>C23: after any sequence of writes to an empty device, none of which has returned \<open>ENOMEM\<close>, the
  ring holds the last ten of the lines that the bytes accepted by the writes, put together, consist
  of, and the pending bytes are what follows the last newline.\<close>

theorem writes_keep_last_lines:
  assumes kok: "kernel_ok k" and rep: "dev_rep k w [] []"
    and fil: "private_data filp = Aesd_device" and free: "\<not> lock (device w)"
  shows "\<exists>rs w'. run_writes k oob filp cs w = Ret (rs, w') \<and> length rs = length cs \<and>
    (- ENOMEM \<in> fst ` set rs \<or>
     (let (ls, rest) = split_lines [] (concat (map accepted rs))
      in dev_rep k w' (drop (length ls - 10) ls) rest))"
  using run_writes_effect [OF kok dev_rep_state [OF rep] fil free, of oob cs] dev_rep_not_poisoned [OF rep]
  by (auto simp: case_prod_beta Let_def keep_lines_empty)

theorem writes_keep_last_lines_witness:
  "\<exists>rs w'. run_writes example_kernel (\<lambda>_. 0) aesd_file [(1000, 2), (1002, 1)] empty_world = Ret (rs, w') \<and>
    length rs = length [(1000 :: nat, 2 :: size_t), (1002, 1)] \<and>
    (- ENOMEM \<in> fst ` set rs \<or>
     (let (ls, rest) = split_lines [] (concat (map accepted rs))
      in dev_rep example_kernel w' (drop (length ls - 10) ls) rest))"
  by (rule writes_keep_last_lines [OF example_kernel_ok empty_world_rep(1) aesd_file_simps(1)
        empty_world_rep(2)])

subsection \<open>Reading\<close>

text \<open>C30: a read on an unlocked device returns, unlocked, and changes user memory only. It delivers
  a piece of the concatenated packets that starts at the file position, no longer than asked for
  and empty only at the end of the log or when nothing is asked for; or it fails with \<open>EFAULT\<close>,
  having moved the file position back by 14.\<close>

theorem read_delivers_log:
  assumes kok: "kernel_ok k" and rep: "dev_rep k w xs pend"
    and fil: "private_data filp = Aesd_device" and free: "\<not> lock (device w)"
  shows "\<exists>r pos' w'. aesd_read k filp buf n pos w = Ret (r, pos', w') \<and>
    device w' = device w \<and> kheap w' = kheap w \<and>
    (r = - EFAULT \<and> pos' = pos - EFAULT \<or>
     (\<exists>d rest. drop (unat pos) (concat xs) = d @ rest \<and> length d \<le> unat n \<and>
        (d = [] \<longleftrightarrow> length (concat xs) \<le> unat pos \<or> n = 0) \<and>
        r = of_nat (length d) \<and> pos' = pos + r \<and> user w' = put_user (user w) buf d))"
proof -
  let ?d = "next_read xs (unat pos) (unat n)"
  have log: "log_rep k w xs" using rep by (simp add: dev_rep_def)
  obtain r pos' w' where res: "aesd_read k filp buf n pos w = Ret (r, pos', w')"
    and eff: "read_effect xs buf n pos w r pos' w'"
    using aesd_read_effect [OF kok log fil free] by blast
  have split: "drop (unat pos) (concat xs) = ?d @ drop (length ?d) (drop (unat pos) (concat xs))"
    using next_read_prefix [of xs "unat pos" "unat n"] by (metis append_take_drop_id)
  have "length ?d \<le> unat n" and "?d = [] \<longleftrightarrow> length (concat xs) \<le> unat pos \<or> n = 0"
    using next_read_length next_read_Nil_iff by (auto simp: unat_eq_0)
  then have "r = - EFAULT \<and> pos' = pos - EFAULT \<or>
     (\<exists>d rest. drop (unat pos) (concat xs) = d @ rest \<and> length d \<le> unat n \<and>
        (d = [] \<longleftrightarrow> length (concat xs) \<le> unat pos \<or> n = 0) \<and>
        r = of_nat (length d) \<and> pos' = pos + r \<and> user w' = put_user (user w) buf d)"
    using eff split unfolding read_effect_def Let_def by fastforce
  moreover have "device w' = device w \<and> kheap w' = kheap w"
    using eff unfolding read_effect_def Let_def by auto
  ultimately show ?thesis using res by blast
qed

theorem read_delivers_log_witness:
  "\<exists>r pos' w'. aesd_read example_kernel aesd_file 2000 4 7 ten_world = Ret (r, pos', w') \<and>
    device w' = device ten_world \<and> kheap w' = kheap ten_world \<and>
    (r = - EFAULT \<and> pos' = 7 - EFAULT \<or>
     (\<exists>d rest. drop (unat (7 :: loff_t)) (concat (replicate 10 [newline])) = d @ rest \<and>
        length d \<le> unat (4 :: size_t) \<and>
        (d = [] \<longleftrightarrow> length (concat (replicate 10 [newline])) \<le> unat (7 :: loff_t) \<or> (4 :: size_t) = 0) \<and>
        r = of_nat (length d) \<and> pos' = 7 + r \<and> user w' = put_user (user ten_world) 2000 d))"
proof -
  have z: "zero_size_ptr example_kernel = 16" by simp
  show ?thesis
    by (rule read_delivers_log [OF example_kernel_ok ten_world_rep(1) [OF z] aesd_file_simps(1)
        ten_world_rep(2) [OF z]])
qed

end
