(* ===== verification/Seek_Properties.thy ===== *)
theory Seek_Properties
  imports Example_Device
begin

text \<open>
  The properties of \<open>aesd_llseek\<close> and \<open>aesd_ioctl\<close>: where they move the file position, and the
  branches on which they go wrong.
\<close>

text \<open>A seek the kernel's \<open>fixed_size_llseek\<close> allows moves the file position to the target it
  computes, changes nothing else and releases the mutex; the size it seeks in is the running size
  of the ring. Any other seek returns \<open>EINVAL\<close> with the mutex still held.\<close>

theorem llseek_moves_or_keeps_lock:
  assumes kok: "kernel_ok k" and fil: "private_data filp = Aesd_device" and free: "\<not> lock (device w)"
    and pos: "0 \<le> sint (f_pos filp)" and sz: "0 \<le> sint (total_size (circ_buffer (device w)))"
  shows "aesd_llseek k filp off whence w =
     (if seek_allowed (f_pos filp) off whence (total_size (circ_buffer (device w)))
      then (let p = word_of_int (seek_target (f_pos filp) off whence (total_size (circ_buffer (device w))))
            in Ret (p, filp\<lparr>f_pos := p\<rparr>, w))
      else Ret (- EINVAL, filp, w\<lparr>device := (device w)\<lparr>lock := True\<rparr>\<rparr>))"
  using aesd_llseek_effect [OF assms] by (simp add: set_lock_def)

theorem llseek_moves_or_keeps_lock_witness:
  "aesd_llseek example_kernel aesd_file 4 0 empty_world =
     Ret (- EINVAL, aesd_file, empty_world\<lparr>device := (device empty_world)\<lparr>lock := True\<rparr>\<rparr>)"
proof -
  have sz: "total_size (circ_buffer (device empty_world)) = 0"
    by (simp add: empty_world_def zero_dev_def)
  have "\<not> seek_allowed (f_pos aesd_file) 4 0 (total_size (circ_buffer (device empty_world)))"
    by (simp add: seek_allowed_def seek_target_def sz)
  moreover have "0 \<le> sint (f_pos aesd_file)" by simp
  moreover have "0 \<le> sint (total_size (circ_buffer (device empty_world)))" by (simp add: sz)
  ultimately show ?thesis
    using llseek_moves_or_keeps_lock [OF example_kernel_ok aesd_file_simps(1) empty_world_rep(2),
        of 4 0] by simp
qed

text \<open>C32: a single seek that is not allowed disables the device for good: in every state reached
  after it, whatever calls are made, reads and seeks on any open file block, no write takes any
  byte, and the device and the kernel heap are as they were.\<close>

theorem failed_seek_disables_device:
  assumes kok: "kernel_ok k" and abs: "log_abs k s (xs, p)"
    and fd: "files s fd = Some filp" and free: "\<not> lock (device (sworld s))"
    and bad: "\<not> seek_allowed (f_pos filp) off whence (total_size (circ_buffer (device (sworld s))))"
    and range: "0 \<le> sint (f_pos filp)" "0 \<le> sint (total_size (circ_buffer (device (sworld s))))"
  shows "\<exists>s'. sys_call (aesd_fops k oob oobe) (Llseek fd off whence) s = Ret (- EINVAL, s') \<and>
    (\<forall>t fd' filp'. (sys_step k)\<^sup>*\<^sup>* s' t \<longrightarrow> files t fd' = Some filp' \<longrightarrow>
       device (sworld t) = (device (sworld s))\<lparr>lock := True\<rparr> \<and> kheap (sworld t) = kheap (sworld s) \<and>
       sys_call (aesd_fops k oob oobe) (Read fd' buf n) t = Blocked \<and>
       sys_call (aesd_fops k oob oobe) (Llseek fd' off' whence') t = Blocked \<and>
       sys_call (aesd_fops k oob oobe) (Write fd' buf n) t
         \<in> {Blocked, Ret (- EBADF, t), Ret (- ENOMEM, t), Ret (- EFAULT, t)})"
proof -
  note fil = log_abs_files [OF abs fd]
  have ls: "aesd_llseek k filp off whence (sworld s) = Ret (- EINVAL, filp, set_lock True (sworld s))"
    using aesd_llseek_effect [OF kok fil free range] bad by simp
  let ?s = "put_file fd filp (set_lock True (sworld s)) s"
  have call: "sys_call (aesd_fops k oob oobe) (Llseek fd off whence) s = Ret (- EINVAL, ?s)"
    using fd ls by (simp add: with_file_def aesd_fops_def)
  have abs': "log_abs k ?s (xs, p)" 
    by (rule log_abs_put_file [OF abs fil]) (use abs in \<open>simp add: log_abs_def\<close>)
  have held: "lock (device (sworld ?s))" by (simp add: put_file_def)
  have "device (sworld t) = (device (sworld s))\<lparr>lock := True\<rparr> \<and> kheap (sworld t) = kheap (sworld s) \<and>
       sys_call (aesd_fops k oob oobe) (Read fd' buf n) t = Blocked \<and>
       sys_call (aesd_fops k oob oobe) (Llseek fd' off' whence') t = Blocked \<and>
       sys_call (aesd_fops k oob oobe) (Write fd' buf n) t
         \<in> {Blocked, Ret (- EBADF, t), Ret (- ENOMEM, t), Ret (- EFAULT, t)}"
    if run: "(sys_step k)\<^sup>*\<^sup>* ?s t" and open': "files t fd' = Some filp'" for t fd' filp'
  proof -
    have same: "device (sworld t) = device (sworld ?s)" "kheap (sworld t) = kheap (sworld ?s)"
      and abs_t: "log_abs k t (xs, p)"
      using held_run [OF kok abs' held run] by auto
    have held_t: "lock (device (sworld t))" using same held by simp
    note fil' = log_abs_files [OF abs_t open']
    obtain pend where st: "dev_state k (sworld t) xs pend"
      using abs_t world_log_state by (metis log_abs_def)
    have "put_file fd' (filp'\<lparr>f_pos := f_pos filp'\<rparr>) (sworld t) t = t"
      using open' by (simp add: put_file_def fun_upd_idem)
    then have "sys_call (aesd_fops k oob oobe) (Write fd' buf n) t
        \<in> {Blocked, Ret (- EBADF, t), Ret (- ENOMEM, t), Ret (- EFAULT, t)}"
      using aesd_write_held [OF kok st fil' held_t, of oob buf n "f_pos filp'"] open'
      by (auto simp: with_file_def aesd_fops_def)
    then show ?thesis
      using same held_t fil' open' all_calls_block(2) [OF fil' held_t]
      by (simp add: with_file_def aesd_fops_def aesd_read_held put_file_def set_lock_def)
  qed
  then show ?thesis using call by blast
qed

theorem failed_seek_disables_device_witness:
  "\<exists>s'. sys_call (aesd_fops example_kernel (\<lambda>_. 0) (\<lambda>_. 0)) (Llseek 3 4 0) opened_system
      = Ret (- EINVAL, s') \<and>
    (\<forall>t fd' filp'. (sys_step example_kernel)\<^sup>*\<^sup>* s' t \<longrightarrow> files t fd' = Some filp' \<longrightarrow>
       device (sworld t) = (device (sworld opened_system))\<lparr>lock := True\<rparr> \<and>
       kheap (sworld t) = kheap (sworld opened_system) \<and>
       sys_call (aesd_fops example_kernel (\<lambda>_. 0) (\<lambda>_. 0)) (Read fd' 1000 3) t = Blocked \<and>
       sys_call (aesd_fops example_kernel (\<lambda>_. 0) (\<lambda>_. 0)) (Llseek fd' 0 1) t = Blocked \<and>
       sys_call (aesd_fops example_kernel (\<lambda>_. 0) (\<lambda>_. 0)) (Write fd' 1000 3) t
         \<in> {Blocked, Ret (- EBADF, t), Ret (- ENOMEM, t), Ret (- EFAULT, t)})"
proof (rule failed_seek_disables_device [OF example_kernel_ok opened_log, where filp = aesd_file])
  have sz: "total_size (circ_buffer (device (sworld opened_system))) = 0"
    by (simp add: opened_system_def empty_world_def zero_dev_def)
  show "files opened_system 3 = Some aesd_file" by (simp add: opened_system_def)
  show "\<not> lock (device (sworld opened_system))" using empty_world_rep(2) by (simp add: opened_system_def)
  show "0 \<le> sint (f_pos aesd_file)" by simp
  show "0 \<le> sint (total_size (circ_buffer (device (sworld opened_system))))" by (simp add: sz)
  show "\<not> seek_allowed (f_pos aesd_file) 4 0 (total_size (circ_buffer (device (sworld opened_system))))"
    by (simp add: seek_allowed_def seek_target_def sz)
qed

text \<open>While the ring has not wrapped, the seek ioctl with the eight bytes of a packet number
  below the number of packets and an offset not past the packet's end puts the file position at
  that offset of that packet in the concatenated packets, and changes nothing else.\<close>

theorem seekto_finds_packet:
  assumes kok: "kernel_ok k" and rep: "dev_rep k w xs pend" and nf: "\<not> full (circ_buffer (device w))"
    and fil: "private_data filp = Aesd_device" and free: "\<not> lock (device w)"
    and copy: "copy_from_user k (user w) arg 8 = (0, bs)"
    and cmd: "unat (write_cmd (seekto_of_bytes bs)) = i" and off: "unat (write_cmd_offset (seekto_of_bytes bs)) = j"
    and i: "i < length xs" and j: "j \<le> length (xs ! i)"
  shows "aesd_ioctl k oobe filp (AESDCHAR_IOCSEEKTO k) arg w =
    Ret (0, filp\<lparr>f_pos := of_nat (length (concat (take i xs)) + j)\<rparr>, w)"
proof -
  have "log_rep k w xs" using rep by (simp add: dev_rep_def)
  from aesd_ioctl_seekto [OF kok this nf fil free copy cmd off i j] show ?thesis .
qed

theorem seekto_finds_packet_witness:
  "aesd_ioctl example_kernel (\<lambda>_. 0) aesd_file (AESDCHAR_IOCSEEKTO example_kernel) 1000 two_world =
    Ret (0, aesd_file\<lparr>f_pos := 3\<rparr>, two_world)"
proof -
  have z: "zero_size_ptr example_kernel = 16" by simp
  have u: "copy_from_user example_kernel (user two_world) 1000 8 = (0, [1, 0, 0, 0, 0, 0, 0, 0])"
    by (simp add: two_world_def made_world_def get_user_def put_user_def upt_rec)
  have nf: "\<not> full (circ_buffer (device two_world))"
    using log_rep_length [of example_kernel two_world "[[97, 98, 10], [99, 10]]"] two_world_rep(1) [OF z]
    by (auto simp: dev_rep_def ring_count_def max_ops)
  have "unat (write_cmd (seekto_of_bytes [1, 0, 0, 0, 0, 0, 0, 0])) = 1"
    "unat (write_cmd_offset (seekto_of_bytes [1, 0, 0, 0, 0, 0, 0, 0])) = 0"
    by (simp_all add: seekto_of_bytes_def le_word_def)
  from seekto_finds_packet [OF example_kernel_ok two_world_rep(1) [OF z] nf aesd_file_simps(1)
      two_world_rep(2) [OF z] u this] show ?thesis by simp
qed

text \<open>Once the ring has wrapped, the ioctl counts in the order of the array: the packet number
  selects a slot, and the position is the sum of the sizes of the slots before it, which is the
  place of another packet unless the oldest packet is in slot 0.\<close>

theorem seekto_counts_slots:
  assumes rep: "dev_rep k w xs pend" and full: "full (circ_buffer (device w))"
    and fil: "private_data filp = Aesd_device" and free: "\<not> lock (device w)"
    and cmd: "unat cmd < 10"
    and o: "unat (out_offs (circ_buffer (device w))) = o1"
    and slots: "ys = drop (10 - o1) xs @ take (10 - o1) xs"
  shows "aesd_file_offset oobe filp cmd off w =
    (if unat off \<le> length (ys ! unat cmd)
     then Ret (0, filp\<lparr>f_pos := of_nat (length (concat (take (unat cmd) ys)) + unat off)\<rparr>, w)
     else Ret (- EINVAL, filp, w))"
proof -
  have log: "log_rep k w xs" using rep by (simp add: dev_rep_def)
  show ?thesis
    using aesd_file_offset_effect [OF log cmd fil free, of oobe off] full
    by (simp add: array_packets_def o slots)
qed

theorem seekto_counts_slots_witness:
  "aesd_file_offset (\<lambda>_. 0) aesd_file 1 0 wrapped_world =
     Ret (0, aesd_file\<lparr>f_pos := 11\<rparr>, wrapped_world)"
proof -
  have z: "zero_size_ptr example_kernel = 16" by simp
  note rep = wrapped_world_rep [OF z]
  have "full (circ_buffer (device wrapped_world))"
    by (simp add: wrapped_world_def made_world_def full_made_ring del: upt_rec_numeral)
  moreover have "unat (out_offs (circ_buffer (device wrapped_world))) = 1"
    by (simp add: wrapped_world_def made_world_def made_ring_eleven del: upt_rec_numeral)
  ultimately show ?thesis
    using seekto_counts_slots [OF rep(1) _ aesd_file_simps(1) rep(2) _ _ refl, of 1 1 "\<lambda>_. 0" 0]
    by (simp add: growing_line_def)
qed

text \<open>C36: the packet number 10, which is one past the last slot, is not rejected: the code reads the
  size of an entry that does not exist, and when the word there is at least the offset it puts the
  file position at the offset past the end of the log.\<close>

theorem seekto_reads_past_array:
  assumes rep: "dev_rep k w xs pend" and fil: "private_data filp = Aesd_device"
    and free: "\<not> lock (device w)" and beyond: "unat off \<le> unat (oobe 10)"
  shows "aesd_file_offset oobe filp 10 off w =
    Ret (0, filp\<lparr>f_pos := of_nat (length (concat xs) + unat off)\<rparr>, w)"
proof -
  have log: "log_rep k w xs" using rep by (simp add: dev_rep_def)
  have "offset_loop oobe (ring_of w) (of_nat 10) 0 0 =
      of_nat (length (concat (take 10 (array_packets (ring_of w) xs))))"
    by (rule offset_loop_packets [OF log]) simp
  also have "\<dots> = (of_nat (length (concat xs)) :: loff_t)"
    using array_packets_length [OF log] array_packets_total [OF log] by simp
  finally have loop: "offset_loop oobe (ring_of w) 10 0 0 = (of_nat (length (concat xs)) :: loff_t)"
    by simp
  have uo: "unat (ucast off :: size_t) = unat off" by (simp add: unat_ucast_up)
  show ?thesis
    using fil free beyond
    by (simp add: aesd_file_offset_def mutex_lock_free unlock_lock Let_def entry_size_at_def max_ops
        word_less_nat_alt uo loop)
qed

theorem seekto_reads_past_array_witness:
  "aesd_file_offset (\<lambda>_. 7) aesd_file 10 5 empty_world = Ret (0, aesd_file\<lparr>f_pos := 5\<rparr>, empty_world)"
  using seekto_reads_past_array [OF empty_world_rep(1) aesd_file_simps(1) empty_world_rep(2),
      of 5 "\<lambda>_. 7"] by simp

text \<open>An ioctl with a command of another type, or with a number above 1, returns 25, a positive
  number that a caller does not take for an error, and changes nothing.\<close>

theorem ioctl_error_positive:
  assumes "ioc_type k cmd \<noteq> AESD_IOC_MAGIC \<or> 1 < ioc_nr k cmd"
  shows "\<exists>r. aesd_ioctl k oobe filp cmd arg w = Ret (r, filp, w) \<and> sint r = 25"
  using assms by (simp add: aesd_ioctl_def AESDCHAR_IOC_MAXNR_def)

theorem ioctl_error_positive_witness:
  "\<exists>r. aesd_ioctl example_kernel (\<lambda>_. 0) aesd_file 0 0 empty_world = Ret (r, aesd_file, empty_world) \<and>
     sint r = 25"
  by (rule ioctl_error_positive) (simp add: example_kernel_def AESD_IOC_MAGIC_def)

end
