(* ===== verification/Module_Properties.thy ===== *)
theory Module_Properties
  imports Example_Device
begin

text \<open>
  The life of the driver's memory: loading and unloading, the blocks that are freed and the blocks
  that are lost.
\<close>

text \<open>C39: loading the module either fails, with the negative result of the step that failed and
  every device number it registered given back, or leaves a ready device: unlocked, empty, the
  number registered and the device added under it.\<close>

theorem init_module_ready_or_undone:
  assumes "mem_ok k (kheap (dworld m))"
    and "aesd_init_module c m = (result, m')"
    and "alloc_chrdev_region c 0 = (res, dev)"
  shows "if result = 0
    then \<not> lock (device (dworld m')) \<and> dev_rep k (dworld m') [] [] \<and>
      events m' = events m @ [Region_registered dev, Mutex_init, Cdev_init,
        Cdev_added (mkdev c (dev_major c dev) 0)]
    else if sint res < 0 then result = res \<and> events m' = events m
    else events m' = events m @ [Region_registered dev, Mutex_init, Cdev_init, Region_unregistered dev]"
proof (cases "result = 0")
  case True
  then have init: "aesd_init_module c m = (0, m')" using assms(2) by simp
  note dev = init_module_device [OF init]
  have "dev_rep k (dworld m') [] []" and "\<not> lock (device (dworld m'))"
    using zero_dev_rep [OF dev(1), of k] assms(1) by (simp_all add: dev(2))
  moreover have "events m' = events m @ [Region_registered dev, Mutex_init, Cdev_init,
        Cdev_added (mkdev c (dev_major c dev) 0)]"
    using init assms(3)
    by (auto simp: aesd_init_module_def aesd_setup_cdev_def Let_def emit_def split: if_splits)
  ultimately show ?thesis using True by simp
next
  case False
  then show ?thesis using assms(2,3)
    by (auto simp: aesd_init_module_def aesd_setup_cdev_def Let_def split: if_splits)
qed

definition plain_chrdev :: "32 word \<Rightarrow> chrdev" where
  "plain_chrdev err = \<lparr>alloc_chrdev_region = (\<lambda>minor. (0, 256 + minor)), dev_major = (\<lambda>d. d div 256),
     mkdev = (\<lambda>a b. a * 256 + b), cdev_add = (\<lambda>_. err)\<rparr>"

definition fresh_driver :: driver where
  "fresh_driver = \<lparr>dworld = lost_world, aesd_major = 0, events = []\<rparr>"

theorem init_module_ready_or_undone_witness:
  "events (snd (aesd_init_module (plain_chrdev 5) fresh_driver)) =
     [Region_registered 256, Mutex_init, Cdev_init, Region_unregistered 256]"
proof -
  obtain r m' where i: "aesd_init_module (plain_chrdev 5) fresh_driver = (r, m')"
    by (cases "aesd_init_module (plain_chrdev 5) fresh_driver")
  then have "r = 5"
    by (auto simp: aesd_init_module_def aesd_setup_cdev_def plain_chrdev_def Let_def)
  moreover have "mem_ok example_kernel (kheap (dworld fresh_driver))"
    by (simp add: fresh_driver_def lost_world_def mem_ok_empty)
  moreover have "alloc_chrdev_region (plain_chrdev 5) 0 = (0, 256)" by (simp add: plain_chrdev_def)
  ultimately show ?thesis
    using init_module_ready_or_undone [of example_kernel fresh_driver "plain_chrdev 5" r m' 0 256] i
    by (simp add: fresh_driver_def)
qed

text \<open>C37: unloading the module frees every block of the ring exactly once, frees nothing else and
  gives back the device number. The block of an unfinished line is not freed.\<close>

theorem cleanup_frees_ring_only:
  assumes kok: "kernel_ok k" and rep: "dev_rep k (dworld m) xs pend"
  shows "\<exists>m'. aesd_cleanup_module k c m = Ret m' \<and>
    events m' = events m @ [Cdev_del, Mutex_destroy, Region_unregistered (mkdev c (aesd_major m) 0)] \<and>
    kheap (dworld m') = kheap (dworld m) |` (- buffptr ` set (contents (circ_buffer (device (dworld m))))) \<and>
    (pend \<noteq> [] \<longrightarrow> kheap (dworld m') (dev_buffer (device (dworld m))) = Some pend)"
proof -
  have log: "log_rep k (dworld m) xs" and pr: "pend_rep (dworld m) pend"
    using rep by (simp_all add: dev_rep_def)
  show ?thesis
    using cleanup_effect [OF kok log, of c] pr
    by (auto simp: emit_def pend_rep_def restrict_map_def split: if_splits)
qed

theorem cleanup_frees_ring_only_witness:
  "\<exists>m'. aesd_cleanup_module example_kernel (plain_chrdev 0) (fresh_driver\<lparr>dworld := pending_world\<rparr>) = Ret m' \<and>
    kheap (dworld m') 40 = Some [97, 98]"
proof -
  have "dev_rep example_kernel (dworld (fresh_driver\<lparr>dworld := pending_world\<rparr>)) [] [97, 98]"
    by (simp add: pending_world_rep)
  from cleanup_frees_ring_only [OF example_kernel_ok this, of "plain_chrdev 0"]
  show ?thesis by (auto simp: pending_world_def)
qed

text \<open>When a write completes a line while the ring holds ten packets, the block of the oldest
  packet stays allocated although no entry of the ring and no field of the device points to it any
  more: every overwritten packet is lost memory.\<close>

theorem overwritten_packet_leaks:
  assumes kok: "kernel_ok k" and rep: "dev_rep k w xs pend" and ten: "length xs = 10"
    and fil: "private_data filp = Aesd_device" and free: "\<not> lock (device w)"
    and old: "hd (contents (circ_buffer (device w))) = e"
    and nl: "newline \<in> set (get_user (user w) buf (unat n))"
  shows "\<exists>r pos' w'. aesd_write k oob filp buf n pos w = Ret (r, pos', w') \<and>
    (0 \<le> sint r \<longrightarrow> kheap w' (buffptr e) = Some (hd xs) \<and> buffer_size (device w') = 0 \<and>
      buffptr e \<notin> buffptr ` set (contents (circ_buffer (device w'))))"
proof -
  obtain r pos' w' where res: "aesd_write k oob filp buf n pos w = Ret (r, pos', w')"
    and fr: "write_frame (get_user (user w) buf (unat n)) r w w'"
    using aesd_write_effect [OF kok dev_rep_state [OF rep] fil free, of oob buf n pos] by blast
  have log: "log_rep k w xs" using rep by (simp add: dev_rep_def)
  have cl: "length (contents (ring_of w)) = 10"
    using log_rep_length [OF log] ten by (simp add: contents_length)
  then obtain es where es: "contents (ring_of w) = e # es" and esl: "length es = 9"
    using old by (cases "contents (ring_of w)") auto
  obtain y ys where "xs = y # ys" using ten by (cases xs) auto
  then have b: "kheap w (buffptr e) = Some (hd xs)"
    using log_rep_block(1) [OF log, of 0] es by simp
  have dist: "distinct (entry_ptrs w)" using log by (simp add: log_rep_def)
  have "kheap w' (buffptr e) = Some (hd xs) \<and> buffer_size (device w') = 0 \<and>
      buffptr e \<notin> set (entry_ptrs w')" if "0 \<le> sint r"
  proof -
    have "0 \<le> sint r \<and> newline \<in> set (get_user (user w) buf (unat n))" using that nl by blast
    then obtain p where p: "p \<notin> set (entry_ptrs w)" "entry_ptrs w' = push (entry_ptrs w) p"
      and z: "buffer_size (device w') = 0"
      using fr unfolding write_frame_def by (simp only: if_True simp_thms) blast
    have "entry_ptrs w' = map buffptr es @ [p]" using p(2) es esl by (simp add: push_def max_ops)
    then have "buffptr e \<notin> set (entry_ptrs w')" using p(1) dist es by auto
    moreover have "kheap w' (buffptr e) = kheap w (buffptr e)"
      using fr es by (simp add: write_frame_def)
    ultimately show ?thesis using z b by simp
  qed
  then show ?thesis using res by (intro exI [of _ r] exI [of _ pos'] exI [of _ w']) simp
qed

theorem overwritten_packet_leaks_witness:
  "\<exists>r pos' w'. aesd_write example_kernel (\<lambda>_. 0) aesd_file 1000 3 0 ten_world = Ret (r, pos', w') \<and>
    (0 \<le> sint r \<longrightarrow> kheap w' 40 = Some [newline] \<and> buffer_size (device w') = 0 \<and>
      40 \<notin> buffptr ` set (contents (circ_buffer (device w'))))"
proof -
  have z: "zero_size_ptr example_kernel = 16" by simp
  have e: "hd (contents (circ_buffer (device ten_world))) = \<lparr>buffptr = 40, entry_size = 1\<rparr>"
    by (simp add: ten_world_def made_world_def made_ring_contents)
  have "newline \<in> set (get_user (user ten_world) 1000 (unat (3 :: size_t)))"
    by (simp add: ten_world_def made_world_def hi_user_def get_user_def put_user_def upt_rec)
  from overwritten_packet_leaks [OF example_kernel_ok ten_world_rep(1) [OF z] _ aesd_file_simps(1)
      ten_world_rep(2) [OF z] e this, of "\<lambda>_. 0" 0]
  show ?thesis by simp
qed

text \<open>When the write buffer of an unfinished line cannot be grown, the code overwrites the only
  pointer to it with NULL and keeps its size: the bytes of the line are lost, their block stays
  allocated and unreachable.\<close>

theorem failed_growth_loses_line:
  assumes kok: "kernel_ok k" and rep: "dev_rep k w xs pend" and some: "pend \<noteq> []"
    and small: "unat chunk < 2 ^ 63" and fail: "grow_buffer k chunk w = (False, w')"
  shows "kheap w' = kheap w \<and> kheap w' (dev_buffer (device w)) = Some pend \<and>
    dev_buffer (device w') = NULL \<and> unat (buffer_size (device w')) = length pend \<and>
    circ_buffer (device w') = circ_buffer (device w) \<and>
    dev_buffer (device w) \<notin> buffptr ` set (contents (circ_buffer (device w')))"
proof -
  have "w' = w\<lparr>device := (device w)\<lparr>dev_buffer := NULL\<rparr>\<rparr>"
    using grow_state_failed [OF kok dev_rep_state [OF rep] small fail] .
  moreover have "pend_rep w pend" using rep by (simp add: dev_rep_def)
  ultimately show ?thesis using some by (auto simp: pend_rep_def split: if_splits)
qed

theorem failed_growth_loses_line_witness:
  "\<exists>w'. grow_buffer tight_kernel 3 pending_world = (False, w') \<and>
     kheap w' 40 = Some [97, 98] \<and> dev_buffer (device w') = NULL \<and>
     unat (buffer_size (device w')) = 2"
proof -
  obtain g w' where gb: "grow_buffer tight_kernel 3 pending_world = (g, w')"
    by (cases "grow_buffer tight_kernel 3 pending_world")
  then have "\<not> g" by (auto simp: grow_buffer_def pending_world_def tight_kernel_def Let_def)
  with gb have fail: "grow_buffer tight_kernel 3 pending_world = (False, w')" by simp
  have rep: "dev_rep tight_kernel pending_world [] [97, 98]"
    by (rule pending_world_rep) (simp add: tight_kernel_def)
  from failed_growth_loses_line [OF tight_kernel_ok rep _ _ fail] fail
  show ?thesis by (simp add: pending_world_def)
qed



end
