(* ===== verification/Thread_List.thy ===== *)
theory Thread_List
  imports Prelude
begin

text \<open>
  The global state of the socket servers (\<^verbatim>\<open>server/aesdsocket.c\<close> and
  \<^verbatim>\<open>server/aesdsocket-simple.c\<close>) and the list of client threads: \<open>insertNode\<close>,
  \<open>removeCompletedThreads\<close> and \<open>do_shutdown\<close>, on an explicit heap of nodes and thread records.
  Dereferencing a pointer to no object, locking a destroyed mutex and joining a thread twice are
  \<open>Undef\<close>; joining a thread that never ends is \<open>Blocked\<close>. The list walks are partial functions:
  on a cyclic list they do not return (\<open>None\<close>).
\<close>

subsection \<open>State\<close>

text \<open>The field \<open>pMutex\<close> of the C structure is neither read nor written by any function.\<close>

record thread_data_t =
  threadId :: nat
  client_fd :: int
  isComplete :: int

record Node =
  node_data :: ptr
  node_next :: ptr

datatype mutex = Unlocked | Locked | Destroyed

datatype proc_event =
  Joined nat
| Closed_fd int
| Removed_data_file

record proc =
  head :: ptr
  nodes :: "ptr \<Rightarrow> Node option"
  datas :: "ptr \<Rightarrow> thread_data_t option"
  listMutex :: mutex
  fileMutex :: mutex
  server_fd :: int
  file_fd :: int
  isError :: bool
  isDaemon :: bool
  trace :: "proc_event list"

fun lock_mutex :: "mutex \<Rightarrow> mutex outcome" where
  "lock_mutex Unlocked = Ret Locked"
| "lock_mutex Locked = Blocked"
| "lock_mutex Destroyed = Undef"

text \<open>
  Unlocking a mutex that is not locked leaves it unlocked, as glibc's normal mutex does; POSIX does
  not define it. Destroying is for an initialised, unlocked mutex.
\<close>

fun unlock_mutex :: "mutex \<Rightarrow> mutex outcome" where
  "unlock_mutex Destroyed = Undef"
| "unlock_mutex m = Ret Unlocked"

fun destroy_mutex :: "mutex \<Rightarrow> mutex outcome" where
  "destroy_mutex Unlocked = Ret Destroyed"
| "destroy_mutex m = Undef"

definition lock_list :: "proc \<Rightarrow> proc outcome" where
  "lock_list s = obind (lock_mutex (listMutex s)) (\<lambda>m. Ret (s\<lparr>listMutex := m\<rparr>))"

definition unlock_list :: "proc \<Rightarrow> proc outcome" where
  "unlock_list s = obind (unlock_mutex (listMutex s)) (\<lambda>m. Ret (s\<lparr>listMutex := m\<rparr>))"

text \<open>
  The thread library and the allocator: which threads end, and the addresses \<open>malloc\<close> returns for
  a node and for a thread record.
\<close>

record thread_env =
  ends :: "nat \<Rightarrow> bool"
  malloc_node :: "(ptr \<Rightarrow> Node option) \<Rightarrow> ptr"
  malloc_data :: "(ptr \<Rightarrow> thread_data_t option) \<Rightarrow> ptr"

definition pthread_join :: "thread_env \<Rightarrow> nat \<Rightarrow> proc \<Rightarrow> proc outcome" where
  "pthread_join env t s =
     (if Joined t \<in> set (trace s) then Undef
      else if ends env t then Ret (s\<lparr>trace := trace s @ [Joined t]\<rparr>) else Blocked)"

text \<open>\<open>free(current->data); free(current);\<close>\<close>

definition free_node :: "ptr \<Rightarrow> Node \<Rightarrow> proc \<Rightarrow> proc" where
  "free_node p n s = s\<lparr>datas := (datas s)(node_data n := None), nodes := (nodes s)(p := None)\<rparr>"

subsection \<open>Inserting\<close>

text \<open>The walk to the last node.\<close>

partial_function (option) last_node :: "(ptr \<Rightarrow> Node option) \<Rightarrow> ptr \<Rightarrow> ptr outcome option" where
  "last_node ns current =
     (case ns current of
        None \<Rightarrow> Some Undef
      | Some n \<Rightarrow> if node_next n \<noteq> NULL then last_node ns (node_next n) else Some (Ret current))"

definition set_next :: "ptr \<Rightarrow> ptr \<Rightarrow> proc \<Rightarrow> proc outcome" where
  "set_next p q s =
     (case nodes s p of
        None \<Rightarrow> Undef
      | Some n \<Rightarrow> Ret (s\<lparr>nodes := (nodes s)(p \<mapsto> n\<lparr>node_next := q\<rparr>)\<rparr>))"

definition insertNode :: "thread_env \<Rightarrow> ptr \<Rightarrow> proc \<Rightarrow> proc outcome option" where
  "insertNode env data s =
     (let newNode = malloc_node env (nodes s) in
      if newNode = NULL then Some Undef
      else let s = s\<lparr>nodes := (nodes s)(newNode \<mapsto> \<lparr>node_data = data, node_next = NULL\<rparr>)\<rparr> in
      case lock_list s of
        Ret s \<Rightarrow>
          if head s = NULL then Some (unlock_list (s\<lparr>head := newNode\<rparr>))
          else map_option (\<lambda>r. obind r (\<lambda>current. obind (set_next current newNode s) unlock_list))
                 (last_node (nodes s) (head s))
      | Blocked \<Rightarrow> Some Blocked
      | Undef \<Rightarrow> Some Undef)"

subsection \<open>Removing\<close>

text \<open>
  Unlinking the node \<open>current\<close> after its thread has been joined, and freeing it; the next node to
  look at is what the link of the predecessor (or the head) then points to.
\<close>

definition unlink :: "ptr \<Rightarrow> ptr \<Rightarrow> Node \<Rightarrow> proc \<Rightarrow> proc outcome" where
  "unlink prev current n s =
     (if prev = NULL then Ret (free_node current n (s\<lparr>head := node_next n\<rparr>))
      else obind (set_next prev (node_next n) s) (\<lambda>s. Ret (free_node current n s)))"

definition link_of :: "ptr \<Rightarrow> proc \<Rightarrow> ptr outcome" where
  "link_of prev s =
     (if prev = NULL then Ret (head s)
      else case nodes s prev of None \<Rightarrow> Undef | Some n \<Rightarrow> Ret (node_next n))"

definition remove_current ::
  "thread_env \<Rightarrow> ptr \<Rightarrow> ptr \<Rightarrow> Node \<Rightarrow> thread_data_t \<Rightarrow> proc \<Rightarrow> (ptr \<times> proc) outcome"
where
  "remove_current env prev current n t s =
     obind (pthread_join env (threadId t) s) (\<lambda>s.
     obind (unlink prev current n s) (\<lambda>s.
     obind (link_of prev s) (\<lambda>c. Ret (c, s))))"

partial_function (option) remove_loop ::
  "thread_env \<Rightarrow> (thread_data_t \<Rightarrow> bool) \<Rightarrow> ptr \<Rightarrow> ptr \<Rightarrow> proc \<Rightarrow> proc outcome option"
where
  "remove_loop env which current prev s =
     (if current = NULL then Some (Ret s)
      else case nodes s current of
        None \<Rightarrow> Some Undef
      | Some n \<Rightarrow>
          (case datas s (node_data n) of
             None \<Rightarrow> Some Undef
           | Some t \<Rightarrow>
               if which t
               then (case remove_current env prev current n t s of
                       Ret x \<Rightarrow> remove_loop env which (fst x) prev (snd x)
                     | Blocked \<Rightarrow> Some Blocked
                     | Undef \<Rightarrow> Some Undef)
               else remove_loop env which (node_next n) current s))"

definition removeCompletedThreads :: "thread_env \<Rightarrow> proc \<Rightarrow> proc outcome option" where
  "removeCompletedThreads env s =
     (case lock_list s of
        Ret s \<Rightarrow> map_option (\<lambda>r. obind r unlock_list)
                   (remove_loop env (\<lambda>t. isComplete t \<noteq> 0) (head s) NULL s)
      | Blocked \<Rightarrow> Some Blocked
      | Undef \<Rightarrow> Some Undef)"

subsection \<open>Shutting down\<close>

text \<open>
  \<open>do_shutdown\<close> joins and removes every thread, destroys the mutexes and closes the sockets; the
  server without the character device also removes its data file.
\<close>

definition finish_shutdown :: "bool \<Rightarrow> proc \<Rightarrow> proc outcome" where
  "finish_shutdown use_char_device s =
     obind (unlock_list s) (\<lambda>s.
     obind (destroy_mutex (fileMutex s)) (\<lambda>m. let s = s\<lparr>fileMutex := m\<rparr> in
     obind (destroy_mutex (listMutex s)) (\<lambda>m. let s = s\<lparr>listMutex := m\<rparr> in
       Ret (s\<lparr>trace := trace s @ [Closed_fd (server_fd s), Closed_fd (file_fd s)] @
                (if use_char_device then [] else [Removed_data_file])\<rparr>))))"

definition do_shutdown :: "thread_env \<Rightarrow> bool \<Rightarrow> proc \<Rightarrow> proc outcome option" where
  "do_shutdown env use_char_device s =
     (case lock_list s of
        Ret s \<Rightarrow> map_option (\<lambda>r. obind r (finish_shutdown use_char_device))
                   (remove_loop env (\<lambda>_. True) (head s) NULL s)
      | Blocked \<Rightarrow> Some Blocked
      | Undef \<Rightarrow> Some Undef)"

subsection \<open>The list a heap represents\<close>

text \<open>A cell: the address of the node, the address of the thread record, and the record.\<close>

type_synonym cell = "ptr \<times> ptr \<times> thread_data_t"

abbreviation cell_node :: "cell \<Rightarrow> ptr" where "cell_node c \<equiv> fst c"
abbreviation cell_data :: "cell \<Rightarrow> ptr" where "cell_data c \<equiv> fst (snd c)"
abbreviation cell_thread :: "cell \<Rightarrow> thread_data_t" where "cell_thread c \<equiv> snd (snd c)"

fun lseg ::
  "(ptr \<Rightarrow> Node option) \<Rightarrow> (ptr \<Rightarrow> thread_data_t option) \<Rightarrow> ptr \<Rightarrow> cell list \<Rightarrow> ptr \<Rightarrow> bool"
where
  "lseg ns ds p [] q \<longleftrightarrow> p = q"
| "lseg ns ds p (c # cs) q \<longleftrightarrow>
     p = cell_node c \<and> p \<noteq> NULL \<and> ds (cell_data c) = Some (cell_thread c) \<and>
     (\<exists>r. ns p = Some \<lparr>node_data = cell_data c, node_next = r\<rparr> \<and> lseg ns ds r cs q)"

definition separate :: "cell list \<Rightarrow> bool" where
  "separate cs \<longleftrightarrow> distinct (map cell_node cs) \<and> distinct (map cell_data cs)"

definition threads_rep :: "proc \<Rightarrow> cell list \<Rightarrow> bool" where
  "threads_rep s cs \<longleftrightarrow> lseg (nodes s) (datas s) (head s) cs NULL \<and> separate cs"

lemma lseg_append:
  "lseg ns ds p (cs @ cs') q \<longleftrightarrow> (\<exists>r. lseg ns ds p cs r \<and> lseg ns ds r cs' q)"
  by (induction cs arbitrary: p) auto

lemma lseg_frame:
  "lseg ns ds p cs q \<Longrightarrow> \<forall>c \<in> set cs. ns' (cell_node c) = ns (cell_node c) \<and> ds' (cell_data c) = ds (cell_data c)
     \<Longrightarrow> lseg ns' ds' p cs q"
  by (induction cs arbitrary: p) auto

lemma lseg_upd_other:
  "lseg ns ds p cs q \<Longrightarrow> a \<notin> cell_node ` set cs \<Longrightarrow> d \<notin> cell_data ` set cs \<Longrightarrow>
     lseg (ns(a := x)) (ds(d := y)) p cs q"
  by (erule lseg_frame) auto

lemma lseg_upd_node:
  "lseg ns ds p cs q \<Longrightarrow> a \<notin> cell_node ` set cs \<Longrightarrow> lseg (ns(a := x)) ds p cs q"
  by (erule lseg_frame) auto

lemma lseg_upd_data:
  "lseg ns ds p cs q \<Longrightarrow> d \<notin> cell_data ` set cs \<Longrightarrow> lseg ns (ds(d := y)) p cs q"
  by (erule lseg_frame) auto

lemma lseg_relink:
  assumes "lseg ns ds p (cs @ [c]) q" and "cell_node c \<notin> cell_node ` set cs"
  shows "lseg (ns(cell_node c \<mapsto> \<lparr>node_data = cell_data c, node_next = r\<rparr>)) ds p (cs @ [c]) r"
proof -
  from assms(1) have "lseg ns ds p cs (cell_node c)" and "cell_node c \<noteq> NULL"
    and "ds (cell_data c) = Some (cell_thread c)"
    by (auto simp: lseg_append)
  then show ?thesis using lseg_upd_node [OF _ assms(2)] by (auto simp: lseg_append)
qed

lemma lseg_allocated:
  "lseg ns ds p cs q \<Longrightarrow> c \<in> set cs \<Longrightarrow>
     ns (cell_node c) \<noteq> None \<and> cell_node c \<noteq> NULL \<and> ds (cell_data c) = Some (cell_thread c)"
  by (induction cs arbitrary: p) auto

lemma lseg_last:
  "lseg ns ds p (cs @ [c]) q \<Longrightarrow>
     ns (cell_node c) = Some \<lparr>node_data = cell_data c, node_next = q\<rparr> \<and> cell_node c \<noteq> NULL"
  by (auto simp: lseg_append)

subsection \<open>Insertion appends\<close>

lemma last_node_lseg:
  "lseg ns ds p (cs @ [c]) NULL \<Longrightarrow> last_node ns p = Some (Ret (cell_node c))"
proof (induction cs arbitrary: p)
  case Nil
  then show ?case by (subst last_node.simps) auto
next
  case (Cons c' cs)
  then obtain r where n: "ns p = Some \<lparr>node_data = cell_data c', node_next = r\<rparr>"
    and rest: "lseg ns ds r (cs @ [c]) NULL"
    by auto
  then have "r \<noteq> NULL" by (cases cs) auto
  then show ?case using n Cons.IH [OF rest] by (subst last_node.simps) simp
qed

lemma insertNode_effect:
  assumes rep: "threads_rep s cs" and unl: "listMutex s = Unlocked"
    and new: "malloc_node env (nodes s) = a" "a \<noteq> NULL" "nodes s a = None"
    and d: "datas s d = Some t" "d \<notin> cell_data ` set cs"
  shows "\<exists>s'. insertNode env d s = Some (Ret s') \<and> threads_rep s' (cs @ [(a, d, t)]) \<and>
    listMutex s' = Unlocked \<and> trace s' = trace s \<and> datas s' = datas s \<and>
    fileMutex s' = fileMutex s \<and> isError s' = isError s \<and>
    dom (nodes s') = insert a (dom (nodes s))"
proof -
  have seg: "lseg (nodes s) (datas s) (head s) cs NULL" and sep: "separate cs"
    using rep by (simp_all add: threads_rep_def)
  have "cell_node c \<noteq> a" if "c \<in> set cs" for c
    using lseg_allocated [OF seg that] new(3) by auto
  then have a: "a \<notin> cell_node ` set cs" by blast
  have sep': "separate (cs @ [(a, d, t)])" using sep a d(2) by (auto simp: separate_def)
  let ?ns = "(nodes s)(a \<mapsto> \<lparr>node_data = d, node_next = NULL\<rparr>)"
  have seg': "lseg ?ns (datas s) (head s) cs NULL" by (rule lseg_upd_node [OF seg a])
  show ?thesis
  proof (cases cs rule: rev_cases)
    case Nil
    then have "head s = NULL" using seg by simp
    then show ?thesis using unl new d Nil sep'
      by (auto simp: insertNode_def Let_def lock_list_def unlock_list_def threads_rep_def)
  next
    case (snoc xs c)
    have "head s \<noteq> NULL" using seg snoc by (cases xs) auto
    moreover have "last_node ?ns (head s) = Some (Ret (cell_node c))"
      using last_node_lseg seg' snoc by blast
    moreover have c: "?ns (cell_node c) = Some \<lparr>node_data = cell_data c, node_next = NULL\<rparr>"
      using lseg_last seg' snoc by blast
    moreover have "cell_node c \<notin> cell_node ` set xs" using sep snoc by (auto simp: separate_def)
    then have "lseg (?ns(cell_node c \<mapsto> \<lparr>node_data = cell_data c, node_next = a\<rparr>)) (datas s) (head s) cs a"
      using lseg_relink seg' snoc by blast
    moreover have "cell_node c \<noteq> a" using a snoc by auto
    ultimately show ?thesis using unl new d sep' c
      by (auto simp: insertNode_def Let_def lock_list_def unlock_list_def set_next_def threads_rep_def
          lseg_append)
  qed
qed

subsection \<open>Removal filters\<close>

definition joins :: "cell list \<Rightarrow> proc_event list" where
  "joins cs = map (\<lambda>c. Joined (threadId (cell_thread c))) cs"

text \<open>What the removal of the chosen cells changes: joins in order, and their objects freed.\<close>

definition removed :: "(thread_data_t \<Rightarrow> bool) \<Rightarrow> cell list \<Rightarrow> proc \<Rightarrow> proc \<Rightarrow> bool" where
  "removed which cs s s' \<longleftrightarrow>
     trace s' = trace s @ joins (filter (\<lambda>c. which (cell_thread c)) cs) \<and>
     listMutex s' = listMutex s \<and> fileMutex s' = fileMutex s \<and>
     server_fd s' = server_fd s \<and> file_fd s' = file_fd s \<and> isError s' = isError s \<and>
     dom (nodes s') = dom (nodes s) - cell_node ` {c \<in> set cs. which (cell_thread c)} \<and>
     dom (datas s') = dom (datas s) - cell_data ` {c \<in> set cs. which (cell_thread c)}"

lemma removed_Nil: "removed which [] s s"
  by (simp add: removed_def joins_def)

lemma removed_Cons:
  assumes "which (cell_thread c)" and "removed (\<lambda>_. True) [c] s s1" and "removed which cs s1 s'"
  shows "removed which (c # cs) s s'"
proof -
  have "{x \<in> set (c # cs). which (cell_thread x)} = insert c {x \<in> set cs. which (cell_thread x)}"
    using assms(1) by auto
  then show ?thesis using assms by (auto simp: removed_def joins_def)
qed

lemma removed_skip:
  assumes "\<not> which (cell_thread c)" and "removed which cs s s'"
  shows "removed which (c # cs) s s'"
proof -
  have "{x \<in> set (c # cs). which (cell_thread x)} = {x \<in> set cs. which (cell_thread x)}"
    using assms(1) by auto
  then show ?thesis using assms by (simp add: removed_def)
qed

text \<open>
  One round: after the kept cells \<open>pre\<close> comes \<open>c\<close>; joining and unlinking it leaves the kept cells
  linked to the rest.
\<close>

lemma remove_current_effect:
  assumes pre: "lseg (nodes s) (datas s) (head s) pre (cell_node c)"
    and rest: "lseg (nodes s) (datas s) (cell_node c) (c # cs) NULL"
    and sep: "separate (pre @ c # cs)"
    and prev: "prev = (if pre = [] then NULL else cell_node (last pre))"
    and n: "nodes s (cell_node c) = Some n"
    and ends: "ends env (threadId (cell_thread c))"
    and fresh: "Joined (threadId (cell_thread c)) \<notin> set (trace s)"
  shows "\<exists>s'. remove_current env prev (cell_node c) n (cell_thread c) s = Ret (node_next n, s') \<and>
    lseg (nodes s') (datas s') (head s') pre (node_next n) \<and>
    lseg (nodes s') (datas s') (node_next n) cs NULL \<and>
    removed (\<lambda>_. True) [c] s s'"
proof -
  obtain r where nr: "n = \<lparr>node_data = cell_data c, node_next = r\<rparr>"
    and seg: "lseg (nodes s) (datas s) r cs NULL"
    using rest n by auto
  have sepc: "cell_node c \<notin> cell_node ` set cs" "cell_data c \<notin> cell_data ` set cs"
    "cell_node c \<notin> cell_node ` set pre" "cell_data c \<notin> cell_data ` set pre"
    using sep by (auto simp: separate_def)
  have seg': "lseg ((nodes s)(cell_node c := None)) ((datas s)(cell_data c := None)) r cs NULL"
    by (rule lseg_upd_other [OF seg sepc(1,2)])
  show ?thesis
  proof (cases pre rule: rev_cases)
    case Nil
    then show ?thesis using prev seg' fresh ends nr
      by (auto simp: remove_current_def pthread_join_def unlink_def link_of_def free_node_def
          removed_def joins_def)
  next
    case (snoc xs x)
    have x: "nodes s (cell_node x) = Some \<lparr>node_data = cell_data x, node_next = cell_node c\<rparr>"
      "cell_node x \<noteq> NULL"
      using lseg_last [of "nodes s" "datas s" "head s" xs x] pre snoc by auto
    have xx: "cell_node x \<notin> cell_node ` set xs" "cell_node x \<notin> cell_node ` set cs"
      "cell_node x \<noteq> cell_node c"
      using sep snoc by (auto simp: separate_def)
    let ?ns = "(nodes s)(cell_node x \<mapsto> \<lparr>node_data = cell_data x, node_next = r\<rparr>)"
    have "lseg ?ns (datas s) (head s) pre r"
      using lseg_relink [of "nodes s" "datas s" "head s" xs x] pre snoc xx by blast
    then have "lseg (?ns(cell_node c := None)) ((datas s)(cell_data c := None)) (head s) pre r"
      by (rule lseg_upd_other [OF _ sepc(3,4)])
    moreover have "lseg ?ns (datas s) r cs NULL" by (rule lseg_upd_node [OF seg xx(2)])
    then have "lseg (?ns(cell_node c := None)) ((datas s)(cell_data c := None)) r cs NULL"
      by (rule lseg_upd_other [OF _ sepc(1,2)])
    moreover have "prev = cell_node x" using prev snoc by simp
    moreover have "dom (?ns(cell_node c := None)) = dom (nodes s) - {cell_node c}" using x by auto
    ultimately show ?thesis using fresh ends nr x xx
      by (auto simp: remove_current_def pthread_join_def unlink_def set_next_def link_of_def
          free_node_def fun_upd_twist removed_def joins_def)
  qed
qed

lemma remove_loop_effect:
  "lseg (nodes s) (datas s) (head s) pre cur \<Longrightarrow> lseg (nodes s) (datas s) cur cs NULL \<Longrightarrow>
   separate (pre @ cs) \<Longrightarrow> prev = (if pre = [] then NULL else cell_node (last pre)) \<Longrightarrow>
   \<forall>c \<in> set cs. which (cell_thread c) \<longrightarrow> ends env (threadId (cell_thread c)) \<Longrightarrow>
   distinct (map (\<lambda>c. threadId (cell_thread c)) cs) \<Longrightarrow>
   set (joins cs) \<inter> set (trace s) = {} \<Longrightarrow>
   \<exists>s'. remove_loop env which cur prev s = Some (Ret s') \<and>
     lseg (nodes s') (datas s') (head s') (pre @ filter (\<lambda>c. \<not> which (cell_thread c)) cs) NULL \<and>
     removed which cs s s'"
proof (induction cs arbitrary: s pre cur prev)
  case Nil
  then show ?case by (subst remove_loop.simps) (simp add: removed_Nil)
next
  case (Cons c cs)
  from Cons.prems(2) obtain n where cur: "cur = cell_node c" "cur \<noteq> NULL"
    and n: "nodes s (cell_node c) = Some n" "node_data n = cell_data c"
    and t: "datas s (cell_data c) = Some (cell_thread c)"
    and rest: "lseg (nodes s) (datas s) (node_next n) cs NULL"
    by auto
  have en: "\<forall>c \<in> set cs. which (cell_thread c) \<longrightarrow> ends env (threadId (cell_thread c))"
    and di: "distinct (map (\<lambda>c. threadId (cell_thread c)) cs)"
    using Cons.prems(5,6) by simp_all
  show ?case
  proof (cases "which (cell_thread c)")
    case True
    have e: "ends env (threadId (cell_thread c))" and f: "Joined (threadId (cell_thread c)) \<notin> set (trace s)"
      using Cons.prems(5,7) True by (auto simp: joins_def)
    obtain s1 where r: "remove_current env prev (cell_node c) n (cell_thread c) s = Ret (node_next n, s1)"
      and s1: "lseg (nodes s1) (datas s1) (head s1) pre (node_next n)"
        "lseg (nodes s1) (datas s1) (node_next n) cs NULL" and rm: "removed (\<lambda>_. True) [c] s s1"
      using remove_current_effect [OF Cons.prems(1)[unfolded cur(1)] Cons.prems(2)[unfolded cur(1)]
          Cons.prems(3,4) n(1) e f] by blast
    have sep: "separate (pre @ cs)" using Cons.prems(3) by (auto simp: separate_def)
    have tr: "set (joins cs) \<inter> set (trace s1) = {}"
      using Cons.prems(6,7) rm by (auto simp: joins_def removed_def)
    from Cons.IH [OF s1 sep Cons.prems(4) en di tr] obtain s'
      where s': "remove_loop env which (node_next n) prev s1 = Some (Ret s')"
      "lseg (nodes s') (datas s') (head s') (pre @ filter (\<lambda>c. \<not> which (cell_thread c)) cs) NULL"
      "removed which cs s1 s'"
      by blast
    have "remove_loop env which cur prev s = Some (Ret s')"
      using cur n t True r s'(1) by (subst remove_loop.simps) simp
    then show ?thesis using s'(2) True removed_Cons [of which, OF True rm s'(3)] by simp
  next
    case False
    have "n = \<lparr>node_data = cell_data c, node_next = node_next n\<rparr>" using n(2) by simp
    then have seg: "lseg (nodes s) (datas s) (head s) (pre @ [c]) (node_next n)"
      using Cons.prems(1) cur n(1) t by (simp add: lseg_append)
    have sep: "separate ((pre @ [c]) @ cs)" using Cons.prems(3) by simp
    have tr: "set (joins cs) \<inter> set (trace s) = {}" using Cons.prems(7) by (auto simp: joins_def)
    have pr: "cur = (if pre @ [c] = [] then NULL else cell_node (last (pre @ [c])))" by (simp add: cur)
    from Cons.IH [OF seg rest sep pr en di tr] obtain s'
      where s': "remove_loop env which (node_next n) cur s = Some (Ret s')"
      "lseg (nodes s') (datas s') (head s') ((pre @ [c]) @ filter (\<lambda>c. \<not> which (cell_thread c)) cs) NULL"
      "removed which cs s s'"
      by blast
    have "remove_loop env which cur prev s = Some (Ret s')"
      using cur n t False s'(1) by (subst remove_loop.simps) simp
    then show ?thesis using s'(2) False removed_skip [of which, OF False s'(3)] by simp
  qed
qed

lemma separate_filter: "separate cs \<Longrightarrow> separate (filter P cs)"
  by (auto simp: separate_def distinct_map inj_on_def)

text \<open>The whole removal under the lock, from the head of the list.\<close>

lemma remove_all_effect:
  assumes rep: "threads_rep s cs"
    and ends: "\<forall>c \<in> set cs. which (cell_thread c) \<longrightarrow> ends env (threadId (cell_thread c))"
    and ids: "distinct (map (\<lambda>c. threadId (cell_thread c)) cs)"
    and fresh: "set (joins cs) \<inter> set (trace s) = {}"
  shows "\<exists>s'. remove_loop env which (head s) NULL s = Some (Ret s') \<and>
    threads_rep s' (filter (\<lambda>c. \<not> which (cell_thread c)) cs) \<and> removed which cs s s'"
  using remove_loop_effect [of s "[]" "head s" cs NULL which env] assms separate_filter
  by (auto simp: threads_rep_def)

lemma removeCompletedThreads_effect:
  assumes rep: "threads_rep s cs" and unl: "listMutex s = Unlocked"
    and ends: "\<forall>c \<in> set cs. isComplete (cell_thread c) \<noteq> 0 \<longrightarrow> ends env (threadId (cell_thread c))"
    and ids: "distinct (map (\<lambda>c. threadId (cell_thread c)) cs)"
    and fresh: "set (joins cs) \<inter> set (trace s) = {}"
  shows "\<exists>s'. removeCompletedThreads env s = Some (Ret s') \<and>
    threads_rep s' (filter (\<lambda>c. isComplete (cell_thread c) = 0) cs) \<and>
    removed (\<lambda>t. isComplete t \<noteq> 0) cs s s'"
proof -
  let ?s = "s\<lparr>listMutex := Locked\<rparr>" and ?which = "\<lambda>t. isComplete t \<noteq> 0"
  have "threads_rep ?s cs" and "set (joins cs) \<inter> set (trace ?s) = {}"
    using rep fresh by (simp_all add: threads_rep_def)
  from remove_all_effect [OF this(1) ends ids this(2)] obtain s1
    where s1: "remove_loop env ?which (head ?s) NULL ?s = Some (Ret s1)"
      "threads_rep s1 (filter (\<lambda>c. \<not> ?which (cell_thread c)) cs)" "removed ?which cs ?s s1"
    by blast
  have l: "listMutex s1 = Locked" using s1(3) by (simp add: removed_def)
  have "removeCompletedThreads env s = Some (Ret (s1\<lparr>listMutex := Unlocked\<rparr>))"
    using unl s1(1) l by (simp add: removeCompletedThreads_def lock_list_def unlock_list_def)
  moreover have "threads_rep (s1\<lparr>listMutex := Unlocked\<rparr>) (filter (\<lambda>c. isComplete (cell_thread c) = 0) cs)"
    using s1(2) by (simp add: threads_rep_def)
  moreover have "removed ?which cs s (s1\<lparr>listMutex := Unlocked\<rparr>)"
    using s1(3) unl by (simp add: removed_def)
  ultimately show ?thesis by blast
qed

lemma do_shutdown_effect:
  assumes rep: "threads_rep s cs" and unl: "listMutex s = Unlocked" "fileMutex s = Unlocked"
    and ends: "\<forall>c \<in> set cs. ends env (threadId (cell_thread c))"
    and ids: "distinct (map (\<lambda>c. threadId (cell_thread c)) cs)"
    and fresh: "set (joins cs) \<inter> set (trace s) = {}"
  shows "\<exists>s'. do_shutdown env dev s = Some (Ret s') \<and>
    head s' = NULL \<and> listMutex s' = Destroyed \<and> fileMutex s' = Destroyed \<and> isError s' = isError s \<and>
    trace s' = trace s @ joins cs @ [Closed_fd (server_fd s), Closed_fd (file_fd s)] @
      (if dev then [] else [Removed_data_file]) \<and>
    dom (nodes s') = dom (nodes s) - cell_node ` set cs \<and>
    dom (datas s') = dom (datas s) - cell_data ` set cs"
proof -
  let ?s = "s\<lparr>listMutex := Locked\<rparr>"
  have r: "threads_rep ?s cs" and f: "set (joins cs) \<inter> set (trace ?s) = {}"
    using rep fresh by (simp_all add: threads_rep_def)
  have e: "\<forall>c \<in> set cs. True \<longrightarrow> ends env (threadId (cell_thread c))" using ends by simp
  from remove_all_effect [of ?s cs "\<lambda>_. True", OF r e ids f] obtain s1
    where s1: "remove_loop env (\<lambda>_. True) (head ?s) NULL ?s = Some (Ret s1)"
      "threads_rep s1 []" "removed (\<lambda>_. True) cs ?s s1"
    by auto
  show ?thesis
    using unl s1
    by (simp add: do_shutdown_def lock_list_def finish_shutdown_def unlock_list_def removed_def
        threads_rep_def Let_def)
qed

lemma do_shutdown_destroyed:
  "listMutex s = Destroyed \<Longrightarrow> do_shutdown env dev s = Some Undef"
  by (simp add: do_shutdown_def lock_list_def)

end
