(* ===== verification/Socket_Main.thy ===== *)
theory Socket_Main
  imports Thread_List
begin

text \<open>
  The main thread of the socket servers: the setup, the accept loop, the signal handler and
  \<open>make_Daemon\<close>. What the network, the thread library and the scheduler do in one round of the
  loop is an \<open>iteration\<close>; the loop is a function of the list of them.
\<close>

subsection \<open>The two programs\<close>

datatype program = Aesdsocket | Aesdsocket_simple

text \<open>Only \<^verbatim>\<open>aesdsocket.c\<close> is compiled with \<open>USE_AESD_CHAR_DEVICE\<close>.\<close>

fun use_char_device :: "program \<Rightarrow> bool" where
  "use_char_device Aesdsocket = True"
| "use_char_device Aesdsocket_simple = False"

subsection \<open>Setup\<close>

record net =
  socket_r :: int
  setsockopt_r :: int
  bind_r :: int
  listen_r :: int

definition initial_proc :: proc where
  "initial_proc = \<lparr>head = NULL, nodes = Map.empty, datas = Map.empty, listMutex = Unlocked,
     fileMutex = Unlocked, server_fd = 0, file_fd = 0, isError = False, isDaemon = False, trace = []\<rparr>"

text \<open>The setup either ends the program with an exit code or leaves it ready to accept.\<close>

definition main_setup :: "net \<Rightarrow> string list \<Rightarrow> proc \<Rightarrow> int option \<times> proc" where
  "main_setup net argv s =
     (let s = s\<lparr>isDaemon := (1 < length argv \<and> argv ! 1 = ''-d'')\<rparr>;
          s = s\<lparr>server_fd := socket_r net\<rparr>;
          close = (\<lambda>s. s\<lparr>trace := trace s @ [Closed_fd (server_fd s)]\<rparr>)
      in if socket_r net = -1 then (Some 1, s)
      else if setsockopt_r net = -1 then (Some 1, s)
      else if bind_r net = -1 then (Some 1, close s)
      else if listen_r net = -1 then (Some 1, close s)
      else (None, s\<lparr>fileMutex := Unlocked, listMutex := Unlocked\<rparr>))"

subsection \<open>Signals and daemons\<close>

definition signal_handler :: "thread_env \<Rightarrow> program \<Rightarrow> proc \<Rightarrow> proc outcome option" where
  "signal_handler env prog s = do_shutdown env (use_char_device prog) (s\<lparr>isError := True\<rparr>)"

text \<open>\<open>fork\<close> makes two processes; the value says what the one that runs on does.\<close>

datatype daemon_result = Fork_failed | Parent_exits | Child_detached

definition make_Daemon :: "int \<Rightarrow> daemon_result" where
  "make_Daemon pid = (if pid < 0 then Fork_failed else if pid > 0 then Parent_exits else Child_detached)"

subsection \<open>The accept loop\<close>

text \<open>
  One round: whether the signal handler runs while \<open>accept\<close> waits, what \<open>accept\<close> returns, the
  identifier of the new thread when \<open>pthread_create\<close> succeeds, and the client threads that have set
  \<open>isComplete\<close> by the time the list is cleaned.
\<close>

record iteration =
  signalled :: bool
  accepted_fd :: int
  created :: "nat option"
  completed :: "nat list"

definition mark_complete :: "nat list \<Rightarrow> proc \<Rightarrow> proc" where
  "mark_complete ts s = s\<lparr>datas := (\<lambda>d. map_option
     (\<lambda>t. if threadId t \<in> set ts then t\<lparr>isComplete := 1\<rparr> else t) (datas s d))\<rparr>"

text \<open>\<open>malloc\<close> of the thread record, and its fields before the thread is created.\<close>

definition start_thread :: "thread_env \<Rightarrow> iteration \<Rightarrow> proc \<Rightarrow> proc outcome option" where
  "start_thread env i s =
     (let data = malloc_data env (datas s) in
      if data = NULL then Some Undef
      else case created i of
        Some tid \<Rightarrow> insertNode env data
          (s\<lparr>datas := (datas s)(data \<mapsto> \<lparr>threadId = tid, client_fd = accepted_fd i, isComplete = 0\<rparr>)\<rparr>)
      | None \<Rightarrow> Some (Ret (s\<lparr>datas := (datas s)(data := None)\<rparr>)))"

definition accept_round :: "thread_env \<Rightarrow> program \<Rightarrow> iteration \<Rightarrow> proc \<Rightarrow> proc outcome option" where
  "accept_round env prog i s =
     tbind (if signalled i then signal_handler env prog s else Some (Ret s)) (\<lambda>s.
     if accepted_fd i = -1 then Some (Ret s)
     else tbind (start_thread env i s) (\<lambda>s. removeCompletedThreads env (mark_complete (completed i) s)))"

text \<open>
  The loop over the rounds that happen. The flag is True when the program has left the loop and
  shut down, False when it waits for the next connection.
\<close>

fun main_loop :: "thread_env \<Rightarrow> program \<Rightarrow> iteration list \<Rightarrow> proc \<Rightarrow> (bool \<times> proc) outcome option" where
  "main_loop env prog is s =
     (if isError s
      then tbind (do_shutdown env (use_char_device prog) s) (\<lambda>s. Some (Ret (True, s)))
      else case is of
        [] \<Rightarrow> Some (Ret (False, s))
      | i # is \<Rightarrow> tbind (accept_round env prog i s) (main_loop env prog is))"

declare main_loop.simps [simp del]

subsection \<open>The invariant of the loop\<close>

definition env_ok :: "thread_env \<Rightarrow> bool" where
  "env_ok env \<longleftrightarrow>
     (\<forall>ns. finite (dom ns) \<longrightarrow> malloc_node env ns \<noteq> NULL \<and> ns (malloc_node env ns) = None) \<and>
     (\<forall>ds. finite (dom ds) \<longrightarrow> malloc_data env ds \<noteq> NULL \<and> ds (malloc_data env ds) = None)"

definition joined_ids :: "proc \<Rightarrow> nat list" where
  "joined_ids s = concat (map (\<lambda>e. case e of Joined t \<Rightarrow> [t] | _ \<Rightarrow> []) (trace s))"

abbreviation cell_id :: "cell \<Rightarrow> nat" where "cell_id c \<equiv> threadId (cell_thread c)"

text \<open>
  Every thread created so far is in the list or has been joined, once; the list holds exactly the
  objects that are allocated.
\<close>

definition loop_inv :: "nat list \<Rightarrow> cell list \<Rightarrow> proc \<Rightarrow> bool" where
  "loop_inv ids cs s \<longleftrightarrow>
     threads_rep s cs \<and> listMutex s = Unlocked \<and> fileMutex s = Unlocked \<and> \<not> isError s \<and>
     distinct (joined_ids s @ map cell_id cs) \<and>
     set (joined_ids s) \<union> cell_id ` set cs = set ids \<and>
     dom (nodes s) = cell_node ` set cs \<and> dom (datas s) = cell_data ` set cs \<and>
     (\<forall>c \<in> set cs. isComplete (cell_thread c) = 0)"

lemma Joined_in_trace: "Joined t \<in> set (trace s) \<longleftrightarrow> t \<in> set (joined_ids s)"
  by (force simp: joined_ids_def split: proc_event.splits)

lemma joins_fresh:
  "distinct (joined_ids s @ map cell_id cs) \<Longrightarrow> set (joins cs) \<inter> set (trace s) = {}"
  by (force simp: joins_def Joined_in_trace)

lemma joined_ids_joins: "concat (map (\<lambda>e. case e of Joined t \<Rightarrow> [t] | _ \<Rightarrow> []) (joins cs)) = map cell_id cs"
  by (induction cs) (auto simp: joins_def)

definition marked :: "nat list \<Rightarrow> cell \<Rightarrow> cell" where
  "marked ts c = (cell_node c, cell_data c,
     if cell_id c \<in> set ts then (cell_thread c)\<lparr>isComplete := 1\<rparr> else cell_thread c)"

lemma marked_simps [simp]:
  "cell_node (marked ts c) = cell_node c" "cell_data (marked ts c) = cell_data c"
  "cell_id (marked ts c) = cell_id c"
  "isComplete (cell_thread (marked ts c)) =
     (if cell_id c \<in> set ts then 1 else isComplete (cell_thread c))"
  by (simp_all add: marked_def)

lemma mark_complete_rep:
  assumes rep: "threads_rep s cs"
  shows "threads_rep (mark_complete ts s) (map (marked ts) cs)"
proof -
  have "lseg (nodes s) (datas (mark_complete ts s)) p (map (marked ts) cs) q"
    if "lseg (nodes s) (datas s) p cs q" for p q
    using that by (induction cs arbitrary: p) (auto simp: mark_complete_def marked_def)
  then show ?thesis
    using rep by (simp add: threads_rep_def mark_complete_def separate_def comp_def)
qed

lemma loop_inv_snoc:
  assumes inv: "loop_inv ids cs s" and rep: "threads_rep s' (cs @ [c])"
    and same: "listMutex s' = Unlocked" "fileMutex s' = fileMutex s" "isError s' = isError s" "trace s' = trace s"
    and new: "cell_id c \<notin> set ids" "isComplete (cell_thread c) = 0"
    and dom: "dom (nodes s') = insert (cell_node c) (dom (nodes s))"
      "dom (datas s') = insert (cell_data c) (dom (datas s))"
  shows "loop_inv (ids @ [cell_id c]) (cs @ [c]) s'"
proof -
  have ji: "joined_ids s' = joined_ids s" by (simp add: joined_ids_def same)
  have "set ids = set (joined_ids s) \<union> cell_id ` set cs" using inv by (simp add: loop_inv_def)
  then have nt: "cell_id c \<notin> set (joined_ids s)" "cell_id c \<notin> cell_id ` set cs" using new(1) by blast+
  have "distinct (joined_ids s' @ map cell_id (cs @ [c]))" using inv nt by (simp add: ji loop_inv_def)
  moreover have "set (joined_ids s') \<union> cell_id ` set (cs @ [c]) = set (ids @ [cell_id c])"
    using inv by (simp add: ji loop_inv_def)
  moreover have "dom (nodes s') = cell_node ` set (cs @ [c])" "dom (datas s') = cell_data ` set (cs @ [c])"
    using inv by (simp_all add: dom loop_inv_def)
  moreover have "\<forall>c \<in> set (cs @ [c]). isComplete (cell_thread c) = 0" using inv new(2) by (simp add: loop_inv_def)
  ultimately show ?thesis using inv rep same unfolding loop_inv_def by simp
qed

lemma start_thread_inv:
  assumes env: "env_ok env" and inv: "loop_inv ids cs s"
    and new: "\<forall>tid. created i = Some tid \<longrightarrow> tid \<notin> set ids"
  shows "\<exists>s' cs'. start_thread env i s = Some (Ret s') \<and>
    loop_inv (ids @ (case created i of None \<Rightarrow> [] | Some t \<Rightarrow> [t])) cs' s' \<and> trace s' = trace s"
proof -
  have fin: "finite (dom (nodes s))" "finite (dom (datas s))"
    using inv by (simp_all add: loop_inv_def)
  let ?d = "malloc_data env (datas s)" and ?a = "malloc_node env (nodes s)"
  have d: "?d \<noteq> NULL" "datas s ?d = None" and a: "?a \<noteq> NULL" "nodes s ?a = None"
    using env fin by (simp_all add: env_ok_def)
  have "dom (datas s) = cell_data ` set cs" using inv by (simp add: loop_inv_def)
  then have dc: "?d \<notin> cell_data ` set cs" using d(2) by blast
  show ?thesis
  proof (cases "created i")
    case None
    have "(datas s)(?d := None) = datas s" using d(2) by (simp add: fun_upd_idem)
    then have "s\<lparr>datas := (datas s)(?d := None)\<rparr> = s" by simp
    then show ?thesis using None d inv by (auto simp: start_thread_def Let_def)
  next
    case (Some tid)
    let ?t = "\<lparr>threadId = tid, client_fd = accepted_fd i, isComplete = 0\<rparr>"
    let ?s = "s\<lparr>datas := (datas s)(?d \<mapsto> ?t)\<rparr>" and ?c = "(?a, ?d, ?t)"
    have "lseg (nodes s) ((datas s)(?d \<mapsto> ?t)) (head s) cs NULL"
      using inv dc by (intro lseg_upd_data) (simp_all add: loop_inv_def threads_rep_def)
    then have rep: "threads_rep ?s cs" using inv by (simp add: loop_inv_def threads_rep_def)
    have unl: "listMutex ?s = Unlocked" using inv by (simp add: loop_inv_def)
    have al: "malloc_node env (nodes ?s) = ?a" "nodes ?s ?a = None" "datas ?s ?d = Some ?t"
      using a by simp_all
    obtain s' where s': "insertNode env ?d ?s = Some (Ret s')" "threads_rep s' (cs @ [?c])"
      "listMutex s' = Unlocked" "trace s' = trace ?s" "datas s' = datas ?s"
      "fileMutex s' = fileMutex ?s" "isError s' = isError ?s"
      "dom (nodes s') = insert ?a (dom (nodes ?s))"
      using insertNode_effect [OF rep unl al(1) a(1) al(2,3) dc]
      by (elim exE conjE) (rule that; assumption)
    have "start_thread env i s = Some (Ret s')" using Some d(1) s'(1) by (simp add: start_thread_def Let_def)
    moreover have "loop_inv (ids @ [cell_id ?c]) (cs @ [?c]) s'"
      using s' new Some by (intro loop_inv_snoc [OF inv]) auto
    ultimately show ?thesis using Some s'(4) by (intro exI [of _ s'] exI [of _ "cs @ [?c]"]) simp
  qed
qed

text \<open>Removing the marked records from the list: what is left of it, and the invariant.\<close>

lemma removed_marked:
  assumes rm: "removed (\<lambda>t. isComplete t \<noteq> 0) (map (marked ts) cs) (mark_complete ts s) s'"
    and incomplete: "\<forall>c \<in> set cs. isComplete (cell_thread c) = 0"
  shows "trace s' = trace s @ joins (filter (\<lambda>c. cell_id c \<in> set ts) cs)"
    and "dom (nodes s') = dom (nodes s) - cell_node ` set (filter (\<lambda>c. cell_id c \<in> set ts) cs)"
    and "dom (datas s') = dom (datas s) - cell_data ` set (filter (\<lambda>c. cell_id c \<in> set ts) cs)"
proof -
  let ?gone = "filter (\<lambda>c. cell_id c \<in> set ts) cs"
  have m: "trace (mark_complete ts s) = trace s" "nodes (mark_complete ts s) = nodes s"
    "dom (datas (mark_complete ts s)) = dom (datas s)"
    by (auto simp: mark_complete_def)
  have "joins (filter (\<lambda>c. isComplete (cell_thread c) \<noteq> 0) (map (marked ts) cs)) = joins ?gone"
    using incomplete by (induction cs) (auto simp: joins_def)
  then show "trace s' = trace s @ joins ?gone" using rm m by (simp add: removed_def)
  have "\<forall>c \<in> set cs. isComplete (cell_thread (marked ts c)) \<noteq> 0 \<longleftrightarrow> cell_id c \<in> set ts"
    using incomplete by simp
  then have sets: "{c \<in> set (map (marked ts) cs). isComplete (cell_thread c) \<noteq> 0} = marked ts ` set ?gone"
    unfolding set_map set_filter by blast
  show "dom (nodes s') = dom (nodes s) - cell_node ` set ?gone"
    using rm by (simp only: removed_def sets m image_image marked_simps)
  show "dom (datas s') = dom (datas s) - cell_data ` set ?gone"
    using rm by (simp only: removed_def sets m image_image marked_simps)
qed

lemma loop_inv_removed:
  assumes inv: "loop_inv ids cs s" and rep: "threads_rep s' (filter (\<lambda>c. cell_id c \<notin> set ts) cs)"
    and same: "listMutex s' = Unlocked" "fileMutex s' = fileMutex s" "isError s' = isError s"
    and tr: "trace s' = trace s @ joins (filter (\<lambda>c. cell_id c \<in> set ts) cs)"
    and dom: "dom (nodes s') = dom (nodes s) - cell_node ` set (filter (\<lambda>c. cell_id c \<in> set ts) cs)"
      "dom (datas s') = dom (datas s) - cell_data ` set (filter (\<lambda>c. cell_id c \<in> set ts) cs)"
  shows "loop_inv ids (filter (\<lambda>c. cell_id c \<notin> set ts) cs) s'"
proof -
  let ?kept = "filter (\<lambda>c. cell_id c \<notin> set ts) cs" and ?gone = "filter (\<lambda>c. cell_id c \<in> set ts) cs"
  have ji: "joined_ids s' = joined_ids s @ map cell_id ?gone"
    by (simp add: joined_ids_def joined_ids_joins tr)
  have nd: "inj_on cell_node (set cs)" "inj_on cell_data (set cs)"
    using inv by (simp_all add: loop_inv_def threads_rep_def separate_def distinct_map)
  have dn: "dom (nodes s') = cell_node ` set ?kept" "dom (datas s') = cell_data ` set ?kept"
    using inv nd by (auto simp: dom loop_inv_def inj_on_def)
  have "distinct (joined_ids s' @ map cell_id ?kept)"
    using inv by (auto simp: ji loop_inv_def distinct_map inj_on_def)
  moreover have "cell_id ` set cs = cell_id ` set ?gone \<union> cell_id ` set ?kept" by auto
  then have "set (joined_ids s') \<union> cell_id ` set ?kept = set ids"
    using inv by (simp add: ji loop_inv_def Un_assoc)
  ultimately show ?thesis using inv rep same dn by (simp add: loop_inv_def)
qed

lemma remove_completed_inv:
  assumes inv: "loop_inv ids cs s" and ends: "\<forall>t \<in> set ts. ends env t"
  shows "\<exists>s'. removeCompletedThreads env (mark_complete ts s) = Some (Ret s') \<and>
    loop_inv ids (filter (\<lambda>c. cell_id c \<notin> set ts) cs) s' \<and>
    trace s' = trace s @ joins (filter (\<lambda>c. cell_id c \<in> set ts) cs)"
proof -
  let ?m = "mark_complete ts s" and ?cs = "map (marked ts) cs"
  have incomplete: "\<forall>c \<in> set cs. isComplete (cell_thread c) = 0" using inv by (simp add: loop_inv_def)
  have m: "trace ?m = trace s" "listMutex ?m = listMutex s" "fileMutex ?m = fileMutex s" "isError ?m = isError s"
    by (simp_all add: mark_complete_def)
  have rep: "threads_rep ?m ?cs" using inv by (simp add: loop_inv_def mark_complete_rep)
  have unl: "listMutex ?m = Unlocked" using inv m by (simp add: loop_inv_def)
  have en: "\<forall>c \<in> set ?cs. isComplete (cell_thread c) \<noteq> 0 \<longrightarrow> ends env (cell_id c)"
    using ends incomplete by auto
  have di: "distinct (map cell_id ?cs)" and fr: "set (joins ?cs) \<inter> set (trace ?m) = {}"
    using inv joins_fresh [of ?m ?cs] m by (simp_all add: loop_inv_def comp_def joined_ids_def)
  obtain s' where s': "removeCompletedThreads env ?m = Some (Ret s')"
    "threads_rep s' (filter (\<lambda>c. isComplete (cell_thread c) = 0) ?cs)"
    "removed (\<lambda>t. isComplete t \<noteq> 0) ?cs ?m s'"
    using removeCompletedThreads_effect [OF rep unl en di fr] by blast
  have "filter (\<lambda>c. isComplete (cell_thread c) = 0) ?cs = filter (\<lambda>c. cell_id c \<notin> set ts) cs"
    using incomplete by (induction cs) (auto simp: marked_def)
  then have "threads_rep s' (filter (\<lambda>c. cell_id c \<notin> set ts) cs)" using s'(2) by simp
  moreover have "listMutex s' = Unlocked" "fileMutex s' = fileMutex s" "isError s' = isError s"
    using s'(3) m unl by (simp_all add: removed_def)
  ultimately show ?thesis
    using loop_inv_removed [OF inv] removed_marked [OF s'(3) incomplete] s'(1) by blast
qed

subsection \<open>Runs of the loop\<close>

definition new_ids :: "iteration list \<Rightarrow> nat list" where
  "new_ids is = concat (map (\<lambda>i. if accepted_fd i = -1 then []
     else case created i of None \<Rightarrow> [] | Some t \<Rightarrow> [t]) is)"

text \<open>
  Rounds in which no signal arrives, a thread that reports completion does end, and the new threads
  have new identifiers.
\<close>

definition rounds_ok :: "thread_env \<Rightarrow> nat list \<Rightarrow> iteration list \<Rightarrow> bool" where
  "rounds_ok env ids is \<longleftrightarrow> env_ok env \<and> distinct (ids @ new_ids is) \<and>
     (\<forall>i \<in> set is. \<not> signalled i \<and> (\<forall>t \<in> set (completed i). ends env t))"

lemma accept_round_inv:
  assumes ok: "rounds_ok env ids (i # is)" and inv: "loop_inv ids cs s"
  shows "\<exists>s' cs'. accept_round env prog i s = Some (Ret s') \<and> loop_inv (ids @ new_ids [i]) cs' s'"
proof (cases "accepted_fd i = -1")
  case True
  then show ?thesis using ok inv by (auto simp: accept_round_def rounds_ok_def new_ids_def)
next
  case False
  have new: "\<forall>tid. created i = Some tid \<longrightarrow> tid \<notin> set ids"
    using ok False by (auto simp: rounds_ok_def new_ids_def)
  have env: "env_ok env" and ends: "\<forall>t \<in> set (completed i). ends env t" and sig: "\<not> signalled i"
    using ok by (simp_all add: rounds_ok_def)
  obtain s1 cs1 where s1: "start_thread env i s = Some (Ret s1)" "loop_inv (ids @ new_ids [i]) cs1 s1"
    using start_thread_inv [OF env inv new] False by (auto simp: new_ids_def)
  obtain s2 cs2 where "removeCompletedThreads env (mark_complete (completed i) s1) = Some (Ret s2)"
    "loop_inv (ids @ new_ids [i]) cs2 s2"
    using remove_completed_inv [OF s1(2) ends] by blast
  then show ?thesis using s1 sig False by (auto simp: accept_round_def)
qed

lemma rounds_ok_tail:
  "rounds_ok env ids (i # is) \<Longrightarrow> rounds_ok env (ids @ new_ids [i]) is"
  by (simp add: rounds_ok_def new_ids_def)

lemma main_loop_inv:
  "rounds_ok env ids is \<Longrightarrow> loop_inv ids cs s \<Longrightarrow>
     \<exists>s' cs'. main_loop env prog is s = Some (Ret (False, s')) \<and> loop_inv (ids @ new_ids is) cs' s'"
proof (induction "is" arbitrary: ids cs s)
  case Nil
  then show ?case by (subst main_loop.simps) (auto simp: loop_inv_def new_ids_def)
next
  case (Cons i "is")
  obtain s1 cs1 where s1: "accept_round env prog i s = Some (Ret s1)" "loop_inv (ids @ new_ids [i]) cs1 s1"
    using accept_round_inv [OF Cons.prems] by blast
  obtain s' cs' where "main_loop env prog is s1 = Some (Ret (False, s'))"
    "loop_inv ((ids @ new_ids [i]) @ new_ids is) cs' s'"
    using Cons.IH [OF rounds_ok_tail [OF Cons.prems(1)] s1(2)] by blast
  moreover have "\<not> isError s" using Cons.prems(2) by (simp add: loop_inv_def)
  ultimately show ?case using s1(1)
    by (subst main_loop.simps) (auto simp: new_ids_def)
qed

lemma initial_inv: "loop_inv [] [] initial_proc"
  by (simp add: loop_inv_def initial_proc_def threads_rep_def separate_def joined_ids_def)

lemma setup_inv:
  "main_setup net argv initial_proc = (None, s) \<Longrightarrow> loop_inv [] [] s"
  by (auto simp: main_setup_def Let_def loop_inv_def initial_proc_def threads_rep_def separate_def
      joined_ids_def split: if_splits)

text \<open>The shutdown from a state of the loop.\<close>

lemma shutdown_inv:
  assumes inv: "loop_inv ids cs s" and ends: "\<forall>t \<in> set ids. ends env t"
  shows "\<exists>s'. signal_handler env prog s = Some (Ret s') \<and> isError s' \<and>
    listMutex s' = Destroyed \<and> fileMutex s' = Destroyed \<and> nodes s' = Map.empty \<and> datas s' = Map.empty \<and>
    distinct (joined_ids s') \<and> set (joined_ids s') = set ids \<and>
    Closed_fd (server_fd s) \<in> set (trace s')"
proof -
  let ?s = "s\<lparr>isError := True\<rparr>"
  have rep: "threads_rep ?s cs" and unl: "listMutex ?s = Unlocked" "fileMutex ?s = Unlocked"
    using inv by (simp_all add: loop_inv_def threads_rep_def)
  have en: "\<forall>c \<in> set cs. ends env (cell_id c)" using inv ends by (auto simp: loop_inv_def)
  have di: "distinct (map cell_id cs)" using inv by (simp add: loop_inv_def)
  have fr: "set (joins cs) \<inter> set (trace ?s) = {}" using inv joins_fresh by (simp add: loop_inv_def)
  obtain s' where s': "do_shutdown env (use_char_device prog) ?s = Some (Ret s')"
    "listMutex s' = Destroyed" "fileMutex s' = Destroyed" "isError s' = isError ?s"
    "trace s' = trace ?s @ joins cs @ [Closed_fd (server_fd ?s), Closed_fd (file_fd ?s)] @
      (if use_char_device prog then [] else [Removed_data_file])"
    "dom (nodes s') = dom (nodes ?s) - cell_node ` set cs"
    "dom (datas s') = dom (datas ?s) - cell_data ` set cs"
    using do_shutdown_effect [OF rep unl en di fr, of "use_char_device prog"] by blast
  have "nodes s' = Map.empty" "datas s' = Map.empty"
    using s'(6,7) inv by (simp_all add: loop_inv_def dom_eq_empty_conv)
  moreover have "joined_ids s' = joined_ids s @ map cell_id cs"
    by (simp add: joined_ids_def s'(5) joined_ids_joins)
  then have "distinct (joined_ids s')" "set (joined_ids s') = set ids"
    using inv by (auto simp: loop_inv_def)
  ultimately show ?thesis using s' by (simp add: signal_handler_def)
qed

end
