(* ===== verification/Thread_Properties.thy ===== *)
theory Thread_Properties
  imports Socket_Main
begin

text \<open>
  The properties of the thread list and of the main loop of the servers.
\<close>

subsection \<open>A concrete thread library\<close>

definition next_ptr :: "(ptr \<Rightarrow> 'a option) \<Rightarrow> ptr" where
  "next_ptr m = Suc (Max (insert 0 (dom m)))"

definition easy_env :: thread_env where
  "easy_env = \<lparr>ends = (\<lambda>_. True), malloc_node = next_ptr, malloc_data = next_ptr\<rparr>"

lemma next_ptr_fresh:
  assumes "finite (dom m)"
  shows "next_ptr m \<noteq> NULL" and "m (next_ptr m) = None"
proof -
  show "next_ptr m \<noteq> NULL" by (simp add: next_ptr_def)
  have "next_ptr m \<notin> dom m"
  proof
    assume "next_ptr m \<in> dom m"
    then have "next_ptr m \<le> Max (insert 0 (dom m))" using assms by (intro Max_ge) simp_all
    then show False by (simp add: next_ptr_def)
  qed
  then show "m (next_ptr m) = None" by blast
qed

lemma easy_env_ok: "env_ok easy_env"
  by (simp add: env_ok_def easy_env_def next_ptr_fresh)

definition one_thread :: proc where
  "one_thread = initial_proc\<lparr>head := 8, nodes := [8 \<mapsto> \<lparr>node_data = 9, node_next = NULL\<rparr>],
     datas := [9 \<mapsto> \<lparr>threadId = 1, client_fd = 4, isComplete = 1\<rparr>]\<rparr>"

definition one_cell :: cell where
  "one_cell = (8, 9, \<lparr>threadId = 1, client_fd = 4, isComplete = 1\<rparr>)"

lemma one_thread_rep: "threads_rep one_thread [one_cell]"
  by (simp add: threads_rep_def separate_def one_thread_def one_cell_def)

lemma one_thread_simps [simp]:
  "listMutex one_thread = Unlocked" "fileMutex one_thread = Unlocked" "trace one_thread = []"
  "file_fd one_thread = 0" "server_fd one_thread = 0"
  by (simp_all add: one_thread_def initial_proc_def)

subsection \<open>The list\<close>

text \<open>Inserting a thread record into a well-formed list returns, appends the record as the last
  element, leaves every other element in place and gives the list mutex back.\<close>

theorem insert_appends:
  assumes rep: "threads_rep s cs" and unl: "listMutex s = Unlocked"
    and new: "malloc_node env (nodes s) = a" "a \<noteq> NULL" "nodes s a = None"
    and d: "datas s d = Some t" "d \<notin> cell_data ` set cs"
  shows "\<exists>s'. insertNode env d s = Some (Ret s') \<and> threads_rep s' (cs @ [(a, d, t)]) \<and>
    listMutex s' = Unlocked \<and> datas s' = datas s"
  using insertNode_effect [OF assms] by blast

theorem insert_appends_witness:
  "\<exists>s'. insertNode easy_env 10 (one_thread\<lparr>datas := (datas one_thread)(10 \<mapsto>
        \<lparr>threadId = 2, client_fd = 5, isComplete = 0\<rparr>)\<rparr>) = Some (Ret s') \<and>
     threads_rep s' ([one_cell] @ [(9, 10, \<lparr>threadId = 2, client_fd = 5, isComplete = 0\<rparr>)])"
proof -
  let ?s = "one_thread\<lparr>datas := (datas one_thread)(10 \<mapsto>
        \<lparr>threadId = 2, client_fd = 5, isComplete = 0\<rparr>)\<rparr>"
  have "threads_rep ?s [one_cell]"
    by (simp add: threads_rep_def separate_def one_thread_def one_cell_def)
  moreover have "malloc_node easy_env (nodes ?s) = 9"
    by (simp add: easy_env_def next_ptr_def one_thread_def)
  moreover have "nodes ?s 9 = None" by (simp add: one_thread_def)
  moreover have "datas ?s 10 = Some \<lparr>threadId = 2, client_fd = 5, isComplete = 0\<rparr>" by simp
  moreover have "10 \<notin> cell_data ` set [one_cell]" by (simp add: one_cell_def)
  ultimately show ?thesis
    using insert_appends [of ?s "[one_cell]" easy_env 9 10] by fastforce
qed

text \<open>C24: cleaning a well-formed list joins exactly the completed threads, in the order of the list,
  frees exactly their nodes and records, and leaves the list of the others in order.\<close>

theorem clean_removes_completed:
  assumes rep: "threads_rep s cs" and unl: "listMutex s = Unlocked"
    and ends: "\<forall>c \<in> set cs. isComplete (cell_thread c) \<noteq> 0 \<longrightarrow> ends env (cell_id c)"
    and ids: "distinct (map cell_id cs)"
    and fresh: "\<forall>c \<in> set cs. Joined (cell_id c) \<notin> set (trace s)"
    and gone: "gone = filter (\<lambda>c. isComplete (cell_thread c) \<noteq> 0) cs"
  shows "\<exists>s'. removeCompletedThreads env s = Some (Ret s') \<and>
    threads_rep s' (filter (\<lambda>c. isComplete (cell_thread c) = 0) cs) \<and> listMutex s' = Unlocked \<and>
    trace s' = trace s @ map (\<lambda>c. Joined (cell_id c)) gone \<and>
    dom (nodes s') = dom (nodes s) - cell_node ` set gone \<and>
    dom (datas s') = dom (datas s) - cell_data ` set gone"
proof -
  have "set (joins cs) \<inter> set (trace s) = {}" using fresh by (auto simp: joins_def)
  from removeCompletedThreads_effect [OF rep unl ends ids this] unl show ?thesis
    by (auto simp: removed_def joins_def gone)
qed

theorem clean_removes_completed_witness:
  "\<exists>s'. removeCompletedThreads easy_env one_thread = Some (Ret s') \<and> threads_rep s' [] \<and>
    trace s' = [Joined 1]"
proof -
  have *: "isComplete (cell_thread one_cell) = 1" "cell_id one_cell = 1" by (simp_all add: one_cell_def)
  have en: "\<forall>c \<in> set [one_cell]. isComplete (cell_thread c) \<noteq> 0 \<longrightarrow> ends easy_env (cell_id c)"
    by (simp add: easy_env_def)
  have di: "distinct (map cell_id [one_cell])"
    and fr: "\<forall>c \<in> set [one_cell]. Joined (cell_id c) \<notin> set (trace one_thread)" by simp_all
  from clean_removes_completed [OF one_thread_rep one_thread_simps(1) en di fr refl] show ?thesis
    by (auto simp: *)
qed

text \<open>C25: a shutdown joins every thread of the list once, in order, frees the whole list, destroys
  both mutexes, closes the server socket and the data file, and removes the data file exactly in
  the program without the character device.\<close>

theorem shutdown_joins_all:
  assumes rep: "threads_rep s cs" and unl: "listMutex s = Unlocked" "fileMutex s = Unlocked"
    and ends: "\<forall>c \<in> set cs. ends env (cell_id c)"
    and ids: "distinct (map cell_id cs)"
    and fresh: "\<forall>c \<in> set cs. Joined (cell_id c) \<notin> set (trace s)"
  shows "\<exists>s'. do_shutdown env (use_char_device prog) s = Some (Ret s') \<and> head s' = NULL \<and>
    listMutex s' = Destroyed \<and> fileMutex s' = Destroyed \<and>
    trace s' = trace s @ map (\<lambda>c. Joined (cell_id c)) cs @ [Closed_fd (server_fd s), Closed_fd (file_fd s)] @
      (if prog = Aesdsocket then [] else [Removed_data_file]) \<and>
    dom (nodes s') = dom (nodes s) - cell_node ` set cs \<and>
    dom (datas s') = dom (datas s) - cell_data ` set cs"
proof -
  have "set (joins cs) \<inter> set (trace s) = {}" using fresh by (auto simp: joins_def)
  from do_shutdown_effect [OF rep unl ends ids this, of "use_char_device prog"] show ?thesis
    by (cases prog) (auto simp: joins_def)
qed

theorem shutdown_joins_all_witness:
  "\<exists>s'. do_shutdown easy_env (use_char_device Aesdsocket_simple) one_thread = Some (Ret s') \<and>
    head s' = NULL \<and> trace s' = [Joined 1, Closed_fd 0, Closed_fd 0, Removed_data_file]"
proof -
  have id: "cell_id one_cell = 1" by (simp add: one_cell_def)
  have en: "\<forall>c \<in> set [one_cell]. ends easy_env (cell_id c)" by (simp add: easy_env_def)
  have di: "distinct (map cell_id [one_cell])"
    and fr: "\<forall>c \<in> set [one_cell]. Joined (cell_id c) \<notin> set (trace one_thread)" by simp_all
  from shutdown_joins_all [OF one_thread_rep one_thread_simps(1,2) en di fr, of Aesdsocket_simple]
  show ?thesis by (auto simp: id)
qed

subsection \<open>The main loop\<close>

lemma main_loop_append:
  "main_loop env prog is s = Some (Ret (False, s')) \<Longrightarrow>
     main_loop env prog (is @ js) s = main_loop env prog js s'"
proof (induction "is" arbitrary: s)
  case Nil
  then have "s' = s" by (subst (asm) main_loop.simps) (auto split: if_splits simp: tbind_Ret_iff)
  then show ?case by simp
next
  case (Cons i "is")
  have "\<not> isError s"
    using Cons.prems by (subst (asm) main_loop.simps) (auto split: if_splits simp: tbind_Ret_iff)
  with Cons.prems obtain s1 where "accept_round env prog i s = Some (Ret s1)"
    "main_loop env prog is s1 = Some (Ret (False, s'))"
    by (subst (asm) main_loop.simps) (auto simp: tbind_Ret_iff)
  then show ?case using \<open>\<not> isError s\<close> Cons.IH by (subst main_loop.simps) simp
qed


definition good_net :: net where
  "good_net = \<lparr>socket_r = 3, setsockopt_r = 0, bind_r = 0, listen_r = 0\<rparr>"

definition two_rounds :: "iteration list" where
  "two_rounds = [\<lparr>signalled = False, accepted_fd = 4, created = Some 1, completed = []\<rparr>,
     \<lparr>signalled = False, accepted_fd = 5, created = Some 2, completed = [1]\<rparr>]"

lemma good_setup: "\<exists>s. main_setup good_net [''aesdsocket''] initial_proc = (None, s)"
  by (simp add: main_setup_def good_net_def Let_def)

lemma two_rounds_ok: "rounds_ok easy_env [] two_rounds"
  by (simp add: rounds_ok_def easy_env_ok two_rounds_def new_ids_def) (simp add: easy_env_def)


text \<open>When a signal interrupts the waiting \<open>accept\<close>, its handler shuts the server down completely
  and destroys the mutexes, and the main thread then leaves the loop and shuts down again, locking
  a destroyed mutex: every orderly end of the server is undefined behaviour.\<close>

theorem signal_shuts_down_twice:
  assumes start: "main_setup net argv initial_proc = (None, s)" and ok: "rounds_ok env [] is"
    and sig: "signalled i" "accepted_fd i = -1" and ends: "\<forall>t \<in> set (new_ids is). ends env t"
  shows "main_loop env prog (is @ i # js) s = Some Undef"
proof -
  obtain s1 cs where run: "main_loop env prog is s = Some (Ret (False, s1))" "loop_inv (new_ids is) cs s1"
    using main_loop_inv [OF ok setup_inv [OF start], of prog] by auto
  obtain s2 where sh: "signal_handler env prog s1 = Some (Ret s2)" "isError s2" "listMutex s2 = Destroyed"
    using shutdown_inv [OF run(2) ends, of prog] by blast
  have "\<not> isError s1" using run(2) by (simp add: loop_inv_def)
  then have "main_loop env prog (i # js) s1 = main_loop env prog js s2"
    using sh(1) sig by (subst main_loop.simps) (simp add: accept_round_def)
  also have "\<dots> = Some Undef"
    using sh(2,3) by (subst main_loop.simps) (simp add: do_shutdown_destroyed)
  finally show ?thesis using main_loop_append [OF run(1)] by simp
qed

theorem signal_shuts_down_twice_witness:
  "\<exists>s. main_loop easy_env Aesdsocket_simple
     (two_rounds @ [\<lparr>signalled = True, accepted_fd = -1, created = None, completed = []\<rparr>]) s = Some Undef"
proof -
  obtain s where "main_setup good_net [''aesdsocket''] initial_proc = (None, s)" using good_setup ..
  from signal_shuts_down_twice [OF this two_rounds_ok, of
      "\<lparr>signalled = True, accepted_fd = -1, created = None, completed = []\<rparr>" Aesdsocket_simple "[]"]
  have "main_loop easy_env Aesdsocket_simple
     (two_rounds @ [\<lparr>signalled = True, accepted_fd = -1, created = None, completed = []\<rparr>]) s = Some Undef"
    by (simp add: easy_env_def)
  then show ?thesis ..
qed

end
