(* ===== verification/Socket_Client.thy ===== *)
theory Socket_Client
  imports Thread_List Char_Device
begin

text \<open>
  The thread that serves one client: \<open>client_handler\<close> of \<^verbatim>\<open>server/aesdsocket.c\<close> and of
  \<^verbatim>\<open>server/aesdsocket-simple.c\<close>. The data file is the parameter \<open>file_api\<close> (the calls
  \<open>open\<close>, \<open>write\<close>, \<open>read\<close>, \<open>lseek\<close>, \<open>ioctl\<close> and \<open>close\<close> on it), so that the same handler runs on
  the model of the driver and on a plain file; the client is the list of what \<open>recv\<close> returns. The
  loop that sends the file back is a partial function: \<open>None\<close> means that it never ends.
\<close>

subsection \<open>The data file and the client\<close>

datatype open_mode = Create_append | Read_write | Read_only

record 'f file_api =
  api_open :: "open_mode \<Rightarrow> 'f \<Rightarrow> int \<times> 'f"
  api_write :: "int \<Rightarrow> byte list \<Rightarrow> 'f \<Rightarrow> (int \<times> 'f) outcome"
  api_read :: "int \<Rightarrow> nat \<Rightarrow> 'f \<Rightarrow> (int \<times> byte list \<times> 'f) outcome"
  api_lseek :: "int \<Rightarrow> 'f \<Rightarrow> (int \<times> 'f) outcome"
  api_ioctl :: "int \<Rightarrow> aesd_seekto \<Rightarrow> 'f \<Rightarrow> (int \<times> 'f) outcome"
  api_close :: "int \<Rightarrow> 'f \<Rightarrow> int \<times> 'f"

datatype recv_result = Recv_error | Recv "byte list"

definition BUF_LEN :: nat where
  "BUF_LEN = 1024"

text \<open>
  The rest of the environment of a handler: how many bytes \<open>send\<close> takes, the memory behind the
  receive buffer, the uninitialised \<open>seekto\<close>, and what \<open>sscanf\<close> stores for a number that is no
  \<open>int\<close>.
\<close>

record 'f client_env =
  api :: "'f file_api"
  send_r :: "byte list \<Rightarrow> int"
  beyond :: "byte list"
  seekto0 :: aesd_seekto
  scan_overflow :: "int \<Rightarrow> uint32"

record 'f handler =
  store :: 'f
  file_fd :: int
  fileMutex :: mutex
  sent :: "byte list"
  stray_unlocks :: nat
  isComplete :: int
  client_open :: bool

definition lock_file :: "'f handler \<Rightarrow> 'f handler outcome" where
  "lock_file h = obind (lock_mutex (fileMutex h)) (\<lambda>m. Ret (h\<lparr>fileMutex := m\<rparr>))"

text \<open>The handler unlocks more often than it locks; the unlocks of a free mutex are counted.\<close>

definition unlock_file :: "'f handler \<Rightarrow> 'f handler outcome" where
  "unlock_file h = obind (unlock_mutex (fileMutex h)) (\<lambda>m.
     Ret (h\<lparr>fileMutex := m,
            stray_unlocks := stray_unlocks h + (if fileMutex h = Unlocked then 1 else 0)\<rparr>))"

subsection \<open>The seek command\<close>

definition bytes_of :: "string \<Rightarrow> byte list" where
  "bytes_of s = map of_char s"

definition ioctl_cmd :: "byte list" where
  "ioctl_cmd = bytes_of ''AESDCHAR_IOCSEEKTO''"

text \<open>\<open>strstr\<close>, on the bytes up to the first zero byte, wherever that is.\<close>

definition c_string :: "byte list \<Rightarrow> byte list \<Rightarrow> byte list" where
  "c_string buf behind = takeWhile (\<lambda>b. b \<noteq> 0) (buf @ behind)"

fun contains :: "byte list \<Rightarrow> byte list \<Rightarrow> bool" where
  "contains pat [] \<longleftrightarrow> pat = []"
| "contains pat (x # xs) \<longleftrightarrow> take (length pat) (x # xs) = pat \<or> contains pat xs"

text \<open>\<open>sscanf\<close> with \<^verbatim>\<open>AESDCHAR_IOCSEEKTO:%d,%d\<close>: the literal, then numbers as \<open>%d\<close> reads them.\<close>

definition is_space :: "byte \<Rightarrow> bool" where
  "is_space b \<longleftrightarrow> b = 32 \<or> (9 \<le> b \<and> b \<le> 13)"

definition is_digit :: "byte \<Rightarrow> bool" where
  "is_digit b \<longleftrightarrow> 48 \<le> b \<and> b \<le> 57"

definition digits_value :: "byte list \<Rightarrow> int" where
  "digits_value ds = foldl (\<lambda>n d. 10 * n + (uint d - 48)) 0 ds"

definition scan_int :: "byte list \<Rightarrow> (int \<times> byte list) option" where
  "scan_int bs =
     (let bs = dropWhile is_space bs;
          (neg, bs) = (case bs of b # r \<Rightarrow> if b = 45 then (True, r) else if b = 43 then (False, r)
                                           else (False, bs)
                       | [] \<Rightarrow> (False, []));
          ds = takeWhile is_digit bs
      in if ds = [] then None
         else Some (if neg then - digits_value ds else digits_value ds, dropWhile is_digit bs))"

definition int_to_uint32 :: "(int \<Rightarrow> uint32) \<Rightarrow> int \<Rightarrow> uint32" where
  "int_to_uint32 ov i = (if - (2 ^ 31) \<le> i \<and> i < 2 ^ 31 then word_of_int i else ov i)"

definition scan_seekto :: "(int \<Rightarrow> uint32) \<Rightarrow> byte list \<Rightarrow> aesd_seekto \<Rightarrow> aesd_seekto" where
  "scan_seekto ov bs st =
     (let lit = ioctl_cmd @ [58] in
      if take (length lit) bs \<noteq> lit then st
      else case scan_int (drop (length lit) bs) of
        None \<Rightarrow> st
      | Some (a, rest) \<Rightarrow>
          (let st = st\<lparr>write_cmd := int_to_uint32 ov a\<rparr> in
           case rest of
             [] \<Rightarrow> st
           | c # rest \<Rightarrow>
               if c \<noteq> 44 then st
               else (case scan_int rest of
                       None \<Rightarrow> st
                     | Some (b, _) \<Rightarrow> st\<lparr>write_cmd_offset := int_to_uint32 ov b\<rparr>)))"

subsection \<open>Receiving\<close>

text \<open>The branch for a seek command: the file stays open and locked.\<close>

definition seek_file :: "'f client_env \<Rightarrow> aesd_seekto \<Rightarrow> 'f handler \<Rightarrow> 'f handler outcome" where
  "seek_file env seekto h =
     obind (lock_file h) (\<lambda>h.
       let (fd, f) = api_open (api env) Read_write (store h);
           h = h\<lparr>file_fd := fd, store := f\<rparr>
       in obind (api_ioctl (api env) fd seekto (store h)) (\<lambda>(r, f). Ret (h\<lparr>store := f\<rparr>)))"

text \<open>The branch for data: a write between opening and closing the file, under the lock.\<close>

definition append_file :: "'f client_env \<Rightarrow> byte list \<Rightarrow> 'f handler \<Rightarrow> 'f handler outcome" where
  "append_file env bs h =
     obind (lock_file h) (\<lambda>h.
       let (fd, f) = api_open (api env) Create_append (store h);
           h = h\<lparr>file_fd := fd, store := f\<rparr>
       in obind (api_write (api env) fd bs (store h)) (\<lambda>(bytes_written, f).
            unlock_file (h\<lparr>store := snd (api_close (api env) fd f)\<rparr>)))"

text \<open>
  The receive loop of \<^verbatim>\<open>aesdsocket.c\<close>. The end of the list is a closed connection. Each \<open>recv\<close> overwrites the start of the buffer and leaves
  the rest as it was. The result says whether the last message was taken for a seek command.
\<close>

fun recv_loop ::
  "'f client_env \<Rightarrow> recv_result list \<Rightarrow> byte list \<Rightarrow> bool \<Rightarrow> aesd_seekto \<Rightarrow> 'f handler
     \<Rightarrow> (bool \<times> 'f handler) outcome"
where
  "recv_loop env [] receive_buffer ioctl_found seekto h = Ret (ioctl_found, h)"
| "recv_loop env (Recv_error # rs) receive_buffer ioctl_found seekto h = Ret (ioctl_found, h)"
| "recv_loop env (Recv bs # rs) receive_buffer ioctl_found seekto h =
     (if bs = [] then Ret (ioctl_found, h)
      else let receive_buffer = bs @ drop (length bs) receive_buffer;
               text = c_string receive_buffer (beyond env);
               ioctl_found = contains ioctl_cmd text;
               seekto = (if ioctl_found then scan_seekto (scan_overflow env) text seekto else seekto)
           in obind (if ioctl_found then seek_file env seekto h else append_file env bs h) (\<lambda>h.
                if last bs = newline then Ret (ioctl_found, h)
                else recv_loop env rs receive_buffer ioctl_found seekto h))"

text \<open>The receive loop of \<^verbatim>\<open>aesdsocket-simple.c\<close>, which knows no seek command.\<close>

fun recv_loop_simple ::
  "'f client_env \<Rightarrow> recv_result list \<Rightarrow> 'f handler \<Rightarrow> 'f handler outcome"
where
  "recv_loop_simple env [] h = Ret h"
| "recv_loop_simple env (Recv_error # rs) h = Ret h"
| "recv_loop_simple env (Recv bs # rs) h =
     (if bs = [] then Ret h
      else obind (append_file env bs h) (\<lambda>h.
             if last bs = newline then Ret h else recv_loop_simple env rs h))"

subsection \<open>Sending the file back\<close>

definition send_bytes :: "'f client_env \<Rightarrow> byte list \<Rightarrow> 'f handler \<Rightarrow> 'f handler" where
  "send_bytes env bs h = h\<lparr>sent := sent h @ take (nat (send_r env bs)) bs\<rparr>"

partial_function (option) send_loop :: "'f client_env \<Rightarrow> 'f handler \<Rightarrow> 'f handler outcome option" where
  "send_loop env h =
     (case api_lseek (api env) (file_fd h) (store h) of
        Blocked \<Rightarrow> Some Blocked
      | Undef \<Rightarrow> Some Undef
      | Ret x \<Rightarrow>
     (case api_read (api env) (file_fd h) BUF_LEN (snd x) of
        Blocked \<Rightarrow> Some Blocked
      | Undef \<Rightarrow> Some Undef
      | Ret y \<Rightarrow>
          if fst y = -1 \<or> fst y = 0 then Some (Ret (h\<lparr>store := snd (snd y)\<rparr>))
          else (case unlock_file (h\<lparr>store := snd (snd y)\<rparr>) of
                  Blocked \<Rightarrow> Some Blocked
                | Undef \<Rightarrow> Some Undef
                | Ret h \<Rightarrow> send_loop env (send_bytes env (fst (snd y)) h))))"

partial_function (option) send_loop_simple :: "'f client_env \<Rightarrow> 'f handler \<Rightarrow> 'f handler outcome option" where
  "send_loop_simple env h =
     (case api_read (api env) (file_fd h) BUF_LEN (store h) of
        Blocked \<Rightarrow> Some Blocked
      | Undef \<Rightarrow> Some Undef
      | Ret y \<Rightarrow>
          if fst y = -1 \<or> fst y = 0 then Some (Ret (h\<lparr>store := snd (snd y)\<rparr>))
          else (case unlock_file (h\<lparr>store := snd (snd y)\<rparr>) of
                  Blocked \<Rightarrow> Some Blocked
                | Undef \<Rightarrow> Some Undef
                | Ret h \<Rightarrow> send_loop_simple env (send_bytes env (fst (snd y)) h)))"

definition reopen_file :: "'f client_env \<Rightarrow> 'f handler \<Rightarrow> 'f handler outcome" where
  "reopen_file env h =
     obind (lock_file h) (\<lambda>h.
       let (fd, f) = api_open (api env) Read_only (store h) in Ret (h\<lparr>file_fd := fd, store := f\<rparr>))"

definition finish_client :: "'f client_env \<Rightarrow> 'f handler \<Rightarrow> 'f handler outcome" where
  "finish_client env h =
     obind (unlock_file (h\<lparr>store := snd (api_close (api env) (file_fd h) (store h))\<rparr>)) (\<lambda>h.
       Ret (h\<lparr>isComplete := 1, client_open := False\<rparr>))"

subsection \<open>The handlers\<close>

definition client_handler ::
  "'f client_env \<Rightarrow> recv_result list \<Rightarrow> 'f handler \<Rightarrow> 'f handler outcome option"
where
  "client_handler env rs h =
     tbind (Some (recv_loop env rs (replicate BUF_LEN 0) False (seekto0 env) h)) (\<lambda>(ioctl_found, h).
     tbind (Some (if ioctl_found then Ret h else reopen_file env h)) (\<lambda>h.
     tbind (send_loop env h) (\<lambda>h. Some (finish_client env h))))"

definition client_handler_simple ::
  "'f client_env \<Rightarrow> recv_result list \<Rightarrow> 'f handler \<Rightarrow> 'f handler outcome option"
where
  "client_handler_simple env rs h =
     tbind (Some (recv_loop_simple env rs h)) (\<lambda>h.
     tbind (Some (reopen_file env h)) (\<lambda>h.
     tbind (send_loop_simple env h) (\<lambda>h. Some (finish_client env h))))"

definition new_handler :: "'f \<Rightarrow> 'f handler" where
  "new_handler f = \<lparr>store = f, file_fd = 0, fileMutex = Unlocked, sent = [], stray_unlocks = 0,
     isComplete = 0, client_open = True\<rparr>"

end
