(* ===== verification/Data_File.thy ===== *)
theory Data_File
  imports Socket_Client
begin

text \<open>
  The contract between the server and its data file, as a locale, and what the client handlers do
  on any file that keeps it: which messages are written, that the loops end, what is sent back, and
  how the file mutex is used.
\<close>

subsection \<open>The messages a handler takes\<close>

fun chunks :: "recv_result list \<Rightarrow> byte list list" where
  "chunks [] = []"
| "chunks (Recv_error # rs) = []"
| "chunks (Recv bs # rs) =
     (if bs = [] then [] else bs # (if last bs = newline then [] else chunks rs))"

text \<open>No message of the handler is taken for a seek command.\<close>

fun no_seek :: "'f client_env \<Rightarrow> recv_result list \<Rightarrow> byte list \<Rightarrow> bool" where
  "no_seek env [] buf = True"
| "no_seek env (Recv_error # rs) buf = True"
| "no_seek env (Recv bs # rs) buf =
     (bs = [] \<or>
      \<not> contains ioctl_cmd (c_string (bs @ drop (length bs) buf) (beyond env)) \<and>
      (last bs = newline \<or> no_seek env rs (bs @ drop (length bs) buf)))"

lemma recv_loop_no_seek:
  "no_seek env rs buf \<Longrightarrow>
     recv_loop env rs buf False seekto h = obind (recv_loop_simple env rs h) (\<lambda>h. Ret (False, h))"
proof (induction env rs h arbitrary: buf seekto rule: recv_loop_simple.induct)
  case (3 env bs rs h)
  show ?case
  proof (cases "bs = []")
    case False
    let ?buf = "bs @ drop (length bs) buf"
    have no: "\<not> contains ioctl_cmd (c_string ?buf (beyond env))"
      and rest: "last bs \<noteq> newline \<Longrightarrow> no_seek env rs ?buf"
      using "3.prems" False by auto
    show ?thesis
    proof (cases "append_file env bs h")
      case (Ret h1)
      then show ?thesis using False no rest "3.IH" [OF False] by (cases "last bs = newline") auto
    qed (use False no in auto)
  qed simp
qed simp_all

text \<open>The two send loops agree on a file whose \<open>lseek\<close> by zero changes nothing.\<close>

lemma send_loop_le:
  "send_loop env h = Some y \<Longrightarrow> \<forall>fd f. \<exists>r. api_lseek (api env) fd f = Ret (r, f) \<Longrightarrow>
     send_loop_simple env h = Some y"
proof (induction env h y rule: send_loop.raw_induct [rotated, consumes 1, case_names step])
  case (step loop env h y)
  obtain r where "api_lseek (api env) (file_fd h) (store h) = Ret (r, store h)" using step(3) by blast
  with step show ?case
    by (subst send_loop_simple.simps) (auto split: outcome.splits if_splits)
qed

lemma send_loop_ge:
  "send_loop_simple env h = Some y \<Longrightarrow> \<forall>fd f. \<exists>r. api_lseek (api env) fd f = Ret (r, f) \<Longrightarrow>
     send_loop env h = Some y"
proof (induction env h y rule: send_loop_simple.raw_induct [rotated, consumes 1, case_names step])
  case (step loop env h y)
  obtain r where "api_lseek (api env) (file_fd h) (store h) = Ret (r, store h)" using step(3) by blast
  with step show ?case
    by (subst send_loop.simps) (auto split: outcome.splits if_splits)
qed

lemma send_loops_agree:
  "\<forall>fd f. \<exists>r. api_lseek (api env) fd f = Ret (r, f) \<Longrightarrow> send_loop env h = send_loop_simple env h"
  using send_loop_le [of env h] send_loop_ge [of env h]
  by (cases "send_loop env h"; cases "send_loop_simple env h") auto

lemma tbind_obind_Some:
  "tbind (Some (obind m (\<lambda>h. Ret (c, h)))) (\<lambda>(c, h). f c h) = tbind (Some m) (f c)"
  by (cases m) simp_all

lemma client_handlers_agree:
  assumes seek: "\<forall>fd f. \<exists>r. api_lseek (api env) fd f = Ret (r, f)"
    and data: "no_seek env rs (replicate BUF_LEN 0)"
  shows "client_handler env rs h = client_handler_simple env rs h"
  unfolding client_handler_def client_handler_simple_def recv_loop_no_seek [OF data] tbind_obind_Some
  by (simp add: send_loops_agree [OF seek])

text \<open>The first message lies in a buffer of zero bytes.\<close>

lemma fresh_text:
  assumes "length bs < 1024"
  shows "c_string (bs @ replicate (BUF_LEN - length bs) 0) behind = takeWhile (\<lambda>b. b \<noteq> 0) bs"
proof -
  have zero: "replicate (BUF_LEN - length bs) (0 :: byte) = 0 # replicate (BUF_LEN - length bs - 1) 0"
    using assms by (cases "BUF_LEN - length bs") (simp_all add: BUF_LEN_def)
  show ?thesis
  proof (cases "0 \<in> set bs")
    case True
    then show ?thesis by (simp add: c_string_def takeWhile_append1 [of 0])
  next
    case False
    then have all: "\<And>b. b \<in> set bs \<Longrightarrow> b \<noteq> 0" by metis
    then have tw: "takeWhile (\<lambda>b. b \<noteq> 0) bs = bs" by simp
    show ?thesis using all by (simp add: c_string_def zero takeWhile_append2 tw)
  qed
qed

lemma no_seek_one:
  "length bs < 1024 \<Longrightarrow> \<not> contains ioctl_cmd (takeWhile (\<lambda>b. b \<noteq> 0) bs) \<Longrightarrow>
     no_seek env [Recv bs] (replicate BUF_LEN 0)"
  by (simp add: fresh_text)

text \<open>The states of the file along a sequence of writes.\<close>

fun written_all ::
  "(byte list \<Rightarrow> 'a \<Rightarrow> int \<Rightarrow> 'a \<Rightarrow> bool) \<Rightarrow> byte list list \<Rightarrow> 'a \<Rightarrow> 'a \<Rightarrow> bool"
where
  "written_all wr [] a c \<longleftrightarrow> a = c"
| "written_all wr (bs # bss) a c \<longleftrightarrow> (\<exists>r b. wr bs a r b \<and> written_all wr bss b c)"

definition sends_all :: "'f client_env \<Rightarrow> bool" where
  "sends_all env \<longleftrightarrow> (\<forall>bs. send_r env bs = int (length bs))"

text \<open>A read at some place of the open file has failed.\<close>

definition read_failed ::
  "'f file_api \<Rightarrow> ('f \<Rightarrow> int \<Rightarrow> nat \<Rightarrow> 'a \<Rightarrow> bool) \<Rightarrow> 'a \<Rightarrow> bool"
where
  "read_failed dfile placed a \<longleftrightarrow>
     (\<exists>f fd n bs f'. placed f fd n a \<and> api_read dfile fd BUF_LEN f = Ret (-1, bs, f'))"

text \<open>
  What has happened when a send loop that started at position \<open>n\<close> ends: it has sent the bytes from
  there on, all of them unless a read failed, and has left the mutex unlocked if it sent any.
\<close>

definition sent_back ::
  "bool \<Rightarrow> ('f \<Rightarrow> int \<Rightarrow> 'a \<Rightarrow> bool) \<Rightarrow> ('a \<Rightarrow> byte list) \<Rightarrow> 'f handler \<Rightarrow> nat \<Rightarrow> 'a
     \<Rightarrow> 'f handler \<Rightarrow> bool"
where
  "sent_back failed opened bytes h n a h' \<longleftrightarrow>
     opened (store h') (file_fd h) a \<and> file_fd h' = file_fd h \<and>
     (\<exists>d rest. drop n (bytes a) = d @ rest \<and> sent h' = sent h @ d \<and>
        (rest = [] \<or> failed) \<and>
        (if d = [] then fileMutex h' = fileMutex h \<and> stray_unlocks h' = stray_unlocks h
         else fileMutex h' = Unlocked \<and> stray_unlocks h \<le> stray_unlocks h'))"

text \<open>What a served client has got: the file from position \<open>n\<close> on, and a finished thread.\<close>

definition served ::
  "bool \<Rightarrow> ('f \<Rightarrow> 'a \<Rightarrow> bool) \<Rightarrow> ('a \<Rightarrow> byte list) \<Rightarrow> 'f handler \<Rightarrow> nat \<Rightarrow> 'a \<Rightarrow> 'f handler \<Rightarrow> bool"
where
  "served failed rep bytes h n a h' \<longleftrightarrow>
     rep (store h') a \<and> fileMutex h' = Unlocked \<and> isComplete h' = 1 \<and> \<not> client_open h' \<and>
     (\<exists>d rest. drop n (bytes a) = d @ rest \<and> sent h' = sent h @ d \<and>
        (rest = [] \<or> failed) \<and>
        (d \<noteq> [] \<longrightarrow> stray_unlocks h < stray_unlocks h'))"

subsection \<open>The contract\<close>

locale data_file =
  fixes dfile :: "'f file_api"
    and rep :: "'f \<Rightarrow> 'a \<Rightarrow> bool"
    and opened :: "'f \<Rightarrow> int \<Rightarrow> 'a \<Rightarrow> bool"
    and writable :: "'f \<Rightarrow> int \<Rightarrow> 'a \<Rightarrow> bool"
    and placed :: "'f \<Rightarrow> int \<Rightarrow> nat \<Rightarrow> 'a \<Rightarrow> bool"
    and bytes :: "'a \<Rightarrow> byte list"
    and written :: "byte list \<Rightarrow> 'a \<Rightarrow> int \<Rightarrow> 'a \<Rightarrow> bool"
  assumes open_at: "rep f a \<Longrightarrow> api_open dfile m f = (fd, f') \<Longrightarrow> placed f' fd 0 a"
    and at_opened: "placed f fd n a \<Longrightarrow> opened f fd a"
    and open_writable: "rep f a \<Longrightarrow> api_open dfile Create_append f = (fd, f') \<Longrightarrow> writable f' fd a"
    and writable_opened: "writable f fd a \<Longrightarrow> opened f fd a"
    and write_writable: "writable f fd a \<Longrightarrow> bs \<noteq> [] \<Longrightarrow> length bs \<le> BUF_LEN \<Longrightarrow>
          \<exists>r f' a'. api_write dfile fd bs f = Ret (r, f') \<and> written bs a r a' \<and> writable f' fd a'"
    and lseek_at: "placed f fd n a \<Longrightarrow> \<exists>r f'. api_lseek dfile fd f = Ret (r, f') \<and> placed f' fd n a"
    and read_at: "placed f fd n a \<Longrightarrow> \<exists>r bs f'. api_read dfile fd BUF_LEN f = Ret (r, bs, f') \<and>
          (r = -1 \<and> opened f' fd a \<or>
           r = int (length bs) \<and> placed f' fd (n + length bs) a \<and>
           (\<exists>rest. drop n (bytes a) = bs @ rest) \<and> (bs = [] \<longleftrightarrow> length (bytes a) \<le> n))"
    and close_rep: "opened f fd a \<Longrightarrow> rep (snd (api_close dfile fd f)) a"
begin

lemma append_file_effect:
  assumes env: "api env = dfile" and rep: "rep (store h) a" and unl: "fileMutex h = Unlocked"
    and bs: "bs \<noteq> []" "length bs \<le> BUF_LEN"
  shows "\<exists>r a' h'. append_file env bs h = Ret h' \<and> rep (store h') a' \<and> written bs a r a' \<and>
    fileMutex h' = Unlocked \<and> sent h' = sent h \<and> stray_unlocks h' = stray_unlocks h"
proof -
  obtain fd f where o: "api_open dfile Create_append (store h) = (fd, f)"
    by (cases "api_open dfile Create_append (store h)")
  obtain r f' a' where "api_write dfile fd bs f = Ret (r, f')" "written bs a r a'" "opened f' fd a'"
    using write_writable [OF open_writable [OF rep o] bs] writable_opened by blast
  note w = this
  let ?h = "h\<lparr>file_fd := fd, store := snd (api_close dfile fd f'), fileMutex := Unlocked\<rparr>"
  have "append_file env bs h = Ret ?h"
    using env o unl w(1) by (simp add: append_file_def lock_file_def unlock_file_def Let_def)
  then show ?thesis using w(2) close_rep [OF w(3)]
    by (intro exI [of _ r] exI [of _ a'] exI [of _ ?h]) simp
qed

lemma recv_loop_simple_effect:
  assumes env: "api env = dfile"
  shows "\<forall>bs \<in> set (chunks rs). length bs \<le> BUF_LEN \<Longrightarrow> rep (store h) a \<Longrightarrow> fileMutex h = Unlocked \<Longrightarrow>
    \<exists>a' h'. recv_loop_simple env rs h = Ret h' \<and> rep (store h') a' \<and>
      written_all written (chunks rs) a a' \<and> fileMutex h' = Unlocked \<and> sent h' = sent h \<and>
      stray_unlocks h' = stray_unlocks h"
proof (induction rs arbitrary: h a)
  case Nil
  then show ?case by auto
next
  case (Cons x rs)
  show ?case
  proof (cases x)
    case Recv_error
    then show ?thesis using Cons.prems by auto
  next
    case (Recv bs)
    show ?thesis
    proof (cases "bs = []")
      case True
      then show ?thesis using Recv Cons.prems by auto
    next
      case False
      then have "length bs \<le> BUF_LEN" using Recv Cons.prems(1) by simp
      from append_file_effect [OF env Cons.prems(2,3) False this] obtain r a1 h1
        where h1: "append_file env bs h = Ret h1" "rep (store h1) a1" "written bs a r a1"
          "fileMutex h1 = Unlocked" "sent h1 = sent h" "stray_unlocks h1 = stray_unlocks h"
        by blast
      show ?thesis
      proof (cases "last bs = newline")
        case True
        then show ?thesis using h1 Recv False by auto
      next
        case more: False
        then have ch: "chunks (x # rs) = bs # chunks rs" using Recv False by simp
        then have "\<forall>bs \<in> set (chunks rs). length bs \<le> BUF_LEN" using Cons.prems(1) by simp
        from Cons.IH [OF this h1(2,4)] obtain a' h'
          where "recv_loop_simple env rs h1 = Ret h'" "rep (store h') a'"
            "written_all written (chunks rs) a1 a'" "fileMutex h' = Unlocked" "sent h' = sent h1"
            "stray_unlocks h' = stray_unlocks h1"
          by blast
        then show ?thesis using h1 ch Recv False more by auto
      qed
    qed
  qed
qed

lemma unlock_file_free:
  "fileMutex h \<noteq> Destroyed \<Longrightarrow> \<exists>h1. unlock_file h = Ret h1 \<and> fileMutex h1 = Unlocked \<and>
     store h1 = store h \<and> sent h1 = sent h \<and> file_fd h1 = file_fd h \<and>
     stray_unlocks h1 = stray_unlocks h + (if fileMutex h = Unlocked then 1 else 0)"
  by (cases "fileMutex h") (auto simp: unlock_file_def)

text \<open>One round of either loop.\<close>

lemma read_round:
  assumes pl: "placed (store h) (file_fd h) n a" and mutex: "fileMutex h \<noteq> Destroyed"
  obtains (stop) r bs f where "api_read dfile (file_fd h) BUF_LEN (store h) = Ret (r, bs, f)"
      and "r = -1 \<or> r = 0" and "sent_back (read_failed dfile placed a) opened bytes h n a (h\<lparr>store := f\<rparr>)"
  | (more) r bs f h1 where "api_read dfile (file_fd h) BUF_LEN (store h) = Ret (r, bs, f)"
      and "r \<noteq> -1" and "r \<noteq> 0" and "unlock_file (h\<lparr>store := f\<rparr>) = Ret h1" and "bs \<noteq> []"
      and "placed (store h1) (file_fd h1) (n + length bs) a" and "fileMutex h1 = Unlocked"
      and "file_fd h1 = file_fd h" and "stray_unlocks h \<le> stray_unlocks h1" and "sent h1 = sent h"
      and "drop n (bytes a) = bs @ drop (n + length bs) (bytes a)"
proof -
  obtain r bs f where rd: "api_read dfile (file_fd h) BUF_LEN (store h) = Ret (r, bs, f)"
    and cs: "r = -1 \<and> opened f (file_fd h) a \<or>
           r = int (length bs) \<and> placed f (file_fd h) (n + length bs) a \<and>
           (\<exists>rest. drop n (bytes a) = bs @ rest) \<and> (bs = [] \<longleftrightarrow> length (bytes a) \<le> n)"
    using read_at [OF pl] by blast
  show thesis
  proof (cases "r = -1 \<or> r = 0")
    case True
    have "opened f (file_fd h) a" using cs at_opened by blast
    moreover have "r = 0 \<Longrightarrow> drop n (bytes a) = []" using cs by auto
    ultimately have "sent_back (read_failed dfile placed a) opened bytes h n a (h\<lparr>store := f\<rparr>)"
      using True rd pl unfolding sent_back_def read_failed_def
      by (intro conjI exI [of _ "[]"] exI [of _ "drop n (bytes a)"]) auto
    then show thesis using stop rd True by blast
  next
    case False
    then have r: "r = int (length bs)" "placed f (file_fd h) (n + length bs) a" "bs \<noteq> []"
      and "\<exists>rest. drop n (bytes a) = bs @ rest"
      using cs by auto
    then obtain rest where rest: "drop n (bytes a) = bs @ rest" by blast
    have "drop (n + length bs) (bytes a) = drop (length bs) (drop n (bytes a))"
      by (simp add: add.commute)
    then have "drop n (bytes a) = bs @ drop (n + length bs) (bytes a)" by (simp add: rest)
    moreover obtain h1 where "unlock_file (h\<lparr>store := f\<rparr>) = Ret h1" "fileMutex h1 = Unlocked"
      "store h1 = f" "sent h1 = sent h" "file_fd h1 = file_fd h" "stray_unlocks h \<le> stray_unlocks h1"
      using unlock_file_free [of "h\<lparr>store := f\<rparr>"] mutex by auto
    ultimately show thesis using rd False r by (intro more [of r bs f h1]) simp_all
  qed
qed

lemma send_bytes_simps:
  "sends_all env \<Longrightarrow> sent (send_bytes env bs h) = sent h @ bs"
  "store (send_bytes env bs h) = store h" "file_fd (send_bytes env bs h) = file_fd h"
  "fileMutex (send_bytes env bs h) = fileMutex h"
  "stray_unlocks (send_bytes env bs h) = stray_unlocks h"
  by (simp_all add: send_bytes_def sends_all_def)

lemma sent_back_more:
  assumes "drop n (bytes a) = bs @ drop (n + length bs) (bytes a)" and "bs \<noteq> []"
    and "sends_all env" and "sent h1 = sent h" and "file_fd h1 = file_fd h"
    and "stray_unlocks h \<le> stray_unlocks h1" and "fileMutex h1 = Unlocked"
    and "sent_back (read_failed dfile placed a) opened bytes (send_bytes env bs h1) (n + length bs) a h'"
  shows "sent_back (read_failed dfile placed a) opened bytes h n a h'"
proof -
  obtain d rest where d: "drop (n + length bs) (bytes a) = d @ rest" "sent h' = sent h @ bs @ d"
    and r: "rest = [] \<or> read_failed dfile placed a"
    and m: "if d = [] then fileMutex h' = fileMutex h1 \<and> stray_unlocks h' = stray_unlocks h1
         else fileMutex h' = Unlocked \<and> stray_unlocks h1 \<le> stray_unlocks h'"
    and o: "opened (store h') (file_fd h) a" "file_fd h' = file_fd h"
    using assms(8) unfolding sent_back_def send_bytes_simps(2-5) send_bytes_simps(1) [OF assms(3)]
      assms(4,5) append_assoc by blast
  have "drop n (bytes a) = (bs @ d) @ rest" using assms(1) d(1) by simp
  moreover have "fileMutex h' = Unlocked \<and> stray_unlocks h \<le> stray_unlocks h'"
    using m assms(6,7) by (cases "d = []") simp_all
  ultimately show ?thesis using assms(2) d(2) r o unfolding sent_back_def
    by (intro conjI exI [of _ "bs @ d"] exI [of _ rest]) simp_all
qed

lemma send_loop_simple_effect:
  assumes env: "api env = dfile" "sends_all env"
  shows "placed (store h) (file_fd h) n a \<Longrightarrow> fileMutex h \<noteq> Destroyed \<Longrightarrow>
    \<exists>h'. send_loop_simple env h = Some (Ret h') \<and> sent_back (read_failed dfile placed a) opened bytes h n a h'"
proof (induction "length (bytes a) - n" arbitrary: h n rule: less_induct)
  case less
  from less.prems(1,2) show ?case
  proof (cases rule: read_round)
    case (stop r bs f)
    then show ?thesis using env by (subst send_loop_simple.simps) auto
  next
    case (more r bs f h1)
    have "length (bytes a) - (n + length bs) < length (bytes a) - n"
      using more(5,11) by (metis append_is_Nil_conv diff_less_mono2 drop_eq_Nil2
          length_greater_0_conv less_add_same_cancel1 linorder_not_le)
    from less.hyps [OF this, of "send_bytes env bs h1"] more(6,7) obtain h'
      where h': "send_loop_simple env (send_bytes env bs h1) = Some (Ret h')"
        "sent_back (read_failed dfile placed a) opened bytes (send_bytes env bs h1) (n + length bs) a h'"
      by (auto simp: send_bytes_simps)
    have "send_loop_simple env h = Some (Ret h')"
      using env more(1-4) h'(1) by (subst send_loop_simple.simps) simp
    then show ?thesis using sent_back_more [OF more(11,5) env(2) more(10,8,9,7) h'(2)] by blast
  qed
qed

lemma send_loop_effect:
  assumes env: "api env = dfile" "sends_all env"
  shows "placed (store h) (file_fd h) n a \<Longrightarrow> fileMutex h \<noteq> Destroyed \<Longrightarrow>
    \<exists>h'. send_loop env h = Some (Ret h') \<and> sent_back (read_failed dfile placed a) opened bytes h n a h'"
proof (induction "length (bytes a) - n" arbitrary: h n rule: less_induct)
  case less
  obtain x f0 where ls: "api_lseek dfile (file_fd h) (store h) = Ret (x, f0)"
    and at0: "placed (store (h\<lparr>store := f0\<rparr>)) (file_fd (h\<lparr>store := f0\<rparr>)) n a"
    using lseek_at [OF less.prems(1)] by auto
  let ?h = "h\<lparr>store := f0\<rparr>"
  have lift: "sent_back (read_failed dfile placed a) opened bytes ?h n a h' \<Longrightarrow> sent_back (read_failed dfile placed a) opened bytes h n a h'" for h'
    by (simp add: sent_back_def cong: if_cong)
  have mx: "fileMutex ?h \<noteq> Destroyed" using less.prems(2) by simp
  from at0 mx show ?case
  proof (cases rule: read_round)
    case (stop r bs f)
    have "sent_back (read_failed dfile placed a) opened bytes h n a (h\<lparr>store := f\<rparr>)" using lift [OF stop(3)] by simp
    then show ?thesis using env ls stop(1,2) by (subst send_loop.simps) auto
  next
    case (more r bs f h1)
    have "length (bytes a) - (n + length bs) < length (bytes a) - n"
      using more(5,11) by (metis append_is_Nil_conv diff_less_mono2 drop_eq_Nil2
          length_greater_0_conv less_add_same_cancel1 linorder_not_le)
    from less.hyps [OF this, of "send_bytes env bs h1"] more(6,7) obtain h'
      where h': "send_loop env (send_bytes env bs h1) = Some (Ret h')"
        "sent_back (read_failed dfile placed a) opened bytes (send_bytes env bs h1) (n + length bs) a h'"
      by (auto simp: send_bytes_simps)
    have "send_loop env h = Some (Ret h')"
      using env ls more(1-4) h'(1) by (subst send_loop.simps) simp
    then show ?thesis using lift [OF sent_back_more [OF more(11,5) env(2) more(10,8,9,7) h'(2)]] by blast
  qed
qed

text \<open>The loop ends whatever becomes of the bytes it sends.\<close>

lemma send_loop_ends:
  assumes env: "api env = dfile"
  shows "placed (store h) (file_fd h) n a \<Longrightarrow> fileMutex h \<noteq> Destroyed \<Longrightarrow>
    \<exists>h'. send_loop env h = Some (Ret h')"
proof (induction "length (bytes a) - n" arbitrary: h n rule: less_induct)
  case less
  obtain x f0 where ls: "api_lseek dfile (file_fd h) (store h) = Ret (x, f0)"
    and at0: "placed (store (h\<lparr>store := f0\<rparr>)) (file_fd (h\<lparr>store := f0\<rparr>)) n a"
    using lseek_at [OF less.prems(1)] by auto
  let ?h = "h\<lparr>store := f0\<rparr>"
  have mx: "fileMutex ?h \<noteq> Destroyed" using less.prems(2) by simp
  from at0 mx show ?case
  proof (cases rule: read_round)
    case (stop r bs f)
    then show ?thesis using env ls by (subst send_loop.simps) auto
  next
    case (more r bs f h1)
    have "length (bytes a) - (n + length bs) < length (bytes a) - n"
      using more(5,11) by (metis append_is_Nil_conv diff_less_mono2 drop_eq_Nil2
          length_greater_0_conv less_add_same_cancel1 linorder_not_le)
    from less.hyps [OF this, of "send_bytes env bs h1"] more(6,7) obtain h'
      where "send_loop env (send_bytes env bs h1) = Some (Ret h')"
      by (auto simp: send_bytes_simps)
    then have "send_loop env h = Some (Ret h')"
      using env ls more(1-4) by (subst send_loop.simps) simp
    then show ?thesis ..
  qed
qed

text \<open>From opening the file for reading to the end of the thread.\<close>

lemma reopen_effect:
  assumes env: "api env = dfile" and rep: "rep (store h) a" and unl: "fileMutex h = Unlocked"
  shows "\<exists>h1. reopen_file env h = Ret h1 \<and> placed (store h1) (file_fd h1) 0 a \<and>
    fileMutex h1 = Locked \<and> sent h1 = sent h \<and> stray_unlocks h1 = stray_unlocks h"
proof -
  obtain fd f where "api_open dfile Read_only (store h) = (fd, f)"
    by (cases "api_open dfile Read_only (store h)")
  then show ?thesis using env unl open_at [OF rep]
    by (simp add: reopen_file_def lock_file_def Let_def)
qed

lemma finish_effect:
  assumes env: "api env = dfile" and locked: "fileMutex h1 = Locked"
    and sb: "sent_back (read_failed dfile placed a) opened bytes h1 n a h2"
  shows "\<exists>h'. finish_client env h2 = Ret h' \<and> served (read_failed dfile placed a) rep bytes h1 n a h'"
proof -
  obtain d rest where d: "drop n (bytes a) = d @ rest" "sent h2 = sent h1 @ d"
    and r: "rest = [] \<or> read_failed dfile placed a"
    and m: "if d = [] then fileMutex h2 = fileMutex h1 \<and> stray_unlocks h2 = stray_unlocks h1
         else fileMutex h2 = Unlocked \<and> stray_unlocks h1 \<le> stray_unlocks h2"
    and o: "opened (store h2) (file_fd h2) a"
    using sb unfolding sent_back_def by metis
  let ?h = "h2\<lparr>store := snd (api_close dfile (file_fd h2) (store h2))\<rparr>"
  have nd: "fileMutex ?h \<noteq> Destroyed" using m locked by (cases "d = []") simp_all
  obtain h3 where h3: "unlock_file ?h = Ret h3" "fileMutex h3 = Unlocked" "store h3 = store ?h"
    "sent h3 = sent h2" "stray_unlocks h3 = stray_unlocks h2 + (if fileMutex h2 = Unlocked then 1 else 0)"
    using unlock_file_free [OF nd] by auto
  let ?h' = "h3\<lparr>isComplete := 1, client_open := False\<rparr>"
  have "finish_client env h2 = Ret ?h'" using env h3(1) by (simp add: finish_client_def)
  moreover have "rep (store ?h') a" using close_rep [OF o] h3(3) by simp
  moreover have "d \<noteq> [] \<longrightarrow> stray_unlocks h1 < stray_unlocks ?h'"
    using m h3(5) by (cases "d = []") simp_all
  ultimately show ?thesis using d r h3(2,4) unfolding served_def
    by (intro exI [of _ ?h'] conjI exI [of _ d] exI [of _ rest]) auto
qed

lemma served_same:
  "sent h1 = sent h \<Longrightarrow> stray_unlocks h1 = stray_unlocks h \<Longrightarrow>
     served failed rep bytes h1 n a h' = served failed rep bytes h n a h'"
  by (simp add: served_def)

lemma client_handler_simple_effect:
  assumes env: "api env = dfile" "sends_all env" and rep: "rep (store h) a"
    and unl: "fileMutex h = Unlocked" and small: "\<forall>bs \<in> set (chunks rs). length bs \<le> BUF_LEN"
  shows "\<exists>h' a'. client_handler_simple env rs h = Some (Ret h') \<and>
    written_all written (chunks rs) a a' \<and> served (read_failed dfile placed a') rep bytes h 0 a' h'"
proof -
  obtain a' h1 where h1: "recv_loop_simple env rs h = Ret h1" "rep (store h1) a'"
    "written_all written (chunks rs) a a'" "fileMutex h1 = Unlocked" "sent h1 = sent h"
    "stray_unlocks h1 = stray_unlocks h"
    using recv_loop_simple_effect [OF env(1) small rep unl] by blast
  obtain h2 where h2: "reopen_file env h1 = Ret h2" "placed (store h2) (file_fd h2) 0 a'"
    "fileMutex h2 = Locked" "sent h2 = sent h1" "stray_unlocks h2 = stray_unlocks h1"
    using reopen_effect [OF env(1) h1(2,4)] by blast
  have "fileMutex h2 \<noteq> Destroyed" using h2(3) by simp
  from send_loop_simple_effect [OF env h2(2) this] obtain h3
    where h3: "send_loop_simple env h2 = Some (Ret h3)" "sent_back (read_failed dfile placed a') opened bytes h2 0 a' h3"
    by blast
  obtain h' where "finish_client env h3 = Ret h'" "served (read_failed dfile placed a') rep bytes h2 0 a' h'"
    using finish_effect [OF env(1) h2(3) h3(2)] by blast
  then show ?thesis using h1 h2 h3(1) served_same [of h2 h]
    by (auto simp: client_handler_simple_def)
qed

lemma client_handler_effect:
  assumes env: "api env = dfile" "sends_all env" and rep: "rep (store h) a"
    and unl: "fileMutex h = Unlocked" and small: "\<forall>bs \<in> set (chunks rs). length bs \<le> BUF_LEN"
    and data: "no_seek env rs (replicate BUF_LEN 0)"
  shows "\<exists>h' a'. client_handler env rs h = Some (Ret h') \<and>
    written_all written (chunks rs) a a' \<and> served (read_failed dfile placed a') rep bytes h 0 a' h'"
proof -
  obtain a' h1 where h1: "recv_loop_simple env rs h = Ret h1" "rep (store h1) a'"
    "written_all written (chunks rs) a a'" "fileMutex h1 = Unlocked" "sent h1 = sent h"
    "stray_unlocks h1 = stray_unlocks h"
    using recv_loop_simple_effect [OF env(1) small rep unl] by blast
  obtain h2 where h2: "reopen_file env h1 = Ret h2" "placed (store h2) (file_fd h2) 0 a'"
    "fileMutex h2 = Locked" "sent h2 = sent h1" "stray_unlocks h2 = stray_unlocks h1"
    using reopen_effect [OF env(1) h1(2,4)] by blast
  have "fileMutex h2 \<noteq> Destroyed" using h2(3) by simp
  from send_loop_effect [OF env h2(2) this] obtain h3
    where h3: "send_loop env h2 = Some (Ret h3)" "sent_back (read_failed dfile placed a') opened bytes h2 0 a' h3"
    by blast
  obtain h' where "finish_client env h3 = Ret h'" "served (read_failed dfile placed a') rep bytes h2 0 a' h'"
    using finish_effect [OF env(1) h2(3) h3(2)] by blast
  then show ?thesis using h1 h2 h3(1) served_same [of h2 h] recv_loop_no_seek [OF data]
    by (auto simp: client_handler_def)
qed

text \<open>
  A seek command that ends its message: the file is sent back from where the \<open>ioctl\<close> has put the
  file position.
\<close>

lemma client_handler_seek_effect:
  assumes env: "api env = dfile" "sends_all env" and rep: "rep (store h) a"
    and unl: "fileMutex h = Unlocked" and bs: "bs \<noteq> []" "last bs = newline"
    and msg: "text = c_string (bs @ drop (length bs) (replicate BUF_LEN 0)) (beyond env)"
    and seek: "contains ioctl_cmd text" "scan_seekto (scan_overflow env) text (seekto0 env) = st"
    and ioctl: "\<And>f fd. placed f fd 0 a \<Longrightarrow> \<exists>r f'. api_ioctl dfile fd st f = Ret (r, f') \<and> placed f' fd n a"
  shows "\<exists>h'. client_handler env (Recv bs # rs) h = Some (Ret h') \<and>
    served (read_failed dfile placed a) rep bytes h n a h'"
proof -
  obtain fd f where o: "api_open dfile Read_write (store h) = (fd, f)"
    by (cases "api_open dfile Read_write (store h)")
  obtain r f' where io: "api_ioctl dfile fd st f = Ret (r, f')" "placed f' fd n a"
    using ioctl open_at [OF rep o] by blast
  let ?h = "h\<lparr>fileMutex := Locked, file_fd := fd, store := f'\<rparr>"
  have "seek_file env st h = Ret ?h"
    using env unl o io(1) by (simp add: seek_file_def lock_file_def Let_def)
  then have rl: "recv_loop env (Recv bs # rs) (replicate BUF_LEN 0) False (seekto0 env) h = Ret (True, ?h)"
    using bs msg seek by (simp add: Let_def)
  have pl: "placed (store ?h) (file_fd ?h) n a" using io(2) by simp
  obtain h3 where h3: "send_loop env ?h = Some (Ret h3)"
    "sent_back (read_failed dfile placed a) opened bytes ?h n a h3"
    using send_loop_effect [OF env pl] by auto
  have "fileMutex ?h = Locked" by simp
  from finish_effect [OF env(1) this h3(2)] obtain h'
    where "finish_client env h3 = Ret h'" "served (read_failed dfile placed a) rep bytes ?h n a h'"
    by blast
  then show ?thesis using rl h3(1) served_same [of ?h h]
    by (auto simp: client_handler_def simp del: recv_loop.simps)
qed

end

text \<open>
  A seek command that does not end its message keeps the file mutex: the next message makes the
  handler wait for itself.
\<close>

lemma client_handler_seek_blocks:
  assumes unl: "fileMutex h = Unlocked" and bs: "bs \<noteq> []" "last bs \<noteq> newline" "bs' \<noteq> []"
    and msg: "text = c_string (bs @ drop (length bs) (replicate BUF_LEN 0)) (beyond env)"
    and seek: "contains ioctl_cmd text" "scan_seekto (scan_overflow env) text (seekto0 env) = st"
    and o: "api_open (api env) Read_write (store h) = (fd, f)"
    and io: "api_ioctl (api env) fd st f = Ret (r, f')"
  shows "client_handler env (Recv bs # Recv bs' # rs) h = Some Blocked"
proof -
  let ?h = "h\<lparr>fileMutex := Locked, file_fd := fd, store := f'\<rparr>"
  have "seek_file env st h = Ret ?h"
    using unl o io by (simp add: seek_file_def lock_file_def Let_def)
  moreover have "append_file env bs' ?h = Blocked" "seek_file env st' ?h = Blocked" for st'
    by (simp_all add: append_file_def seek_file_def lock_file_def)
  ultimately have "recv_loop env (Recv bs # Recv bs' # rs) (replicate BUF_LEN 0) False (seekto0 env) h = Blocked"
    using bs msg seek by (simp add: Let_def)
  then show ?thesis by (simp add: client_handler_def del: recv_loop.simps)
qed

end
