(* ===== verification/Device_File.thy ===== *)
theory Device_File
  imports Data_File Device_History
begin

text \<open>
  The character device as the data file of the server: the library calls the server makes, each a
  system call on the driver with the buffer in user memory, keep the contract of \<open>Data_File\<close>.
\<close>

subsection \<open>Library calls on the device\<close>

text \<open>The address of the buffer of the calling thread.\<close>

definition user_buf :: nat where
  "user_buf = 4096"

text \<open>A negative result of a system call is -1 for the caller.\<close>

definition libc_result :: "ssize_t \<Rightarrow> int" where
  "libc_result r = (if sint r < 0 then -1 else sint r)"

definition le_bytes :: "uint32 \<Rightarrow> byte list" where
  "le_bytes w = map (\<lambda>i. ucast (drop_bit (8 * i) w)) [0..<4]"

definition seekto_bytes :: "aesd_seekto \<Rightarrow> byte list" where
  "seekto_bytes st = le_bytes (write_cmd st) @ le_bytes (write_cmd_offset st)"

definition dev_api ::
  "kernel \<Rightarrow> (nat \<Rightarrow> size_t) \<Rightarrow> (nat \<Rightarrow> size_t) \<Rightarrow> ((nat \<Rightarrow> open_file option) \<Rightarrow> nat) \<Rightarrow> system file_api"
where
  "dev_api k oob oobe new_fd =
     (let call = sys_call (aesd_fops k oob oobe) in
      \<lparr>api_open = (\<lambda>m s. let fd = new_fd (files s) in
         (case call (Open fd (m \<noteq> Read_only)) s of Ret (r, s) \<Rightarrow> (if sint r < 0 then -1 else int fd, s) | _ \<Rightarrow> (-1, s))),
       api_write = (\<lambda>fd bs s. obind (call (Store user_buf bs) s) (\<lambda>(_, s).
         obind (call (Write (nat fd) user_buf (of_nat (length bs))) s) (\<lambda>(r, s).
           Ret (libc_result r, s)))),
       api_read = (\<lambda>fd n s. obind (call (Read (nat fd) user_buf (of_nat n)) s) (\<lambda>(r, s).
         Ret (libc_result r, if sint r < 0 then []
              else get_user (user (sworld s)) user_buf (nat (sint r)), s))),
       api_lseek = (\<lambda>fd s. obind (call (Llseek (nat fd) 0 1) s) (\<lambda>(r, s). Ret (libc_result r, s))),
       api_ioctl = (\<lambda>fd st s. obind (call (Store user_buf (seekto_bytes st)) s) (\<lambda>(_, s).
         obind (call (Ioctl (nat fd) (AESDCHAR_IOCSEEKTO k) user_buf) s) (\<lambda>(r, s).
           Ret (libc_result r, s)))),
       api_close = (\<lambda>fd s. case call (Close (nat fd)) s of Ret (r, s) \<Rightarrow> (libc_result r, s) | _ \<Rightarrow> (-1, s))\<rparr>)"

subsection \<open>What the device represents\<close>

definition dev_free :: "kernel \<Rightarrow> system \<Rightarrow> log \<Rightarrow> bool" where
  "dev_free k s a \<longleftrightarrow> kernel_ok k \<and> log_abs k s a \<and> \<not> lock (device (sworld s))"

definition dev_opened :: "kernel \<Rightarrow> system \<Rightarrow> int \<Rightarrow> log \<Rightarrow> bool" where
  "dev_opened k s fd a \<longleftrightarrow> dev_free k s a \<and> (\<exists>filp. files s (nat fd) = Some filp)"

definition dev_writable :: "kernel \<Rightarrow> system \<Rightarrow> int \<Rightarrow> log \<Rightarrow> bool" where
  "dev_writable k s fd a \<longleftrightarrow> dev_free k s a \<and> (\<exists>filp. files s (nat fd) = Some filp \<and> can_write filp)"

definition dev_placed :: "kernel \<Rightarrow> system \<Rightarrow> int \<Rightarrow> nat \<Rightarrow> log \<Rightarrow> bool" where
  "dev_placed k s fd n a \<longleftrightarrow> dev_free k s a \<and> n < 2 ^ 63 \<and>
     (\<exists>filp. files s (nat fd) = Some filp \<and> unat (f_pos filp) = n)"

definition log_bytes :: "log \<Rightarrow> byte list" where
  "log_bytes a = concat (fst a)"

definition dev_written :: "byte list \<Rightarrow> log \<Rightarrow> int \<Rightarrow> log \<Rightarrow> bool" where
  "dev_written bs a r a' \<longleftrightarrow>
     r = -1 \<and> fst a' = fst a \<and> log_step a a' \<or>
     r = int (length (first_packet bs)) \<and>
     (\<exists>q. (snd a = None \<or> snd a = Some q) \<and>
        a' = (if newline \<in> set bs then (push (fst a) (q @ first_packet bs), Some [])
              else (fst a, Some (q @ first_packet bs))))"

lemma get_put_user: "get_user (put_user m u bs) u (length bs) = bs"
  by (rule nth_equalityI) (simp_all add: get_user_def put_user_def)

lemma libc_result_nat: "n < 2 ^ 63 \<Longrightarrow> libc_result (of_nat n) = int n"
  by (simp add: libc_result_def sint_of_nat64)

lemma libc_result_error: "r \<in> {- ENOMEM, - EFAULT} \<Longrightarrow> libc_result r = -1"
  by (auto simp: libc_result_def)

lemma dev_open:
  assumes free: "dev_free k s a" and op: "api_open (dev_api k oob oobe new_fd) m s = (fd, s')"
  shows "dev_placed k s' fd 0 a" and "m \<noteq> Read_only \<Longrightarrow> dev_writable k s' fd a"
proof -
  have "log_abs k (put_file (new_fd (files s)) \<lparr>private_data = Aesd_device, f_pos = 0, can_write = b\<rparr> (sworld s) s) a" for b
    using free by (intro log_abs_put_file [of k s a]) (simp_all add: dev_free_def log_abs_def)
  then show "dev_placed k s' fd 0 a" "m \<noteq> Read_only \<Longrightarrow> dev_writable k s' fd a" using free op
    by (auto simp: dev_api_def Let_def aesd_fops_def aesd_open_def aesd_inode_def dev_placed_def
        dev_writable_def dev_free_def put_file_def)
qed

lemma write_effect_written:
  assumes eff: "write_effect k w (fst a) pend bs pos r pos' w'" and p: "snd a = None \<or> snd a = Some pend"
  obtains a' where "dev_written bs a (libc_result r) a'" "world_log k w' a'"
  using eff p
proof (cases rule: write_effect_log)
  case (failed l)
  then show ?thesis using that [of l] by (simp add: dev_written_def libc_result_error)
next
  case (stored l)
  moreover have "libc_result r = int (length (first_packet bs))" using stored(1,2) by (simp add: libc_result_nat)
  ultimately show ?thesis using that [of l] p unfolding dev_written_def by auto
qed

lemma dev_write:
  assumes op: "dev_writable k s fd a" and len: "length bs \<le> BUF_LEN"
  shows "\<exists>r s' a'. api_write (dev_api k oob oobe new_fd) fd bs s = Ret (r, s') \<and>
    dev_written bs a r a' \<and> dev_writable k s' fd a'"
proof -
  obtain filp where fd: "files s (nat fd) = Some filp" "can_write filp" and free: "dev_free k s a"
    using op by (auto simp: dev_writable_def)
  obtain xs p where a: "a = (xs, p)" by (cases a)
  have kok: "kernel_ok k" and abs: "log_abs k s a" and unl: "\<not> lock (device (sworld s))"
    using free by (simp_all add: dev_free_def)
  note fil = log_abs_files [OF abs fd(1)]
  let ?w = "(sworld s)\<lparr>user := put_user (user (sworld s)) user_buf bs\<rparr>"
  let ?s = "s\<lparr>sworld := ?w\<rparr>"
  have wl: "world_log k ?w (xs, p)" using abs by (simp add: log_abs_def a)
  obtain pend where st: "dev_state k ?w xs pend" and q: "\<And>q. p = Some q \<Longrightarrow> pend = q"
    and lost: "p = None \<longleftrightarrow> poisoned ?w"
    using world_log_state [OF wl] by blast
  have small: "length bs < 2 ^ 63" using len by (simp add: BUF_LEN_def)
  then have un: "unat (of_nat (length bs) :: size_t) = length bs" by (simp add: unat_of_nat)
  have data: "get_user (user ?w) user_buf (unat (of_nat (length bs) :: size_t)) = bs"
    by (simp add: un get_put_user)
  have unl': "\<not> lock (device ?w)" using unl by simp
  from aesd_write_effect [OF kok st fil unl', of oob user_buf "of_nat (length bs)" "f_pos filp",
      unfolded data]
  obtain r pos w' pend' where wr: "aesd_write k oob filp user_buf (of_nat (length bs)) (f_pos filp) ?w
      = Ret (r, pos, w')"
    and free': "\<not> lock (device w')" and pe: "\<not> poisoned ?w \<longrightarrow> pend' = pend"
    and eff: "write_effect k ?w xs pend' bs (f_pos filp) r pos w'"
    by blast
  let ?s' = "put_file (nat fd) (filp\<lparr>f_pos := pos\<rparr>) w' ?s"
  have res: "api_write (dev_api k oob oobe new_fd) fd bs s = Ret (libc_result r, ?s')"
    using fd wr by (simp add: dev_api_def Let_def aesd_fops_def with_file_def)
  have p': "snd a = None \<or> snd a = Some pend'" using pe q lost by (cases p) (auto simp: a)
  have "write_effect k ?w (fst a) pend' bs (f_pos filp) r pos w'" using eff by (simp add: a)
  from write_effect_written [OF this p'] obtain a' where "dev_written bs a (libc_result r) a'" "world_log k w' a'" .
  moreover from this(2) have "dev_writable k ?s' fd a'"
    using abs fil kok free' fd(2) by (auto simp: dev_writable_def dev_free_def log_abs_def put_file_def)
  ultimately show ?thesis using res by blast
qed

lemma dev_lseek_same:
  assumes pl: "dev_placed k s fd n a"
  shows "\<exists>r. api_lseek (dev_api k oob oobe new_fd) fd s = Ret (r, s)"
proof -
  obtain filp where fd: "files s (nat fd) = Some filp" and n: "unat (f_pos filp) = n" "n < 2 ^ 63"
    and free: "dev_free k s a"
    using pl by (auto simp: dev_placed_def)
  note fil = log_abs_files [OF _ fd]
  have kok: "kernel_ok k" and abs: "log_abs k s a" and unl: "\<not> lock (device (sworld s))"
    using free by (simp_all add: dev_free_def)
  have ls: "fixed_size_llseek k (f_pos filp) 0 1 m = (f_pos filp, f_pos filp)" for m
    using kok by (simp add: kernel_ok_def llseek_ok_def)
  have "f_pos filp = of_nat n" using n by (metis of_nat_unat ucast_id)
  then have "\<not> sint (f_pos filp) < 0" using sint_of_nat64 [OF n(2)] by simp
  then have call: "aesd_llseek k filp 0 1 (sworld s) = Ret (f_pos filp, filp, sworld s)"
    using fil [OF abs] unl by (simp add: aesd_llseek_def mutex_lock_free ls [unfolded One_nat_def] unlock_lock)
  have "put_file (nat fd) filp (sworld s) s = s" using fd by (simp add: put_file_def fun_upd_idem)
  then show ?thesis using call fd pl
    by (simp add: dev_api_def Let_def aesd_fops_def with_file_def)
qed

lemma dev_lseek:
  "dev_placed k s fd n a \<Longrightarrow> \<exists>r s'. api_lseek (dev_api k oob oobe new_fd) fd s = Ret (r, s') \<and> dev_placed k s' fd n a"
  using dev_lseek_same by blast

text \<open>What a read has done, in terms of the library: a failure, or a packet in the user's buffer.\<close>

lemma read_effect_packet:
  assumes log: "log_rep k w xs" and n: "unat pos = n" "n < 2 ^ 63"
    and eff: "read_effect xs buf (of_nat BUF_LEN) pos w r pos' w'" and d: "d = next_read xs n BUF_LEN"
  obtains (failed) m where "libc_result r = -1" "w' = w\<lparr>user := m\<rparr>"
  | (packet) "sint r = int (length d)" "libc_result r = int (length d)" "unat pos' = n + length d" "n + length d < 2 ^ 63"
      "w' = w\<lparr>user := put_user (user w) buf d\<rparr>"
proof -
  have ub: "unat (of_nat BUF_LEN :: size_t) = BUF_LEN" by (simp add: BUF_LEN_def)
  have total: "length (concat xs) < 2 ^ 63" by (rule log_rep_total [OF log])
  have fits: "n + length d < 2 ^ 63" using next_read_bound [of n xs BUF_LEN] total n(2) by (simp add: d)
  from eff consider
    (some) "r = of_nat (length d)" "length d < 2 ^ 63" "pos' = pos + r" "w' = w\<lparr>user := put_user (user w) buf d\<rparr>"
    | (fault) m where "r = - EFAULT" "w' = w\<lparr>user := m\<rparr>"
    unfolding read_effect_def Let_def n ub d by blast
  then show thesis
  proof cases
    case some
    have sr: "sint r = int (length d)" using some sint_of_nat64 by blast
    moreover have "unat pos' = n + length d"
      using some(1-3) n fits by (simp only: some(3)) (subst unat_add_nowrap; simp add: unat_of_nat)
    ultimately show thesis using that(2) fits some(4) by (simp add: libc_result_def)
  next
    case fault
    then show thesis using failed [of m] by (simp add: libc_result_def)
  qed
qed

lemma dev_read_packet:
  assumes pl: "dev_placed k s fd n a"
  shows "\<exists>r bs s'. api_read (dev_api k oob oobe new_fd) fd BUF_LEN s = Ret (r, bs, s') \<and>
    (r = -1 \<and> dev_opened k s' fd a \<or>
     r = int (length bs) \<and> dev_placed k s' fd (n + length bs) a \<and>
     bs = next_read (fst a) n BUF_LEN \<and> (\<exists>rest. drop n (log_bytes a) = bs @ rest) \<and> (bs = [] \<longleftrightarrow> length (log_bytes a) \<le> n))"
proof -
  obtain filp where fd: "files s (nat fd) = Some filp" and n: "unat (f_pos filp) = n" "n < 2 ^ 63"
    and kok: "kernel_ok k" and abs: "log_abs k s a" and unl: "\<not> lock (device (sworld s))"
    using pl by (auto simp: dev_placed_def dev_free_def)
  obtain xs p where a: "a = (xs, p)" by (cases a)
  note fil = log_abs_files [OF abs fd]
  have wl: "world_log k (sworld s) (xs, p)" using abs by (simp add: log_abs_def a)
  note log = world_log_rep_log [OF wl]
  define d where "d = next_read xs n BUF_LEN"
  from aesd_read_effect [OF kok log fil unl, of user_buf "of_nat BUF_LEN" "f_pos filp"]
  obtain r pos w' where rd: "aesd_read k filp user_buf (of_nat BUF_LEN) (f_pos filp) (sworld s) = Ret (r, pos, w')"
    and eff: "read_effect xs user_buf (of_nat BUF_LEN) (f_pos filp) (sworld s) r pos w'"
    by blast
  let ?s' = "put_file (nat fd) (filp\<lparr>f_pos := pos\<rparr>) w' s"
  let ?bs = "if sint r < 0 then [] else get_user (user w') user_buf (nat (sint r))"
  have res: "api_read (dev_api k oob oobe new_fd) fd BUF_LEN s = Ret (libc_result r, ?bs, ?s')"
    using fd rd by (simp add: dev_api_def Let_def aesd_fops_def with_file_def put_file_def)
  have ok: "dev_free k ?s' a \<and> files ?s' (nat fd) = Some (filp\<lparr>f_pos := pos\<rparr>)" if "w' = (sworld s)\<lparr>user := m\<rparr>" for m
    using that abs fil kok unl wl a by (auto simp: dev_free_def log_abs_def put_file_def)
  from log n eff d_def show ?thesis
  proof (cases rule: read_effect_packet)
    case (failed m)
    then have "dev_opened k ?s' fd a" using ok by (auto simp: dev_opened_def)
    then show ?thesis using res failed(1) by blast
  next
    case packet
    have bs: "?bs = d" using packet(1,5) by (simp add: get_put_user)
    have "dev_placed k ?s' fd (n + length d) a" using ok [OF packet(5)] packet(3,4) by (auto simp: dev_placed_def)
    moreover have "take (length d) (drop n (log_bytes a)) = d"
      unfolding log_bytes_def a fst_conv d_def by (rule next_read_prefix [symmetric])
    then have "drop n (log_bytes a) = d @ drop (length d) (drop n (log_bytes a))" by (metis append_take_drop_id)
    moreover have "d = [] \<longleftrightarrow> length (log_bytes a) \<le> n"
      by (simp add: d_def next_read_Nil_iff log_bytes_def a BUF_LEN_def)
    moreover have "d = next_read (fst a) n BUF_LEN" by (simp add: a d_def)
    ultimately show ?thesis using res [unfolded bs packet(2)] by blast
  qed
qed

lemma dev_read:
  assumes "dev_placed k s fd n a"
  shows "\<exists>r bs s'. api_read (dev_api k oob oobe new_fd) fd BUF_LEN s = Ret (r, bs, s') \<and>
    (r = -1 \<and> dev_opened k s' fd a \<or>
     r = int (length bs) \<and> dev_placed k s' fd (n + length bs) a \<and>
     (\<exists>rest. drop n (log_bytes a) = bs @ rest) \<and> (bs = [] \<longleftrightarrow> length (log_bytes a) \<le> n))"
  using dev_read_packet [OF assms] by blast

lemma dev_close:
  assumes "dev_opened k s fd a"
  shows "dev_free k (snd (api_close (dev_api k oob oobe new_fd) fd s)) a"
  using assms
  by (auto simp: dev_opened_def dev_free_def dev_api_def Let_def aesd_fops_def aesd_release_def
      with_file_def log_abs_def split: if_splits)

interpretation dev: data_file "dev_api k oob oobe new_fd" "dev_free k" "dev_opened k" "dev_writable k" "dev_placed k"
    log_bytes dev_written for k oob oobe new_fd
proof
  show "dev_placed k f' fd 0 a"
    if "dev_free k f a" "api_open (dev_api k oob oobe new_fd) m f = (fd, f')" for f a m fd f'
    using that by (rule dev_open(1))
  show "dev_writable k f' fd a"
    if "dev_free k f a" "api_open (dev_api k oob oobe new_fd) Create_append f = (fd, f')" for f a fd f'
    using dev_open(2) [OF that] by simp
  show "dev_opened k f fd a" if "dev_writable k f fd a" for f fd a
    using that by (auto simp: dev_writable_def dev_opened_def)
  show "dev_opened k f fd a" if "dev_placed k f fd n a" for f fd n a
    using that by (auto simp: dev_placed_def dev_opened_def)
  show "\<exists>r f' a'. api_write (dev_api k oob oobe new_fd) fd bs f = Ret (r, f') \<and>
      dev_written bs a r a' \<and> dev_writable k f' fd a'"
    if "dev_writable k f fd a" "bs \<noteq> []" "length bs \<le> BUF_LEN" for f fd a bs
    using that(1,3) by (rule dev_write)
  show "\<exists>r f'. api_lseek (dev_api k oob oobe new_fd) fd f = Ret (r, f') \<and> dev_placed k f' fd n a"
    if "dev_placed k f fd n a" for f fd n a
    using that by (rule dev_lseek)
  show "\<exists>r bs f'. api_read (dev_api k oob oobe new_fd) fd BUF_LEN f = Ret (r, bs, f') \<and>
      (r = -1 \<and> dev_opened k f' fd a \<or>
       r = int (length bs) \<and> dev_placed k f' fd (n + length bs) a \<and>
       (\<exists>rest. drop n (log_bytes a) = bs @ rest) \<and> (bs = [] \<longleftrightarrow> length (log_bytes a) \<le> n))"
    if "dev_placed k f fd n a" for f fd n a
    using that by (rule dev_read)
  show "dev_free k (snd (api_close (dev_api k oob oobe new_fd) fd f)) a"
    if "dev_opened k f fd a" for f fd a
    using that by (rule dev_close)
qed

subsection \<open>Reads that cannot fail\<close>

lemma dev_never_fails:
  assumes copies: "\<forall>m u bs. fst (copy_to_user k m u bs) = 0"
  shows "\<not> read_failed (dev_api k oob oobe new_fd) (dev_placed k) a"
proof
  assume "read_failed (dev_api k oob oobe new_fd) (dev_placed k) a"
  then obtain s fd n bs s' where pl: "dev_placed k s fd n a"
    and rd: "api_read (dev_api k oob oobe new_fd) fd BUF_LEN s = Ret (-1, bs, s')"
    by (auto simp: read_failed_def)
  obtain xs p where a: "a = (xs, p)" by (cases a)
  obtain filp where fd: "files s (nat fd) = Some filp" and abs: "log_abs k s a"
    and unl: "\<not> lock (device (sworld s))"
    using pl by (auto simp: dev_placed_def dev_free_def)
  have log: "log_rep k (sworld s) xs" using abs a world_log_rep_log by (auto simp: log_abs_def)
  obtain r pos w' where res: "aesd_read k filp user_buf (of_nat BUF_LEN) (f_pos filp) (sworld s) = Ret (r, pos, w')"
    and neg: "libc_result r = -1"
    using rd fd by (auto simp: dev_api_def Let_def aesd_fops_def with_file_def obind_Ret_iff)
  have "0 \<le> sint r" by (rule aesd_read_reliable [OF log log_abs_files [OF abs fd] unl copies res])
  then show False using neg by (simp add: libc_result_def)
qed

subsection \<open>The seek command on the device\<close>

lemma ucast_ucast_take_bit: "(ucast (ucast x :: byte) :: uint32) = take_bit 8 x"
  by (rule bit_eqI) (auto simp: bit_simps)

lemma le_word_bytes: "le_word (le_bytes w) = w"
proof -
  let ?x = "\<lambda>i. drop_bit (8 * i) w"
  have join: "push_bit 8 (drop_bit 8 v) + take_bit 8 v = v" for v :: uint32 by (rule bits_ident)
  have "take_bit 8 (?x 3) = ?x 3"
    by (rule bit_eqI) (auto simp: bit_simps dest: bit_imp_le_length)
  moreover have "drop_bit 8 (?x 2) = ?x 3" "drop_bit 8 (?x 1) = ?x 2" "drop_bit 8 (?x 0) = ?x 1"
    by simp_all
  ultimately have "push_bit 8 (push_bit 8 (push_bit 8 (take_bit 8 (?x 3)) + take_bit 8 (?x 2)) +
      take_bit 8 (?x 1)) + take_bit 8 (?x 0) = w"
    using join [of "?x 2"] join [of "?x 1"] join [of "?x 0"] by simp
  then show ?thesis
    by (simp add: le_word_def le_bytes_def upt_rec ucast_ucast_take_bit)
qed

lemma length_le_bytes: "length (le_bytes w) = 4"
  by (simp add: le_bytes_def)

lemma seekto_roundtrip: "seekto_of_bytes (seekto_bytes st) = st"
  by (simp add: seekto_of_bytes_def seekto_bytes_def length_le_bytes le_word_bytes)

lemma dev_ioctl_seek:
  assumes copies: "\<forall>m u n. fst (copy_from_user k m u n) = 0"
    and pl: "dev_placed k s fd 0 (xs, Some pend)" and nf: "\<not> full (circ_buffer (device (sworld s)))"
    and i: "unat (write_cmd st) < length xs"
    and j: "unat (write_cmd_offset st) \<le> length (xs ! unat (write_cmd st))"
  shows "\<exists>r s'. api_ioctl (dev_api k oob oobe new_fd) fd st s = Ret (r, s') \<and>
    dev_placed k s' fd (length (concat (take (unat (write_cmd st)) xs)) + unat (write_cmd_offset st))
      (xs, Some pend)"
proof -
  let ?i = "unat (write_cmd st)" and ?j = "unat (write_cmd_offset st)"
  let ?n = "length (concat (take ?i xs)) + ?j"
  obtain filp where fd: "files s (nat fd) = Some filp" and free: "dev_free k s (xs, Some pend)"
    using pl by (auto simp: dev_placed_def)
  have kok: "kernel_ok k" and abs: "log_abs k s (xs, Some pend)" and unl: "\<not> lock (device (sworld s))"
    using free by (simp_all add: dev_free_def)
  note fil = log_abs_files [OF abs fd]
  let ?w = "(sworld s)\<lparr>user := put_user (user (sworld s)) user_buf (seekto_bytes st)\<rparr>"
  have wl: "world_log k ?w (xs, Some pend)" using abs by (simp add: log_abs_def)
  note log = world_log_rep_log [OF wl]
  have len: "length (seekto_bytes st) = 8" by (simp add: seekto_bytes_def length_le_bytes)
  obtain u bs where cu: "copy_from_user k (user ?w) user_buf 8 = (u, bs)"
    by (cases "copy_from_user k (user ?w) user_buf 8")
  have "u = 0" using copies cu by (metis fst_conv)
  moreover from this have "bs = get_user (user ?w) user_buf (unat (8 :: size_t))"
    using kok cu unfolding kernel_ok_def user_copy_ok_def by blast
  then have "bs = get_user (put_user (user (sworld s)) user_buf (seekto_bytes st)) user_buf
      (length (seekto_bytes st))" by (simp add: len)
  then have "bs = seekto_bytes st" by (simp only: get_put_user)
  ultimately have copy: "copy_from_user k (user ?w) user_buf 8 = (0, seekto_bytes st)" using cu by simp
  have nf': "\<not> full (ring_of ?w)" and unl': "\<not> lock (device ?w)" using nf unl by simp_all
  have "aesd_ioctl k oobe filp (AESDCHAR_IOCSEEKTO k) user_buf ?w = Ret (0, filp\<lparr>f_pos := of_nat ?n\<rparr>, ?w)"
    by (rule aesd_ioctl_seekto [OF kok log nf' fil unl' copy]) (simp_all add: seekto_roundtrip i j)
  then have res: "api_ioctl (dev_api k oob oobe new_fd) fd st s =
      Ret (libc_result 0, put_file (nat fd) (filp\<lparr>f_pos := of_nat ?n\<rparr>) ?w (s\<lparr>sworld := ?w\<rparr>))"
    using fd by (simp add: dev_api_def Let_def aesd_fops_def with_file_def)
  have "length (concat xs) = length (concat (take ?i xs @ xs ! ?i # drop (Suc ?i) xs))"
    by (rule arg_cong [OF id_take_nth_drop [OF i], of "\<lambda>x. length (concat x)"])
  then have "?n \<le> length (concat xs)" using j by simp
  then have small: "?n < 2 ^ 63" using log_rep_total [OF log] by simp
  then have "unat (of_nat ?n :: loff_t) = ?n" by (simp only: unat_of_nat) simp
  then have "dev_placed k (put_file (nat fd) (filp\<lparr>f_pos := of_nat ?n\<rparr>) ?w (s\<lparr>sworld := ?w\<rparr>)) fd ?n (xs, Some pend)"
    using free small wl abs fil by (auto simp: dev_placed_def dev_free_def put_file_def log_abs_def)
  then show ?thesis using res by blast
qed

lemma dev_ioctl_returns:
  assumes "dev_opened k s fd a"
  shows "\<exists>r s'. api_ioctl (dev_api k oob oobe new_fd) fd st s = Ret (r, s')"
proof -
  obtain filp where fd: "files s (nat fd) = Some filp" and abs: "log_abs k s a"
    and unl: "\<not> lock (device (sworld s))"
    using assms by (auto simp: dev_opened_def dev_free_def)
  let ?w = "(sworld s)\<lparr>user := put_user (user (sworld s)) user_buf (seekto_bytes st)\<rparr>"
  have "\<not> lock (device ?w)" using unl by simp
  then obtain r p where "aesd_ioctl k oobe filp (AESDCHAR_IOCSEEKTO k) user_buf ?w = Ret (r, filp\<lparr>f_pos := p\<rparr>, ?w)"
    using ioctl_world [OF log_abs_files [OF abs fd], of k oobe "AESDCHAR_IOCSEEKTO k" user_buf ?w] by auto
  then show ?thesis using fd by (simp add: dev_api_def Let_def aesd_fops_def with_file_def)
qed

end
