(* ===== verification/Plain_File.thy ===== *)
theory Plain_File
  imports Data_File
begin

text \<open>
  A regular file as the data file of the server, as \<^verbatim>\<open>aesdsocket-simple.c\<close> uses it: opening it
  always works, writes append (on a descriptor opened for them), reads and \<open>lseek\<close> follow the position of the descriptor, and the seek
  command is no operation of such a file. It is the second provider of the contract of \<open>Data_File\<close>.
\<close>

record plain_file =
  content :: "byte list"
  positions :: "int \<Rightarrow> nat option"
  for_writing :: "int set"

text \<open>The parameter picks the number of a new descriptor; \<open>lowest_fd\<close> is the usual choice, from 3 on.\<close>

fun lowest_from :: "nat \<Rightarrow> int \<Rightarrow> (int \<Rightarrow> nat option) \<Rightarrow> int" where
  "lowest_from 0 fd ps = fd"
| "lowest_from (Suc k) fd ps = (if ps fd = None then fd else lowest_from k (fd + 1) ps)"

definition lowest_fd :: "(int \<Rightarrow> nat option) \<Rightarrow> int" where
  "lowest_fd ps = lowest_from 1000 3 ps"

definition plain_api :: "((int \<Rightarrow> nat option) \<Rightarrow> int) \<Rightarrow> plain_file file_api" where
  "plain_api new_fd =
     \<lparr>api_open = (\<lambda>m f. let fd = new_fd (positions f) in
         (fd, f\<lparr>positions := (positions f)(fd \<mapsto> 0),
            for_writing := (if m = Read_only then for_writing f - {fd} else insert fd (for_writing f))\<rparr>)),
      api_write = (\<lambda>fd bs f. case positions f fd of
          None \<Rightarrow> Ret (-1, f)
        | Some p \<Rightarrow> Ret (if fd \<notin> for_writing f then (-1, f)
            else (int (length bs), f\<lparr>content := content f @ bs,
              positions := (positions f)(fd \<mapsto> length (content f @ bs))\<rparr>))),
      api_read = (\<lambda>fd n f. case positions f fd of
          None \<Rightarrow> Ret (-1, [], f)
        | Some p \<Rightarrow> (let bs = take n (drop p (content f)) in
            Ret (int (length bs), bs, f\<lparr>positions := (positions f)(fd \<mapsto> p + length bs)\<rparr>))),
      api_lseek = (\<lambda>fd f. Ret (case positions f fd of None \<Rightarrow> -1 | Some p \<Rightarrow> int p, f)),
      api_ioctl = (\<lambda>fd st f. Ret (-1, f)),
      api_close = (\<lambda>fd f. case positions f fd of
          None \<Rightarrow> (-1, f) | Some p \<Rightarrow> (0, f\<lparr>positions := (positions f)(fd := None)\<rparr>))\<rparr>"

definition plain_rep :: "plain_file \<Rightarrow> byte list \<Rightarrow> bool" where
  "plain_rep f a \<longleftrightarrow> content f = a"

definition plain_opened :: "plain_file \<Rightarrow> int \<Rightarrow> byte list \<Rightarrow> bool" where
  "plain_opened f fd a \<longleftrightarrow> content f = a \<and> positions f fd \<noteq> None"

definition plain_writable :: "plain_file \<Rightarrow> int \<Rightarrow> byte list \<Rightarrow> bool" where
  "plain_writable f fd a \<longleftrightarrow> content f = a \<and> positions f fd \<noteq> None \<and> fd \<in> for_writing f"

definition plain_placed :: "plain_file \<Rightarrow> int \<Rightarrow> nat \<Rightarrow> byte list \<Rightarrow> bool" where
  "plain_placed f fd n a \<longleftrightarrow> content f = a \<and> positions f fd = Some n"

definition appended :: "byte list \<Rightarrow> byte list \<Rightarrow> int \<Rightarrow> byte list \<Rightarrow> bool" where
  "appended bs a r b \<longleftrightarrow> r = int (length bs) \<and> b = a @ bs"

interpretation plain: data_file "plain_api new_fd" plain_rep plain_opened plain_writable plain_placed "\<lambda>a. a" appended
  for new_fd
proof
  show "plain_placed f' fd 0 a"
    if "plain_rep f a" "api_open (plain_api new_fd) m f = (fd, f')" for f a m fd f'
    using that by (auto simp: plain_api_def plain_rep_def plain_placed_def Let_def)
  show "plain_opened f fd a" if "plain_placed f fd n a" for f fd n a
    using that by (simp add: plain_placed_def plain_opened_def)
  show "plain_writable f' fd a"
    if "plain_rep f a" "api_open (plain_api new_fd) Create_append f = (fd, f')" for f a fd f'
    using that by (auto simp: plain_api_def plain_rep_def plain_writable_def Let_def)
  show "plain_opened f fd a" if "plain_writable f fd a" for f fd a
    using that by (simp add: plain_writable_def plain_opened_def)
  show "\<exists>r f' a'. api_write (plain_api new_fd) fd bs f = Ret (r, f') \<and> appended bs a r a' \<and>
      plain_writable f' fd a'"
    if "plain_writable f fd a" "bs \<noteq> []" "length bs \<le> BUF_LEN" for f fd a bs
    using that by (auto simp: plain_api_def plain_writable_def appended_def)
  show "\<exists>r f'. api_lseek (plain_api new_fd) fd f = Ret (r, f') \<and> plain_placed f' fd n a"
    if "plain_placed f fd n a" for f fd n a
    using that by (simp add: plain_api_def)
  show "\<exists>r bs f'. api_read (plain_api new_fd) fd BUF_LEN f = Ret (r, bs, f') \<and>
      (r = -1 \<and> plain_opened f' fd a \<or>
       r = int (length bs) \<and> plain_placed f' fd (n + length bs) a \<and>
       (\<exists>rest. drop n a = bs @ rest) \<and> (bs = [] \<longleftrightarrow> length a \<le> n))"
    if "plain_placed f fd n a" for f fd n a
  proof -
    let ?bs = "take BUF_LEN (drop n a)"
    have "drop n a = ?bs @ drop BUF_LEN (drop n a)" by (rule append_take_drop_id [symmetric])
    moreover have "?bs = [] \<longleftrightarrow> length a \<le> n" by (simp add: BUF_LEN_def)
    ultimately show ?thesis using that
      by (auto simp: plain_api_def plain_placed_def Let_def simp del: append_take_drop_id)
  qed
  show "plain_rep (snd (api_close (plain_api new_fd) fd f)) a" if "plain_opened f fd a" for f fd a
    using that by (auto simp: plain_api_def plain_opened_def plain_rep_def)
qed

lemma plain_never_fails: "\<not> read_failed (plain_api new_fd) plain_placed a"
  by (auto simp: read_failed_def plain_api_def plain_placed_def Let_def)

lemma plain_lseek: "\<exists>r. api_lseek (plain_api new_fd) fd f = Ret (r, f)"
  by (simp add: plain_api_def)

end
