(* ===== verification/Server_Properties.thy ===== *)
theory Server_Properties
  imports Device_File Plain_File Example_Device
begin

text \<open>
  The properties of the client handlers: what a session stores and sends back, on the character
  device and on any file that keeps the contract, the seek command, and the use of the file mutex.
\<close>

subsection \<open>Environments for the witnesses\<close>

definition plain_env :: "'f file_api \<Rightarrow> 'f client_env" where
  "plain_env f = \<lparr>api = f, send_r = (\<lambda>bs. int (length bs)), beyond = [0],
     seekto0 = \<lparr>write_cmd = 9, write_cmd_offset = 9\<rparr>, scan_overflow = (\<lambda>_. 0)\<rparr>"

lemma plain_env_simps [simp]:
  "api (plain_env f) = f" "beyond (plain_env f) = [0]" "sends_all (plain_env f)"
  "seekto0 (plain_env f) = \<lparr>write_cmd = 9, write_cmd_offset = 9\<rparr>"
  "scan_overflow (plain_env f) = (\<lambda>_. 0)"
  by (simp_all add: plain_env_def sends_all_def)

abbreviation example_dev :: "system file_api" where
  "example_dev \<equiv> dev_api example_kernel (\<lambda>_. 0) (\<lambda>_. 0) (\<lambda>_. 3)"

abbreviation example_env :: "system client_env" where
  "example_env \<equiv> plain_env example_dev"

lemma new_handler_simps [simp]:
  "store (new_handler f) = f" "fileMutex (new_handler f) = Unlocked" "sent (new_handler f) = []"
  "stray_unlocks (new_handler f) = 0"
  by (simp_all add: new_handler_def)

lemma example_copies:
  "\<forall>m u bs. fst (copy_to_user example_kernel m u bs) = 0"
  "\<forall>m u n. fst (copy_from_user example_kernel m u n) = 0"
  by simp_all

definition two_system :: system where
  "two_system = \<lparr>sworld = two_world, files = Map.empty\<rparr>"

lemma two_system_log:
  "log_abs example_kernel two_system ([[97, 98, 10], [99, 10]], Some [])"
  "\<not> lock (device (sworld two_system))"
  using two_world_rep [of example_kernel]
  by (simp_all add: two_system_def log_abs_def world_log_def)


subsection \<open>A session that stores lines\<close>



text \<open>One message that ends in a newline, on a device with an unfinished line \<open>p\<close>: if the write
  succeeds, the device has taken the message up to its first newline as one packet, and the client
  gets the log with that packet at the end. Whatever else the message held is nowhere.\<close>

theorem one_message_one_packet:
  assumes kok: "kernel_ok k" and log: "log_abs k (store h) (xs, Some p)"
    and free: "\<not> lock (device (sworld (store h)))" and unl: "fileMutex h = Unlocked"
    and env: "api env = dev_api k oob oobe new_fd" "sends_all env"
    and copies: "\<forall>m u bs. fst (copy_to_user k m u bs) = 0"
    and msg: "bs = line @ newline # rest" "newline \<notin> set line" "last bs = newline" "length bs \<le> BUF_LEN"
    and data: "no_seek env [Recv bs] (replicate BUF_LEN 0)"
  shows "\<exists>h' ys q. client_handler env [Recv bs] h = Some (Ret h') \<and> log_abs k (store h') (ys, q) \<and>
    sent h' = sent h @ concat ys \<and>
    (ys = xs \<or> ys = push xs (p @ line @ [newline]) \<and> q = Some [])"
proof -
  have rep: "dev_free k (store h) (xs, Some p)" using kok log free by (simp add: dev_free_def)
  have ch: "chunks [Recv bs] = [bs]" using msg by simp
  then have small: "\<forall>bs \<in> set (chunks [Recv bs]). length bs \<le> BUF_LEN" using msg by simp
  obtain h' l' where h': "client_handler env [Recv bs] h = Some (Ret h')"
    and w: "written_all dev_written (chunks [Recv bs]) (xs, Some p) l'"
    and s: "served (read_failed (dev_api k oob oobe new_fd) (dev_placed k) l') (dev_free k) log_bytes h 0 l' h'"
    using dev.client_handler_effect [OF env rep unl small data] by blast
  obtain ys q where l': "l' = (ys, q)" by (cases l')
  have fp: "first_packet bs = line @ [newline]"
    using msg by (simp add: first_packet_def takeWhile_append)
  have "ys = xs \<or> ys = push xs (p @ line @ [newline]) \<and> q = Some []"
    using w unfolding ch written_all.simps dev_written_def fp by (auto simp: l' msg(1))
  moreover have "log_abs k (store h') (ys, q) \<and> sent h' = sent h @ concat ys"
    using s dev_never_fails [OF copies] by (auto simp: served_def l' dev_free_def log_bytes_def)
  ultimately show ?thesis using h' by blast
qed

theorem one_message_one_packet_witness:
  "\<exists>h' ys q. client_handler (plain_env example_dev) [Recv [100, 10, 101, 10]] (new_handler two_system)
      = Some (Ret h') \<and> sent h' = concat ys \<and>
    (ys = [[97, 98, 10], [99, 10]] \<or> ys = push [[97, 98, 10], [99, 10]] [100, 10] \<and> q = Some [])"
proof -
  have seek: "no_seek (plain_env example_dev) [Recv [100, 10, 101, 10]] (replicate BUF_LEN 0)"
    by (rule no_seek_one) (simp_all add: ioctl_cmd_def bytes_of_def)
  have "[100, 10, 101, 10] = [100] @ newline # [101, 10 :: byte]" by simp
  from one_message_one_packet [OF example_kernel_ok _ _ _ _ _ example_copies(1) this _ _ _ seek,
      where h = "new_handler two_system" and xs = "[[97, 98, 10], [99, 10]]" and p = "[]"] two_system_log
  show ?thesis by (fastforce simp: BUF_LEN_def)
qed

subsection \<open>The simple server\<close>

text \<open>C22: a session of \<open>aesdsocket-simple.c\<close> on any data file that keeps the contract, whose writes
  append everything and whose reads do not fail: all messages of the session are stored, in order,
  whatever newlines they hold, and the client gets the whole file, with its own messages at the
  end.\<close>

theorem simple_session_echoes_file:
  assumes contract: "data_file dfile rep opened writable placed bytes written" and rep: "rep (store h) a"
    and appends: "\<forall>bs a r b. written bs a r b \<longrightarrow> bytes b = bytes a @ bs"
    and reads: "\<forall>a. \<not> read_failed dfile placed a"
    and env: "api env = dfile" "sends_all env" and unl: "fileMutex h = Unlocked"
    and small: "\<forall>bs \<in> set (chunks rs). length bs \<le> BUF_LEN"
  shows "\<exists>h' a'. client_handler_simple env rs h = Some (Ret h') \<and> rep (store h') a' \<and>
    bytes a' = bytes a @ concat (chunks rs) \<and> sent h' = sent h @ bytes a' \<and>
    fileMutex h' = Unlocked \<and> isComplete h' = 1"
proof -
  have app: "written_all written bss a c \<Longrightarrow> bytes c = bytes a @ concat bss" for bss a c
    using appends by (induction bss arbitrary: a) auto
  from data_file.client_handler_simple_effect [OF contract env rep unl small] app reads show ?thesis
    by (fastforce simp: served_def)
qed

lemma new_plain_handler:
  "plain_rep (store (new_handler \<lparr>content = bs, positions = Map.empty, for_writing = {}\<rparr>)) bs"
  by (simp add: plain_rep_def)

theorem simple_session_echoes_file_witness:
  "\<exists>h'. client_handler_simple (plain_env (plain_api lowest_fd)) [Recv [97], Recv [10, 98, 10]]
      (new_handler \<lparr>content = [104, 10], positions = Map.empty, for_writing = {}\<rparr>) = Some (Ret h') \<and>
    sent h' = [104, 10, 97, 10, 98, 10]"
proof -
  have app: "\<forall>bs a r b. appended bs a r b \<longrightarrow> b = a @ bs" by (simp add: appended_def)
  have nf: "\<forall>a. \<not> read_failed (plain_api lowest_fd) plain_placed a" using plain_never_fails by blast
  have "data_file (plain_api lowest_fd) plain_rep plain_opened plain_writable plain_placed (\<lambda>a. a) appended"
    by (rule plain.data_file_axioms)
  from simple_session_echoes_file [OF this new_plain_handler app nf plain_env_simps(1,3) new_handler_simps(2),
      of "[Recv [97], Recv [10, 98, 10]]" "[104, 10]"]
  show ?thesis by (fastforce simp: BUF_LEN_def)
qed

text \<open>On a file whose \<open>lseek\<close> by zero changes nothing, and for a client that sends no seek
  command, the handlers of both servers do the same, in every respect: also when they do not
  return.\<close>

theorem handlers_agree_without_seek:
  assumes "\<forall>fd f. \<exists>r. api_lseek (api env) fd f = Ret (r, f)"
    and "no_seek env rs (replicate BUF_LEN 0)"
  shows "client_handler env rs h = client_handler_simple env rs h"
  using assms by (rule client_handlers_agree)

theorem handlers_agree_without_seek_witness:
  "client_handler (plain_env (plain_api lowest_fd)) [Recv [104, 10]]
       (new_handler \<lparr>content = [97, 10], positions = Map.empty, for_writing = {}\<rparr>) =
     client_handler_simple (plain_env (plain_api lowest_fd)) [Recv [104, 10]]
       (new_handler \<lparr>content = [97, 10], positions = Map.empty, for_writing = {}\<rparr>)"
proof (rule handlers_agree_without_seek)
  show "\<forall>fd f. \<exists>r. api_lseek (api (plain_env (plain_api lowest_fd))) fd f = Ret (r, f)"
    using plain_lseek by simp
  show "no_seek (plain_env (plain_api lowest_fd)) [Recv [104, 10]] (replicate BUF_LEN 0)"
    by (rule no_seek_one) (simp_all add: ioctl_cmd_def bytes_of_def)
qed

subsection \<open>The file mutex and the send loop\<close>

text \<open>The send loop unlocks the mutex after each read, and the end of the handler once more: a
  session of \<open>aesdsocket.c\<close> on the device that sends its client anything unlocks the file mutex at
  least once while it is free.\<close>

theorem session_unlocks_free_mutex:
  assumes kok: "kernel_ok k" and log: "log_abs k (store h) l"
    and free: "\<not> lock (device (sworld (store h)))" and unl: "fileMutex h = Unlocked"
    and env: "api env = dev_api k oob oobe new_fd" "sends_all env"
    and small: "\<forall>bs \<in> set (chunks rs). length bs \<le> BUF_LEN"
    and data: "no_seek env rs (replicate BUF_LEN 0)"
  shows "\<exists>h'. client_handler env rs h = Some (Ret h') \<and>
    (sent h' = sent h \<or> stray_unlocks h < stray_unlocks h')"
proof -
  have rep: "dev_free k (store h) l" using kok log free by (simp add: dev_free_def)
  from dev.client_handler_effect [OF env rep unl small data] show ?thesis
    by (auto simp: served_def)
qed

theorem session_unlocks_free_mutex_witness:
  "\<exists>h'. client_handler (plain_env example_dev) [Recv [104, 105, 10]] (new_handler two_system)
      = Some (Ret h') \<and> (sent h' = [] \<or> 0 < stray_unlocks h')"
proof -
  have "no_seek (plain_env example_dev) [Recv [104, 105, 10]] (replicate BUF_LEN 0)"
    by (rule no_seek_one) (simp_all add: ioctl_cmd_def bytes_of_def)
  from session_unlocks_free_mutex [OF example_kernel_ok _ _ _ _ _ _ this,
      where h = "new_handler two_system" and l = "([[97, 98, 10], [99, 10]], Some [])"] two_system_log
  show ?thesis by (fastforce simp: BUF_LEN_def)
qed

text \<open>C33: on an open device the send loop of \<open>aesdsocket.c\<close> ends, from every file position and
  whatever \<open>send\<close> and the user copies return, although nothing in it checks the result of
  \<open>send\<close>.\<close>

theorem send_loop_ends_on_device:
  assumes "dev_placed k (store h) (file_fd h) n l" and "fileMutex h \<noteq> Destroyed"
    and "api env = dev_api k oob oobe new_fd"
  shows "\<exists>h'. send_loop env h = Some (Ret h')"
  using dev.send_loop_ends [OF assms(3,1,2)] .

theorem send_loop_ends_on_device_witness:
  "\<exists>h h'. store h = snd (api_open example_dev Read_only two_system) \<and>
    send_loop ((plain_env example_dev)\<lparr>send_r := (\<lambda>_. -1)\<rparr>) h = Some (Ret h')"
proof -
  obtain fd s where o: "api_open example_dev Read_only two_system = (fd, s)"
    by (cases "api_open example_dev Read_only two_system")
  let ?h = "(new_handler s)\<lparr>file_fd := fd\<rparr>"
  have "dev_free example_kernel two_system ([[97, 98, 10], [99, 10]], Some [])"
    using two_system_log example_kernel_ok by (simp add: dev_free_def)
  from dev_open [OF this o]
  have "dev_placed example_kernel (store ?h) (file_fd ?h) 0 ([[97, 98, 10], [99, 10]], Some [])" by simp
  moreover have "fileMutex ?h \<noteq> Destroyed" "api ((plain_env example_dev)\<lparr>send_r := (\<lambda>_. -1)\<rparr>) = example_dev"
    by simp_all
  ultimately obtain h' where "send_loop ((plain_env example_dev)\<lparr>send_r := (\<lambda>_. -1)\<rparr>) ?h = Some (Ret h')"
    using send_loop_ends_on_device by blast
  then show ?thesis using o by (intro exI [of _ ?h] exI [of _ h']) simp
qed

end
