(* ===== verification/Seek_Command.thy ===== *)
theory Seek_Command
  imports Data_File
begin

text \<open>
  The text of a seek command as a client prints it, and how the handler scans it: decimal numbers
  with an optional sign, read back by \<open>sscanf\<close> and stored in the 32-bit fields of \<open>aesd_seekto\<close>.
\<close>

subsection \<open>Printing numbers\<close>

fun decimal :: "nat \<Rightarrow> byte list" where
  "decimal n = (if n < 10 then [of_nat (48 + n)] else decimal (n div 10) @ [of_nat (48 + n mod 10)])"

declare decimal.simps [simp del]

definition print_int :: "int \<Rightarrow> byte list" where
  "print_int i = (if i < 0 then 45 # decimal (nat (- i)) else decimal (nat i))"

definition seek_command :: "int \<Rightarrow> int \<Rightarrow> byte list" where
  "seek_command i j = ioctl_cmd @ [58] @ print_int i @ [44] @ print_int j @ [newline]"

lemma digit_byte: "d < 10 \<Longrightarrow> is_digit (of_nat (48 + d)) \<and> uint (of_nat (48 + d) :: byte) = 48 + int d"
  by (simp add: is_digit_def word_le_nat_alt unat_of_nat uint_nat del: of_nat_add)

lemma decimal_digits: "b \<in> set (decimal n) \<Longrightarrow> is_digit b"
proof (induction n rule: decimal.induct)
  case (1 n)
  show ?case
  proof (cases "n < 10")
    case True
    then show ?thesis using 1(2) digit_byte [of n] by (simp add: decimal.simps [of n] del: of_nat_add)
  next
    case False
    then have "b \<in> set (decimal (n div 10)) \<or> b = of_nat (48 + n mod 10)"
      using 1(2) by (simp add: decimal.simps [of n] del: of_nat_add) blast
    then show ?thesis using 1(1) [OF False] digit_byte [of "n mod 10"] by (auto simp del: of_nat_add)
  qed
qed

lemma digits_value_snoc: "digits_value (ds @ [d]) = 10 * digits_value ds + (uint d - 48)"
  by (simp add: digits_value_def)

lemma decimal_value: "digits_value (decimal n) = int n"
proof (induction n rule: decimal.induct)
  case (1 n)
  show ?case
  proof (cases "n < 10")
    case True
    then show ?thesis using digit_byte [of n]
      by (simp add: decimal.simps [of n] digits_value_def del: of_nat_add)
  next
    case False
    then have "digits_value (decimal n) = 10 * int (n div 10) + int (n mod 10)"
      using 1 digit_byte [of "n mod 10"]
      by (simp add: decimal.simps [of n] digits_value_snoc del: of_nat_add)
    then show ?thesis by presburger
  qed
qed

lemma decimal_not_Nil: "decimal n \<noteq> []"
  by (simp add: decimal.simps [of n])

lemma length_decimal: "n < 10 ^ Suc k \<Longrightarrow> length (decimal n) \<le> Suc k"
proof (induction k arbitrary: n)
  case 0
  then show ?case by (simp add: decimal.simps [of n])
next
  case (Suc k)
  then show ?case using Suc.IH [of "n div 10"] by (simp add: decimal.simps [of n])
qed

subsection \<open>Scanning them back\<close>

lemma scan_digits:
  assumes "rest = [] \<or> \<not> is_digit (hd rest)"
  shows "takeWhile is_digit (decimal n @ rest) = decimal n"
    and "dropWhile is_digit (decimal n @ rest) = rest"
proof -
  have "takeWhile is_digit rest = [] \<and> dropWhile is_digit rest = rest"
    using assms by (cases rest) auto
  then show "takeWhile is_digit (decimal n @ rest) = decimal n"
    and "dropWhile is_digit (decimal n @ rest) = rest"
    using decimal_digits by (simp_all add: takeWhile_append2 dropWhile_append2)
qed

lemma digit_not_special: "is_digit b \<Longrightarrow> \<not> is_space b \<and> b \<noteq> 45 \<and> b \<noteq> 43 \<and> b \<noteq> 0"
  by (auto simp: is_digit_def is_space_def word_le_nat_alt)

lemma scan_int_print:
  assumes rest: "rest = [] \<or> \<not> is_digit (hd rest)"
  shows "scan_int (print_int i @ rest) = Some (i, rest)"
proof (cases "i < 0")
  case True
  have "\<not> is_space 45" by (simp add: is_space_def)
  then show ?thesis using True scan_digits [OF rest, of "nat (- i)"]
    by (simp add: scan_int_def print_int_def decimal_not_Nil decimal_value)
next
  case False
  obtain d ds where d: "decimal (nat i) = d # ds" using decimal_not_Nil by (cases "decimal (nat i)") blast+
  then have "is_digit d" using decimal_digits [of d "nat i"] by simp
  note sp = digit_not_special [OF this]
  then show ?thesis using False scan_digits [OF rest, of "nat i"] decimal_value [of "nat i"]
    by (simp add: scan_int_def print_int_def d)
qed

lemma scan_seek_command:
  assumes "- (2 ^ 31) \<le> i" "i < 2 ^ 31" "- (2 ^ 31) \<le> j" "j < 2 ^ 31"
  shows "scan_seekto ov (seek_command i j) st =
    \<lparr>write_cmd = word_of_int i, write_cmd_offset = word_of_int j\<rparr>"
proof -
  let ?lit = "ioctl_cmd @ [58]"
  have split: "seek_command i j = ?lit @ print_int i @ 44 # print_int j @ [newline]"
    by (simp add: seek_command_def)
  have c: "\<not> is_digit 44" "\<not> is_digit newline" by (simp_all add: is_digit_def)
  have "scan_int (print_int i @ 44 # print_int j @ [newline]) = Some (i, 44 # print_int j @ [newline])"
    "scan_int (print_int j @ [newline]) = Some (j, [newline])"
    using c by (simp_all add: scan_int_print)
  moreover have "take (length ?lit) (seek_command i j) = ?lit"
    "drop (length ?lit) (seek_command i j) = print_int i @ 44 # print_int j @ [newline]"
    unfolding split by simp_all
  ultimately show ?thesis using assms by (simp add: scan_seekto_def int_to_uint32_def)
qed

subsection \<open>The command in the receive buffer\<close>

lemma contains_prefix: "pat \<noteq> [] \<Longrightarrow> contains pat (pat @ xs)"
  by (cases pat) simp_all

lemma seek_command_contains: "contains ioctl_cmd (seek_command i j)"
  unfolding seek_command_def by (rule contains_prefix) (simp add: ioctl_cmd_def bytes_of_def)

lemma print_int_nonzero: "b \<in> set (print_int i) \<Longrightarrow> b \<noteq> 0"
  using decimal_digits digit_not_special by (auto simp: print_int_def split: if_splits)

lemma ioctl_cmd_bytes: "b \<in> set ioctl_cmd \<Longrightarrow> b \<noteq> 0" "length ioctl_cmd = 18"
  by (auto simp: ioctl_cmd_def bytes_of_def)

lemma length_print_int:
  assumes "- (2 ^ 31) \<le> i" "i < 2 ^ 31"
  shows "length (print_int i) \<le> 11"
proof -
  have "length (decimal n) \<le> Suc 9" if "int n \<le> 2 ^ 31" for n
    using that by (intro length_decimal) simp
  from this [of "nat i"] this [of "nat (- i)"] assms show ?thesis by (auto simp: print_int_def)
qed

lemma seek_command_text:
  assumes "- (2 ^ 31) \<le> i" "i < 2 ^ 31" "- (2 ^ 31) \<le> j" "j < 2 ^ 31"
  shows "length (seek_command i j) < 1024"
    and "c_string (seek_command i j @ drop (length (seek_command i j)) (replicate BUF_LEN 0)) behind
      = seek_command i j"
proof -
  show len: "length (seek_command i j) < 1024"
    using length_print_int [OF assms(1,2)] length_print_int [OF assms(3,4)]
    by (simp add: seek_command_def ioctl_cmd_bytes)
  have "b \<in> set (seek_command i j) \<Longrightarrow> b \<noteq> 0" for b
    using print_int_nonzero ioctl_cmd_bytes(1) by (auto simp: seek_command_def)
  then have "takeWhile (\<lambda>b. b \<noteq> 0) (seek_command i j) = seek_command i j" by simp
  then show "c_string (seek_command i j @ drop (length (seek_command i j)) (replicate BUF_LEN 0)) behind
      = seek_command i j"
    using fresh_text [OF len] by simp
qed

end
