(* ===== verification/Server_Program.thy ===== *)
theory Server_Program
  imports Socket_Main
begin

text \<open>
  The socket servers as whole programs: \<open>main\<close> of both, from the arguments to the exit code, and the
  functions of \<^verbatim>\<open>aesdsocket-simple.c\<close>, whose text is that of \<^verbatim>\<open>aesdsocket.c\<close> up to the
  compile-time choice of the data file.
\<close>

subsection \<open>The program\<close>

text \<open>
  The whole program: it ends with an exit code, or waits for the next connection after the rounds
  that happen.
\<close>

datatype main_result = Exits int | Waiting

definition main ::
  "thread_env \<Rightarrow> program \<Rightarrow> net \<Rightarrow> string list \<Rightarrow> iteration list \<Rightarrow> (main_result \<times> proc) outcome option"
where
  "main env prog net argv is =
     (case main_setup net argv initial_proc of
        (Some code, s) \<Rightarrow> Some (Ret (Exits code, s))
      | (None, s) \<Rightarrow>
          tbind (main_loop env prog is s) (\<lambda>(left, s). Some (Ret (if left then Exits 0 else Waiting, s))))"

subsection \<open>After a signal\<close>

lemma remove_loop_isError:
  "remove_loop env which c p s = Some r \<Longrightarrow> \<forall>s'. r = Ret s' \<longrightarrow> isError s' = isError s"
proof (induction env which c p s r rule: remove_loop.raw_induct [rotated, consumes 1, case_names step])
  case (step loop env which c p s r)
  show ?case
  proof (intro allI impI)
    fix s' assume r: "r = Ret s'"
    have rem: "remove_current env p c n t s = Ret x \<Longrightarrow> isError (snd x) = isError s" for n t x
      by (cases x) (auto simp: remove_current_def pthread_join_def unlink_def set_next_def link_of_def
          free_node_def obind_Ret_iff split: if_splits option.splits)
    show "isError s' = isError s"
      using step r by (auto split: if_splits option.splits outcome.splits dest!: rem)
  qed
qed

lemma removeCompletedThreads_isError:
  "removeCompletedThreads env s = Some (Ret s') \<Longrightarrow> isError s' = isError s"
  by (auto simp: removeCompletedThreads_def lock_list_def unlock_list_def obind_Ret_iff
      split: outcome.splits dest!: remove_loop_isError)

lemma start_thread_isError:
  "start_thread env i s = Some (Ret s') \<Longrightarrow> isError s' = isError s"
  by (auto simp: start_thread_def insertNode_def lock_list_def unlock_list_def set_next_def Let_def
      obind_Ret_iff split: outcome.splits if_splits option.splits)

lemma destroy_mutex_Ret: "destroy_mutex m = Ret d \<Longrightarrow> d = Destroyed"
  by (cases m) simp_all

lemma do_shutdown_destroys:
  "do_shutdown env u s = Some (Ret s') \<Longrightarrow> listMutex s' = Destroyed"
  by (auto simp: do_shutdown_def finish_shutdown_def obind_Ret_iff Let_def split: outcome.splits
      dest: destroy_mutex_Ret)

lemma destroyed_stops:
  assumes "listMutex s = Destroyed"
  shows "do_shutdown env u s = Some Undef" "removeCompletedThreads env s = Some Undef"
    "insertNode env d s = Some Undef"
  using assms by (simp_all add: do_shutdown_def removeCompletedThreads_def insertNode_def lock_list_def Let_def)

lemma destroyed_round:
  assumes "listMutex s = Destroyed"
  shows "tbind (start_thread env i s) (\<lambda>s. removeCompletedThreads env (mark_complete (completed i) s))
     = Some Undef"
  using assms destroyed_stops by (simp add: start_thread_def Let_def mark_complete_def split: option.splits)

lemma accept_round_error:
  assumes res: "accept_round env prog i s = Some (Ret s')" and ok: "\<not> isError s"
  shows "isError s' \<longrightarrow> listMutex s' = Destroyed"
proof (cases "signalled i")
  case True
  then obtain s1 where s1: "do_shutdown env (use_char_device prog) (s\<lparr>isError := True\<rparr>) = Some (Ret s1)"
    and rest: "(if accepted_fd i = -1 then Some (Ret s1) else
      tbind (start_thread env i s1) (\<lambda>s. removeCompletedThreads env (mark_complete (completed i) s)))
      = Some (Ret s')"
    using res by (auto simp: accept_round_def signal_handler_def tbind_Ret_iff simp del: tbind.simps)
  note d = do_shutdown_destroys [OF s1]
  then show ?thesis using rest destroyed_round [OF d] by (auto split: if_splits)
next
  case False
  then have "\<not> isError s'"
    using res ok by (auto simp: accept_round_def tbind_Ret_iff mark_complete_def split: if_splits
        dest!: start_thread_isError removeCompletedThreads_isError)
  then show ?thesis by simp
qed

lemma main_loop_never_leaves:
  "isError s \<longrightarrow> listMutex s = Destroyed \<Longrightarrow> main_loop env prog is s \<noteq> Some (Ret (True, s'))"
proof (induction "is" arbitrary: s)
  case Nil
  then show ?case by (subst main_loop.simps) (auto simp: destroyed_stops)
next
  case (Cons i "is")
  show ?case
  proof (cases "isError s")
    case True
    then show ?thesis using Cons.prems by (subst main_loop.simps) (simp add: destroyed_stops)
  next
    case False
    then show ?thesis
      using Cons.IH accept_round_error [of env prog i s] by (subst main_loop.simps) (auto simp: tbind_Ret_iff)
  qed
qed

lemma main_setup_ready:
  "main_setup net argv initial_proc = (None, s) \<Longrightarrow> \<not> isError s"
  by (auto simp: main_setup_def initial_proc_def Let_def split: if_splits)

subsection \<open>The functions of the simple server\<close>

definition simple_insertNode :: "thread_env \<Rightarrow> ptr \<Rightarrow> proc \<Rightarrow> proc outcome option" where
  "simple_insertNode = insertNode"

definition simple_removeCompletedThreads :: "thread_env \<Rightarrow> proc \<Rightarrow> proc outcome option" where
  "simple_removeCompletedThreads = removeCompletedThreads"

text \<open>\<open>USE_AESD_CHAR_DEVICE\<close> is commented out: the data file is removed.\<close>

definition simple_do_shutdown :: "thread_env \<Rightarrow> proc \<Rightarrow> proc outcome option" where
  "simple_do_shutdown env = do_shutdown env False"

definition simple_signal_handler :: "thread_env \<Rightarrow> proc \<Rightarrow> proc outcome option" where
  "simple_signal_handler env s = simple_do_shutdown env (s\<lparr>isError := True\<rparr>)"

definition simple_make_Daemon :: "int \<Rightarrow> daemon_result" where
  "simple_make_Daemon = make_Daemon"

text \<open>The accept loop and \<open>main\<close>, over the functions above.\<close>

definition simple_accept_round :: "thread_env \<Rightarrow> iteration \<Rightarrow> proc \<Rightarrow> proc outcome option" where
  "simple_accept_round env i s =
     tbind (if signalled i then simple_signal_handler env s else Some (Ret s)) (\<lambda>s.
     if accepted_fd i = -1 then Some (Ret s)
     else tbind (start_thread env i s) (\<lambda>s.
       simple_removeCompletedThreads env (mark_complete (completed i) s)))"

fun simple_main_loop :: "thread_env \<Rightarrow> iteration list \<Rightarrow> proc \<Rightarrow> (bool \<times> proc) outcome option" where
  "simple_main_loop env is s =
     (if isError s
      then tbind (simple_do_shutdown env s) (\<lambda>s. Some (Ret (True, s)))
      else case is of
        [] \<Rightarrow> Some (Ret (False, s))
      | i # is \<Rightarrow> tbind (simple_accept_round env i s) (simple_main_loop env is))"

declare simple_main_loop.simps [simp del]

definition simple_main ::
  "thread_env \<Rightarrow> net \<Rightarrow> string list \<Rightarrow> iteration list \<Rightarrow> (main_result \<times> proc) outcome option"
where
  "simple_main env net argv is =
     (case main_setup net argv initial_proc of
        (Some code, s) \<Rightarrow> Some (Ret (Exits code, s))
      | (None, s) \<Rightarrow>
          tbind (simple_main_loop env is s) (\<lambda>(left, s). Some (Ret (if left then Exits 0 else Waiting, s))))"

lemma simple_loop_is_loop: "simple_main_loop env is s = main_loop env Aesdsocket_simple is s"
proof (induction "is" arbitrary: s)
  case Nil
  then show ?case
    by (subst simple_main_loop.simps, subst main_loop.simps) (simp add: simple_do_shutdown_def)
next
  case (Cons i "is")
  have "simple_accept_round env i s = accept_round env Aesdsocket_simple i s"
    by (simp add: simple_accept_round_def accept_round_def simple_signal_handler_def signal_handler_def
        simple_do_shutdown_def simple_removeCompletedThreads_def)
  moreover have "simple_main_loop env is = main_loop env Aesdsocket_simple is" using Cons.IH by blast
  ultimately show ?case
    by (subst simple_main_loop.simps, subst main_loop.simps) (simp add: simple_do_shutdown_def)
qed

lemma simple_main_is_main: "simple_main env = main env Aesdsocket_simple"
proof (intro ext)
  fix net argv "is"
  have "simple_main_loop env is = main_loop env Aesdsocket_simple is" by (intro ext simple_loop_is_loop)
  then show "simple_main env net argv is = main env Aesdsocket_simple net argv is"
    by (simp only: simple_main_def main_def)
qed

end
