(* ===== verification/Session_Properties.thy ===== *)
theory Session_Properties
  imports Server_Properties Seek_Command Server_Program Thread_Properties
begin

text \<open>
  The properties of sessions with a seek command on the character device, and of the server as a
  whole program.
\<close>

subsection \<open>The seek command\<close>

text \<open>C28: printing a seek command, scanning it in the handler, passing it to the driver as bytes and
  reading it there gives back the two numbers, as 32-bit words, for all \<open>int\<close> values; a negative
  number becomes a large unsigned one.\<close>

theorem seek_command_roundtrip:
  assumes "- (2 ^ 31) \<le> i" "i < 2 ^ 31" "- (2 ^ 31) \<le> j" "j < 2 ^ 31"
  shows "seekto_of_bytes (seekto_bytes (scan_seekto ov (seek_command i j) st)) =
    \<lparr>write_cmd = word_of_int i, write_cmd_offset = word_of_int j\<rparr>"
  using assms by (simp add: scan_seek_command seekto_roundtrip)

theorem seek_command_roundtrip_witness:
  "seekto_of_bytes (seekto_bytes (scan_seekto (\<lambda>_. 0) (seek_command (- 1) 42)
       \<lparr>write_cmd = 9, write_cmd_offset = 9\<rparr>)) = \<lparr>write_cmd = 4294967295, write_cmd_offset = 42\<rparr>"
  using seek_command_roundtrip [of "- 1" 42 "\<lambda>_. 0" "\<lparr>write_cmd = 9, write_cmd_offset = 9\<rparr>"] by simp





text \<open>A seek command that is not at the end of its message leaves the file mutex locked, so that
  the next message of the same client makes the handler wait for itself, for ever.\<close>

theorem seek_without_newline_deadlocks:
  assumes kok: "kernel_ok k" and log: "log_abs k (store h) l"
    and free: "\<not> lock (device (sworld (store h)))" and unl: "fileMutex h = Unlocked"
    and env: "api env = dev_api k oob oobe new_fd"
    and msg: "contains ioctl_cmd (takeWhile (\<lambda>b. b \<noteq> 0) bs)" "length bs < 1024"
      "last bs \<noteq> newline" "bs' \<noteq> []"
  shows "client_handler env (Recv bs # Recv bs' # rs) h = Some Blocked"
proof -
  have rep: "dev_free k (store h) l" using kok log free by (simp add: dev_free_def)
  have bs: "bs \<noteq> []" using msg(1) by (auto simp: ioctl_cmd_def bytes_of_def)
  let ?text = "takeWhile (\<lambda>b. b \<noteq> 0) bs"
  let ?st = "scan_seekto (scan_overflow env) ?text (seekto0 env)"
  have bufd: "?text = c_string (bs @ drop (length bs) (replicate BUF_LEN 0)) (beyond env)"
    using fresh_text [OF msg(2)] by simp
  obtain fd f where o: "api_open (dev_api k oob oobe new_fd) Read_write (store h) = (fd, f)"
    by (cases "api_open (dev_api k oob oobe new_fd) Read_write (store h)")
  have "dev_opened k f fd l" using dev_open [OF rep o] by (auto simp: dev_placed_def dev_opened_def)
  then obtain r f' where "api_ioctl (dev_api k oob oobe new_fd) fd ?st f = Ret (r, f')"
    using dev_ioctl_returns by blast
  then show ?thesis
    using client_handler_seek_blocks [OF unl bs msg(3,4) bufd msg(1) refl] o env by simp
qed

theorem seek_without_newline_deadlocks_witness:
  "client_handler (plain_env example_dev) [Recv ioctl_cmd, Recv [58, 49, 44, 48, 10]] (new_handler two_system)
     = Some Blocked"
proof -
  have "contains ioctl_cmd (takeWhile (\<lambda>b. b \<noteq> 0) ioctl_cmd)" "length ioctl_cmd < 1024" "last ioctl_cmd \<noteq> newline"
    by (simp_all add: ioctl_cmd_def bytes_of_def)
  from seek_without_newline_deadlocks [OF example_kernel_ok _ _ _ _ this,
      where h = "new_handler two_system" and bs' = "[58, 49, 44, 48, 10]"] two_system_log
  show ?thesis by simp
qed

subsection \<open>The program\<close>

text \<open>The servers exit with code 1 exactly when one of the four socket calls of the setup fails,
  and with no other code; in particular \<open>main\<close> never comes to its \<open>return 0\<close>, in either program.\<close>

theorem main_exit_codes:
  "(\<exists>s. main env prog net argv is = Some (Ret (Exits c, s))) \<longleftrightarrow>
     c = 1 \<and> (socket_r net = -1 \<or> setsockopt_r net = -1 \<or> bind_r net = -1 \<or> listen_r net = -1)"
proof (cases "main_setup net argv initial_proc")
  case (Pair code s)
  have codes: "code = (if socket_r net = -1 \<or> setsockopt_r net = -1 \<or> bind_r net = -1 \<or> listen_r net = -1
      then Some 1 else None)"
    using Pair by (auto simp: main_setup_def Let_def split: if_splits)
  show ?thesis
  proof (cases code)
    case None
    then have "isError s \<longrightarrow> listMutex s = Destroyed" using Pair main_setup_ready by blast
    then have "main_loop env prog is s \<noteq> Some (Ret (True, s'))" for s' by (rule main_loop_never_leaves)
    then have "main env prog net argv is \<noteq> Some (Ret (Exits c, s'))" for s'
      using Pair None by (auto simp: main_def tbind_Ret_iff)
    then show ?thesis using codes None by (auto split: if_splits)
  next
    case (Some d)
    then show ?thesis using Pair codes by (auto simp: main_def split: if_splits)
  qed
qed

end
