(* ===== verification/System_Calls.thy ===== *)
theory System_Calls
  imports Prelude
begin

text \<open>
  \<^verbatim>\<open>examples/systemcalls/systemcalls.c\<close>: running a command through \<open>system\<close>, and through \<open>fork\<close>,
  \<open>execv\<close> and \<open>waitpid\<close>, with and without redirected output. After \<open>fork\<close> two processes run the
  same function: the functions take what \<open>fork\<close> returns in the process they model, and say how that
  process leaves them. A table of open descriptors is passed along.
\<close>

subsection \<open>The operating system\<close>

type_synonym fds = "int \<Rightarrow> string option"

text \<open>
  What the calls return: \<open>execv_r\<close> is \<open>None\<close> when the process image is replaced; \<open>wait_r\<close> holds the
  result of \<open>waitpid\<close> and the status it stores.
\<close>

record os =
  system_r :: "string option \<Rightarrow> int"
  execv_r :: "string option \<Rightarrow> string option list \<Rightarrow> int option"
  open_r :: "string \<Rightarrow> int"
  dup2_r :: int
  wait_r :: "int \<times> 32 word"

datatype run =
  Returns bool
| Exits int
| Aborts
| Runs "string option" "string option list"

text \<open>The macros of \<^verbatim>\<open>sys/wait.h\<close>.\<close>

definition WIFEXITED :: "32 word \<Rightarrow> bool" where
  "WIFEXITED status \<longleftrightarrow> take_bit 7 status = 0"

definition WEXITSTATUS :: "32 word \<Rightarrow> 32 word" where
  "WEXITSTATUS status = take_bit 8 (drop_bit 8 status)"

text \<open>The status \<open>waitpid\<close> reports for a process that exits with a code.\<close>

definition exit_status :: "int \<Rightarrow> 32 word" where
  "exit_status code = push_bit 8 (take_bit 8 (word_of_int code))"

subsection \<open>The functions\<close>

definition do_system :: "os \<Rightarrow> string option \<Rightarrow> bool" where
  "do_system os cmd = (let callreturn = system_r os cmd in if callreturn < 0 then False else True)"

text \<open>
  The argument vector: \<open>count\<close> arguments and a null pointer. Reading an argument that was not passed
  is undefined, and so is an array of no positive length.
\<close>

fun collect_args :: "nat \<Rightarrow> string list \<Rightarrow> string option list outcome" where
  "collect_args 0 args = Ret [None]"
| "collect_args (Suc n) [] = Undef"
| "collect_args (Suc n) (a # args) = obind (collect_args n args) (\<lambda>command. Ret (Some a # command))"

definition build_command :: "int \<Rightarrow> string list \<Rightarrow> string option list outcome" where
  "build_command count args = (if count < 0 then Undef else collect_args (nat count) args)"

definition wait_branch :: "os \<Rightarrow> run" where
  "wait_branch os =
     (let (wret, wstatus) = wait_r os in
      if wret < 0 then Returns False
      else if WIFEXITED wstatus \<and> WEXITSTATUS wstatus \<noteq> 0 then Returns False
      else Returns (wstatus = 0))"

definition exec_fork :: "os \<Rightarrow> string option list \<Rightarrow> int \<Rightarrow> run" where
  "exec_fork os command kidpid =
     (if kidpid = -1 then Returns False
      else if kidpid = 0
      then (case execv_r os (command ! 0) command of
              None \<Rightarrow> Runs (command ! 0) command
            | Some callret \<Rightarrow> if callret < 0 then Exits 1 else wait_branch os)
      else wait_branch os)"

definition do_exec :: "os \<Rightarrow> int \<Rightarrow> string list \<Rightarrow> int \<Rightarrow> run outcome" where
  "do_exec os count args kidpid =
     obind (build_command count args) (\<lambda>command. Ret (exec_fork os command kidpid))"

text \<open>
  With redirection: the child that cannot execute the command returns, where \<open>do_exec\<close> exits; the
  calls of \<open>close\<close> in the parent stand behind a \<open>return\<close>.
\<close>

definition redirect_fork :: "os \<Rightarrow> string \<Rightarrow> string option list \<Rightarrow> int \<Rightarrow> int \<Rightarrow> fds \<Rightarrow> run \<times> fds" where
  "redirect_fork os outputfile command fd kidpid f =
     (if kidpid = -1 then (Returns False, f)
      else if kidpid = 0
      then if dup2_r os < 0 then (Aborts, f)
           else let f = f(1 \<mapsto> outputfile) in
             (case execv_r os (command ! 0) command of
                None \<Rightarrow> (Runs (command ! 0) command, f)
              | Some callret \<Rightarrow> if callret < 0 then (Returns False, f)
                                else (wait_branch os, f(fd := None)))
      else (wait_branch os, f))"

definition do_exec_redirect ::
  "os \<Rightarrow> string \<Rightarrow> int \<Rightarrow> string list \<Rightarrow> int \<Rightarrow> fds \<Rightarrow> (run \<times> fds) outcome"
where
  "do_exec_redirect os outputfile count args kidpid f =
     obind (build_command count args) (\<lambda>command.
       let fd = open_r os outputfile in
       if fd < 0 then Ret (Aborts, f)
       else Ret (redirect_fork os outputfile command fd kidpid (f(fd \<mapsto> outputfile))))"

subsection \<open>Parent and child together\<close>

text \<open>
  The status the child leaves for its parent: that of the program it runs, or of its exit; a child
  that returns to the caller, as the one of \<open>do_exec_redirect\<close> does, leaves what the caller ends
  with.
\<close>

fun child_status :: "(string option list \<Rightarrow> 32 word) \<Rightarrow> 32 word \<Rightarrow> run \<Rightarrow> 32 word" where
  "child_status prog caller (Runs path command) = prog command"
| "child_status prog caller (Exits code) = exit_status code"
| "child_status prog caller (Returns b) = caller"
| "child_status prog caller Aborts = 6"

definition command_line :: "string list \<Rightarrow> string option list" where
  "command_line args = map Some args @ [None]"

lemma collect_args_all: "collect_args (length args) args = Ret (command_line args)"
  by (induction args) (simp_all add: command_line_def)

lemma build_command_all: "build_command (int (length args)) args = Ret (command_line args)"
  by (simp add: build_command_def collect_args_all)

lemma collect_args_short: "length args < n \<Longrightarrow> collect_args n args = Undef"
proof (induction args arbitrary: n)
  case Nil
  then show ?case by (cases n) simp_all
next
  case (Cons a args)
  then show ?case by (cases n) simp_all
qed

lemma exit_status_1: "exit_status 1 = 256" "WIFEXITED 256" "WEXITSTATUS 256 = 1"
  by (simp_all add: exit_status_def WIFEXITED_def WEXITSTATUS_def)

lemma exit_status_sint:
  assumes "0 \<le> c" "c < 256"
  shows "sint (exit_status c) = 256 * c"
proof -
  have "(take_bit 8 (word_of_int c) :: 32 word) = word_of_int c"
    using assms by (simp only: take_bit_of_int) (simp add: take_bit_int_eq_self)
  then have "exit_status c = word_of_int (256 * c)"
    by (simp add: exit_status_def push_bit_eq_mult mult.commute)
  moreover have "sint (word_of_int (256 * c) :: 32 word) = 256 * c"
    using assms by (simp add: signed_of_int signed_take_bit_int_eq_self del: of_int_mult)
  ultimately show ?thesis by (simp del: of_int_mult)
qed

end
