(* ===== verification/System_Properties.thy ===== *)
theory System_Properties
  imports System_Calls
begin

text \<open>The properties of the functions that run commands.\<close>

text \<open>C26: \<open>do_exec\<close>, called with a command line and its length: when \<open>fork\<close> and \<open>waitpid\<close> succeed,
  the parent returns, and it returns true exactly when the child could execute the command and
  the program ended by itself with exit code 0; a program that cannot be executed, that exits with
  another code or that is killed makes it return false.\<close>

theorem do_exec_true_iff:
  assumes child: "do_exec os (int (length args)) args 0 = Ret c"
    and exec: "\<forall>p a r. execv_r os p a = Some r \<longrightarrow> r < 0"
    and pid: "kidpid > 0" and wait: "wait_r os = (kidpid, child_status prog caller c)"
  shows "do_exec os (int (length args)) args kidpid =
    Ret (Returns (execv_r os (hd (command_line args)) (command_line args) = None \<and>
      prog (command_line args) = 0))"
proof -
  have ne: "command_line args \<noteq> []" by (simp add: command_line_def)
  have c: "c = (case execv_r os (hd (command_line args)) (command_line args) of
      None \<Rightarrow> Runs (hd (command_line args)) (command_line args) | Some r \<Rightarrow> Exits 1)"
    using child exec ne by (auto simp: do_exec_def build_command_all exec_fork_def hd_conv_nth
        split: option.splits)
  have zero: "WIFEXITED 0" "WEXITSTATUS 0 = 0" by (simp_all add: WIFEXITED_def WEXITSTATUS_def)
  show ?thesis using pid wait zero
    by (cases "execv_r os (hd (command_line args)) (command_line args)")
      (auto simp: do_exec_def build_command_all exec_fork_def wait_branch_def c exit_status_1)
qed

definition true_os :: os where
  "true_os = \<lparr>system_r = (\<lambda>_. 256), execv_r = (\<lambda>_ _. None), open_r = (\<lambda>_. 3), dup2_r = 1,
     wait_r = (7, 0)\<rparr>"

theorem do_exec_true_iff_witness:
  "do_exec true_os (int (length [''/bin/true''])) [''/bin/true''] 7 = Ret (Returns True)"
proof -
  have "do_exec true_os (int (length [''/bin/true''])) [''/bin/true''] 0 =
    Ret (Runs (Some ''/bin/true'') [Some ''/bin/true'', None])"
    unfolding do_exec_def build_command_all by (simp add: command_line_def exec_fork_def true_os_def)
  from do_exec_true_iff [OF this, of 7 "\<lambda>_. 0" 0] show ?thesis by (simp add: true_os_def)
qed

text \<open>\<open>do_exec_redirect\<close> on every path: the program runs with its standard output going to the
  file, and the parent's result is that of \<open>do_exec\<close>; whichever process returns to the caller, it
  still has the descriptor of the file open.\<close>

theorem redirect_runs_with_output:
  assumes fd: "open_r os file = fd" "0 \<le> fd" and dup: "0 \<le> dup2_r os"
    and run: "do_exec os (int (length args)) args kidpid = Ret r"
    and exec: "\<forall>p a. execv_r os p a = None \<or> execv_r os p a = Some (- 1)"
  shows "\<exists>r' f'. do_exec_redirect os file (int (length args)) args kidpid f = Ret (r', f') \<and>
    f' fd = Some file \<and> (kidpid \<noteq> 0 \<longrightarrow> r' = r) \<and>
    (kidpid = 0 \<longrightarrow> f' 1 = Some file \<and> r' = (if r = Exits 1 then Returns False else r))"
proof -
  let ?c = "command_line args"
  have r: "r = exec_fork os ?c kidpid" using run by (simp add: do_exec_def build_command_all)
  have ex: "execv_r os (?c ! 0) ?c = None \<or> execv_r os (?c ! 0) ?c = Some (- 1)" using exec by blast
  show ?thesis
    using fd dup ex by (auto simp: do_exec_redirect_def build_command_all Let_def redirect_fork_def
        exec_fork_def r split: option.splits)
qed

theorem redirect_runs_with_output_witness:
  "\<exists>r' f'. do_exec_redirect true_os ''out.txt'' (int (length [''/bin/true''])) [''/bin/true''] 0 Map.empty
      = Ret (r', f') \<and> f' 1 = Some ''out.txt''"
proof -
  have run: "do_exec true_os (int (length [''/bin/true''])) [''/bin/true''] 0 =
    Ret (Runs (Some ''/bin/true'') [Some ''/bin/true'', None])"
    unfolding do_exec_def build_command_all by (simp add: command_line_def exec_fork_def true_os_def)
  have os: "open_r true_os ''out.txt'' = 3" "0 \<le> dup2_r true_os" by (simp_all add: true_os_def)
  from redirect_runs_with_output [OF os(1) _ os(2) run, of Map.empty] show ?thesis
    by (auto simp: true_os_def)
qed

text \<open>C38: a command that cannot be executed ends the child of \<open>do_exec\<close>, but lets the child of
  \<open>do_exec_redirect\<close> return false to its caller as well: two processes go on, and the parent waits
  for whatever the caller does in the other one. If that ends with exit code 0, the parent returns
  true.\<close>

theorem failed_redirect_returns_twice:
  assumes fd: "0 \<le> open_r os file" and dup: "0 \<le> dup2_r os"
    and exec: "execv_r os (hd (command_line args)) (command_line args) = Some (- 1)"
    and pid: "kidpid > 0" and wait: "wait_r os = (kidpid, exit_status 0)"
  shows "\<exists>f' f''. do_exec os (int (length args)) args 0 = Ret (Exits 1) \<and>
    do_exec_redirect os file (int (length args)) args 0 f = Ret (Returns False, f') \<and>
    do_exec_redirect os file (int (length args)) args kidpid f = Ret (Returns True, f'')"
proof -
  let ?c = "command_line args"
  have "?c \<noteq> []" by (simp add: command_line_def)
  then have ex: "execv_r os (?c ! 0) ?c = Some (- 1)" using exec by (simp add: hd_conv_nth)
  have "exit_status 0 = 0" by (simp add: exit_status_def)
  then show ?thesis using fd dup pid wait ex
    by (simp add: do_exec_def do_exec_redirect_def build_command_all Let_def redirect_fork_def
        exec_fork_def wait_branch_def WIFEXITED_def WEXITSTATUS_def)
qed

theorem failed_redirect_returns_twice_witness:
  "\<exists>f' f''. do_exec_redirect (true_os\<lparr>execv_r := \<lambda>_ _. Some (- 1)\<rparr>) ''out.txt'' (int (length [''echo'']))
      [''echo''] 0 Map.empty = Ret (Returns False, f') \<and>
    do_exec_redirect (true_os\<lparr>execv_r := \<lambda>_ _. Some (- 1)\<rparr>) ''out.txt'' (int (length [''echo'']))
      [''echo''] 7 Map.empty = Ret (Returns True, f'')"
proof -
  let ?os = "true_os\<lparr>execv_r := \<lambda>_ _. Some (- 1)\<rparr>"
  have "0 \<le> open_r ?os ''out.txt''" "0 \<le> dup2_r ?os" "(7 :: int) > 0" "wait_r ?os = (7, exit_status 0)"
    "execv_r ?os (hd (command_line [''echo''])) (command_line [''echo'']) = Some (- 1)"
    by (simp_all add: true_os_def exit_status_def)
  from failed_redirect_returns_twice [OF this(1,2,5,3,4), of Map.empty] show ?thesis by blast
qed

text \<open>\<open>do_system\<close> returns true for every command that could be run, also when the command exits
  with a non-zero code, which its comment promises to report as false.\<close>

theorem do_system_ignores_exit_code:
  assumes "0 \<le> c" "c < 256" and "system_r os cmd = sint (exit_status c)"
  shows "do_system os cmd = True"
  using assms by (simp add: do_system_def exit_status_sint)

theorem do_system_ignores_exit_code_witness:
  "do_system true_os (Some ''false'') = True"
  using do_system_ignores_exit_code [of 1 true_os "Some ''false''"]
  by (simp add: true_os_def exit_status_1(1))

end
