(* ===== verification/Threading.thy ===== *)
theory Threading
  imports Prelude
begin

text \<open>
  \<^verbatim>\<open>examples/threading/threading.c\<close>: a thread that waits, takes a mutex, waits and gives it back,
  as a step relation between statements, with other threads that take and give back the same mutex
  in between; and the function that starts it, which reads the record of the thread while the thread
  may already run.
\<close>

subsection \<open>The thread\<close>

text \<open>The fields of type \<open>int\<close> have 32 bits; \<open>usleep\<close> takes them as unsigned microseconds.\<close>

record thread_data =
  p_mutex :: ptr
  wait_time :: "32 word"
  release_time :: "32 word"
  thread_complete_success :: bool

datatype owner = Free | This_thread | Other_thread

datatype pc = Entry | Waiting | Locking | Got | Holding | Unlocking | Finished

datatype action = Slept nat | Took_mutex | Gave_mutex

record thread =
  pc :: pc
  data :: thread_data
  owner :: owner
  actions :: "action list"

text \<open>
  The statements of \<open>threadfunc\<close>. \<open>pthread_mutex_lock\<close> and \<open>pthread_mutex_unlock\<close> may fail, with
  an error code, without taking or giving back the mutex.
\<close>

inductive threadfunc :: "thread \<Rightarrow> thread \<Rightarrow> bool" where
  clear: "pc t = Entry \<Longrightarrow>
    threadfunc t (t\<lparr>data := (data t)\<lparr>thread_complete_success := False\<rparr>, pc := Waiting\<rparr>)"
| wait: "pc t = Waiting \<Longrightarrow>
    threadfunc t (t\<lparr>actions := actions t @ [Slept (unat (wait_time (data t)))], pc := Locking\<rparr>)"
| lock: "pc t = Locking \<Longrightarrow> owner t = Free \<Longrightarrow>
    threadfunc t (t\<lparr>owner := This_thread, actions := actions t @ [Took_mutex], pc := Got\<rparr>)"
| lock_fails: "pc t = Locking \<Longrightarrow> threadfunc t (t\<lparr>pc := Finished\<rparr>)"
| success: "pc t = Got \<Longrightarrow>
    threadfunc t (t\<lparr>data := (data t)\<lparr>thread_complete_success := True\<rparr>, pc := Holding\<rparr>)"
| hold: "pc t = Holding \<Longrightarrow>
    threadfunc t (t\<lparr>actions := actions t @ [Slept (unat (release_time (data t)))], pc := Unlocking\<rparr>)"
| unlock: "pc t = Unlocking \<Longrightarrow>
    threadfunc t (t\<lparr>owner := Free, actions := actions t @ [Gave_mutex], pc := Finished\<rparr>)"
| unlock_fails: "pc t = Unlocking \<Longrightarrow>
    threadfunc t (t\<lparr>data := (data t)\<lparr>thread_complete_success := False\<rparr>, pc := Finished\<rparr>)"

text \<open>A step of the thread, or of another one that uses the mutex.\<close>

inductive step :: "thread \<Rightarrow> thread \<Rightarrow> bool" where
  own: "threadfunc t t' \<Longrightarrow> step t t'"
| other_locks: "owner t = Free \<Longrightarrow> step t (t\<lparr>owner := Other_thread\<rparr>)"
| other_unlocks: "owner t = Other_thread \<Longrightarrow> step t (t\<lparr>owner := Free\<rparr>)"

declare threadfunc.intros [intro] step.intros [intro]

inductive_cases threadfuncE [elim!]: "threadfunc t t'"
inductive_cases stepE [elim!]: "step t t'"

definition started :: "thread_data \<Rightarrow> owner \<Rightarrow> thread" where
  "started d m = \<lparr>pc = Entry, data = d, owner = m, actions = []\<rparr>"

subsection \<open>Starting a thread\<close>

definition new_data :: "ptr \<Rightarrow> 32 word \<Rightarrow> 32 word \<Rightarrow> thread_data" where
  "new_data mutex wait_to_obtain_ms wait_to_release_ms =
     \<lparr>p_mutex = mutex, wait_time = wait_to_obtain_ms, release_time = wait_to_release_ms,
      thread_complete_success = True\<rparr>"

text \<open>
  The result is the flag of the record as it is when \<open>pthread_create\<close> has returned \<open>rc\<close>: if the
  thread exists, it may have made any number of steps by then. That \<open>malloc\<close> has given the record is
  taken for granted, as in the code.
\<close>

inductive start_thread_obtaining_mutex ::
  "ptr \<Rightarrow> owner \<Rightarrow> 32 word \<Rightarrow> 32 word \<Rightarrow> int \<Rightarrow> bool \<Rightarrow> bool"
for mutex m wait_to_obtain_ms wait_to_release_ms rc where
  not_created: "rc \<noteq> 0 \<Longrightarrow> d = new_data mutex wait_to_obtain_ms wait_to_release_ms \<Longrightarrow>
    start_thread_obtaining_mutex mutex m wait_to_obtain_ms wait_to_release_ms rc
      (thread_complete_success d)"
| created: "rc = 0 \<Longrightarrow> d = new_data mutex wait_to_obtain_ms wait_to_release_ms \<Longrightarrow>
    step\<^sup>*\<^sup>* (started d m) t \<Longrightarrow>
    start_thread_obtaining_mutex mutex m wait_to_obtain_ms wait_to_release_ms rc
      (thread_complete_success (data t))"

subsection \<open>The invariant of the thread\<close>

definition steps_done :: "thread_data \<Rightarrow> pc \<Rightarrow> action list" where
  "steps_done d p =
     (case p of
        Entry \<Rightarrow> []
      | Waiting \<Rightarrow> []
      | Locking \<Rightarrow> [Slept (unat (wait_time d))]
      | Got \<Rightarrow> [Slept (unat (wait_time d)), Took_mutex]
      | Holding \<Rightarrow> [Slept (unat (wait_time d)), Took_mutex]
      | Unlocking \<Rightarrow> [Slept (unat (wait_time d)), Took_mutex, Slept (unat (release_time d))]
      | Finished \<Rightarrow>
          [Slept (unat (wait_time d)), Took_mutex, Slept (unat (release_time d)), Gave_mutex])"

definition thread_inv :: "thread_data \<Rightarrow> thread \<Rightarrow> bool" where
  "thread_inv d t \<longleftrightarrow>
     p_mutex (data t) = p_mutex d \<and> wait_time (data t) = wait_time d \<and>
     release_time (data t) = release_time d \<and>
     (if pc t = Finished
      then (thread_complete_success (data t) \<longrightarrow> actions t = steps_done d Finished \<and> owner t \<noteq> This_thread)
      else actions t = steps_done d (pc t) \<and>
           (thread_complete_success (data t) \<longrightarrow> pc t \<in> {Entry, Holding, Unlocking}) \<and>
           (pc t \<in> {Holding, Unlocking} \<longrightarrow> thread_complete_success (data t)) \<and>
           (owner t = This_thread \<longleftrightarrow> pc t \<in> {Got, Holding, Unlocking}))"

lemma started_inv: "m \<noteq> This_thread \<Longrightarrow> thread_inv d (started d m)"
  by (simp add: thread_inv_def started_def steps_done_def)

lemma threadfunc_inv: "threadfunc t t' \<Longrightarrow> thread_inv d t \<Longrightarrow> thread_inv d t'"
  by (erule threadfunc.cases) (simp_all add: thread_inv_def steps_done_def)

lemma step_inv: "step t t' \<Longrightarrow> thread_inv d t \<Longrightarrow> thread_inv d t'"
proof (induction rule: step.induct)
  case (own t t')
  then show ?case by (rule threadfunc_inv)
next
  case (other_locks t)
  then show ?case by (cases "pc t") (simp_all add: thread_inv_def)
next
  case (other_unlocks t)
  then show ?case by (cases "pc t") (simp_all add: thread_inv_def)
qed

lemma steps_inv: "step\<^sup>*\<^sup>* t t' \<Longrightarrow> thread_inv d t \<Longrightarrow> thread_inv d t'"
  by (induction rule: rtranclp_induct) (auto intro: step_inv)

subsection \<open>A complete run\<close>

lemma first_step: "step\<^sup>*\<^sup>* (started d m) ((started d m)\<lparr>data := d\<lparr>thread_complete_success := False\<rparr>, pc := Waiting\<rparr>)"
proof -
  have "threadfunc (started d m) ((started d m)\<lparr>data := (data (started d m))\<lparr>thread_complete_success := False\<rparr>,
      pc := Waiting\<rparr>)"
    by (rule threadfunc.clear) (simp add: started_def)
  moreover have "data (started d m) = d" by (simp add: started_def)
  ultimately show ?thesis by (metis r_into_rtranclp step.own)
qed

lemma run_to_end:
  assumes "pc t = Waiting" and "owner t = Free"
  shows "\<exists>t'. step\<^sup>*\<^sup>* t t' \<and> pc t' = Finished \<and> thread_complete_success (data t')"
proof -
  let ?t1 = "t\<lparr>actions := actions t @ [Slept (unat (wait_time (data t)))], pc := Locking\<rparr>"
  let ?t2 = "?t1\<lparr>owner := This_thread, actions := actions ?t1 @ [Took_mutex], pc := Got\<rparr>"
  let ?t3 = "?t2\<lparr>data := (data ?t2)\<lparr>thread_complete_success := True\<rparr>, pc := Holding\<rparr>"
  let ?t4 = "?t3\<lparr>actions := actions ?t3 @ [Slept (unat (release_time (data ?t3)))], pc := Unlocking\<rparr>"
  let ?t5 = "?t4\<lparr>owner := Free, actions := actions ?t4 @ [Gave_mutex], pc := Finished\<rparr>"
  have "step t ?t1" using assms by (intro step.own threadfunc.wait)
  moreover have "step ?t1 ?t2" using assms by (intro step.own threadfunc.lock) simp_all
  moreover have "step ?t2 ?t3" by (intro step.own threadfunc.success) simp
  moreover have "step ?t3 ?t4" by (intro step.own threadfunc.hold) simp
  moreover have "step ?t4 ?t5" by (intro step.own threadfunc.unlock) simp
  ultimately have "step\<^sup>*\<^sup>* t ?t5" by (meson converse_rtranclp_into_rtranclp rtranclp.rtrancl_refl)
  then show ?thesis by (intro exI [of _ ?t5]) simp
qed

subsection \<open>Properties\<close>

text \<open>C34: a thread that ends with its flag set has slept for its first time, then taken the mutex,
  slept for its second time and given the mutex back, whatever other threads do with the mutex in
  between, and it does not hold the mutex any more. The times are microseconds, although the
  parameters of \<open>start_thread_obtaining_mutex\<close> are documented as milliseconds.\<close>

theorem successful_thread_held_mutex:
  assumes "step\<^sup>*\<^sup>* (started (new_data mutex wait_ms release_ms) m) t" and "m \<noteq> This_thread"
    and "pc t = Finished" and "thread_complete_success (data t)"
  shows "actions t = [Slept (unat wait_ms), Took_mutex, Slept (unat release_ms), Gave_mutex] \<and>
    owner t \<noteq> This_thread"
proof -
  have "thread_inv (new_data mutex wait_ms release_ms) t"
    by (rule steps_inv [OF assms(1) started_inv [OF assms(2)]])
  then show ?thesis using assms(3,4) by (simp add: thread_inv_def steps_done_def new_data_def)
qed

theorem successful_thread_held_mutex_witness:
  "\<exists>t. step\<^sup>*\<^sup>* (started (new_data 64 100 200) Free) t \<and>
     actions t = [Slept 100, Took_mutex, Slept 200, Gave_mutex]"
proof -
  let ?d = "new_data 64 100 200"
  let ?t = "(started ?d Free)\<lparr>data := ?d\<lparr>thread_complete_success := False\<rparr>, pc := Waiting\<rparr>"
  obtain t where "step\<^sup>*\<^sup>* ?t t" "pc t = Finished" "thread_complete_success (data t)"
    using run_to_end [of ?t] by (auto simp: started_def)
  moreover from this(1) have "step\<^sup>*\<^sup>* (started ?d Free) t" using first_step by (rule rtranclp_trans [rotated])
  ultimately show ?thesis using successful_thread_held_mutex [of 64 100 200 Free t] by auto
qed

text \<open>The result of \<open>start_thread_obtaining_mutex\<close> says nothing about success: when
  \<open>pthread_create\<close> fails it is always true, and when the thread is created it may be false although
  the thread then runs to a successful end.\<close>

theorem start_result_says_nothing:
  "(start_thread_obtaining_mutex mutex m w r 11 b \<longleftrightarrow> b) \<and>
   start_thread_obtaining_mutex mutex Free w r 0 True \<and>
   start_thread_obtaining_mutex mutex Free w r 0 False \<and>
   (\<exists>t t'. step\<^sup>*\<^sup>* (started (new_data mutex w r) Free) t \<and> \<not> thread_complete_success (data t) \<and>
      step\<^sup>*\<^sup>* t t' \<and> pc t' = Finished \<and> thread_complete_success (data t'))"
proof -
  let ?d = "new_data mutex w r"
  let ?t = "(started ?d Free)\<lparr>data := ?d\<lparr>thread_complete_success := False\<rparr>, pc := Waiting\<rparr>"
  have flags: "thread_complete_success ?d" "\<not> thread_complete_success (data ?t)"
    by (simp_all add: new_data_def)
  have "start_thread_obtaining_mutex mutex m w r 11 b \<longleftrightarrow> b"
    using flags(1) by (simp add: start_thread_obtaining_mutex.simps)
  moreover have "start_thread_obtaining_mutex mutex Free w r 0 (thread_complete_success (data (started ?d Free)))"
    by (rule start_thread_obtaining_mutex.created [OF refl refl]) simp
  then have "start_thread_obtaining_mutex mutex Free w r 0 True"
    using flags(1) by (simp add: started_def)
  moreover have "start_thread_obtaining_mutex mutex Free w r 0 (thread_complete_success
      (data ((started ?d Free)\<lparr>data := ?d\<lparr>thread_complete_success := False\<rparr>, pc := Waiting\<rparr>)))"
    by (rule start_thread_obtaining_mutex.created [OF refl refl first_step])
  then have "start_thread_obtaining_mutex mutex Free w r 0 False" by simp
  moreover obtain t' where "step\<^sup>*\<^sup>* ?t t'" "pc t' = Finished" "thread_complete_success (data t')"
    using run_to_end [of ?t] by (auto simp: started_def)
  ultimately show ?thesis using first_step [of ?d Free] flags(2) by blast
qed

end
