(* ===== verification/Writer.thy ===== *)
theory Writer
  imports Prelude
begin

text \<open>
  The small programs: \<^verbatim>\<open>finder-app/writer.c\<close>, which writes its second argument to the file named
  by its first, and \<^verbatim>\<open>examples/autotest-validate\<close> with its test.
\<close>

subsection \<open>The writer\<close>

text \<open>
  The argument vector ends in a null pointer; \<open>behind\<close> is what lies after it. \<open>openable\<close> says which
  files can be opened for writing, \<open>flushed\<close> how many characters reach a file.
\<close>

record writer_env =
  openable :: "string \<Rightarrow> bool"
  flushed :: "string \<Rightarrow> nat"
  behind :: "nat \<Rightarrow> string option"

datatype log_entry = Log_err string | Log_debug string string

definition argv_at :: "writer_env \<Rightarrow> string list \<Rightarrow> nat \<Rightarrow> string option" where
  "argv_at env argv i =
     (if i < length argv then Some (argv ! i) else if i = length argv then None else behind env i)"

type_synonym file_system = "string \<Rightarrow> string option"

definition writer_main ::
  "writer_env \<Rightarrow> string list \<Rightarrow> file_system \<Rightarrow> int \<times> file_system \<times> log_entry list"
where
  "writer_main env argv fs =
     (let writefile = argv_at env argv 1; writestr = argv_at env argv 2 in
      if writefile = None \<or> writestr = None
      then (1, fs, [Log_err ''Incorrect number of inputs''])
      else if \<not> openable env (the writefile)
      then (1, fs, [Log_err ''Error accessing file''])
      else (0, fs(the writefile \<mapsto> take (flushed env (the writefile)) (the writestr)),
            [Log_debug (the writestr) (the writefile)]))"

text \<open>The writer ends with code 0 or 1. With at least two arguments and a file that can be opened
  it ends with 0, and the file holds the second argument, cut off where the medium was full, which
  it does not notice; without two arguments, or when the file cannot be opened, it ends with 1 and
  changes no file. Every other file is left alone.\<close>

theorem writer_writes_file:
  assumes "1 \<le> length argv" and "writer_main env argv fs = (code, fs', log)"
  shows "(code = 0 \<longleftrightarrow> 3 \<le> length argv \<and> openable env (argv ! 1)) \<and> (code = 0 \<or> code = 1 \<and> fs' = fs) \<and>
    (code = 0 \<longrightarrow> fs' = fs(argv ! 1 \<mapsto> take (flushed env (argv ! 1)) (argv ! 2)))"
proof (cases "3 \<le> length argv")
  case True
  then have "argv_at env argv 1 = Some (argv ! 1)" "argv_at env argv 2 = Some (argv ! 2)"
    by (simp_all add: argv_at_def)
  then show ?thesis using True assms(2) by (cases "openable env (argv ! 1)") (auto simp: writer_main_def)
next
  case False
  then have "argv_at env argv 1 = None \<or> argv_at env argv 2 = None"
    using assms(1) by (cases "length argv = 1") (auto simp: argv_at_def)
  then show ?thesis using False assms(2) by (auto simp: writer_main_def)
qed

theorem writer_writes_file_witness:
  "fst (snd (writer_main \<lparr>openable = (\<lambda>_. True), flushed = length, behind = (\<lambda>_. None)\<rparr>
      [''writer'', ''f'', ''x''] Map.empty)) ''f'' = Some ''x''"
proof -
  let ?env = "\<lparr>openable = (\<lambda>_. True), flushed = length, behind = (\<lambda>_. None)\<rparr>"
  obtain c fs l where r: "writer_main ?env [''writer'', ''f'', ''x''] Map.empty = (c, fs, l)"
    by (cases "writer_main ?env [''writer'', ''f'', ''x''] Map.empty")
  from writer_writes_file [OF _ this] show ?thesis by (auto simp: r)
qed

subsection \<open>The functions of the setup test\<close>

definition this_function_returns_true :: bool where
  "this_function_returns_true = True"

definition this_function_returns_false :: bool where
  "this_function_returns_false = False"

definition my_username :: string where
  "my_username = ''lizzyhllrn''"

text \<open>The lines the main program prints.\<close>

definition autotest_main :: "string list" where
  "autotest_main =
     (let shown = (\<lambda>b. if b then ''true'' else ''false'') in
      [''this_function_returns_true returned '' @ shown this_function_returns_true,
       ''this_function_returns_false returned '' @ shown this_function_returns_false])"

text \<open>The test compares the name with the one in the configuration file.\<close>

definition test_validate_my_username :: "string \<Rightarrow> bool" where
  "test_validate_my_username username_from_conf \<longleftrightarrow> username_from_conf = my_username"

lemma autotest_output:
  "autotest_main = [''this_function_returns_true returned true'', ''this_function_returns_false returned false'']"
  by (simp add: autotest_main_def this_function_returns_true_def this_function_returns_false_def)

text \<open>\<^verbatim>\<open>conf/username.txt\<close> holds the same name.\<close>

lemma username_test_passes: "test_validate_my_username ''lizzyhllrn''"
  by (simp add: test_validate_my_username_def my_username_def)

end
