(* ===== verification/Timestamp.thy ===== *)
theory Timestamp
  imports Seek_Command Plain_File
begin

text \<open>
  The timestamp thread of \<^verbatim>\<open>server/aesdsocket.c\<close>: every ten seconds it adds a line with the date to
  the data file. \<open>main\<close> starts it only when the character device is not used. The date is formatted
  into an array of 30 bytes.
\<close>

subsection \<open>The date\<close>

text \<open>
  The broken-down time, with the offset from UTC in minutes, as \<^verbatim>\<open>%z\<close> prints it; years count from
  1900.
\<close>

record tm =
  tm_sec :: nat
  tm_min :: nat
  tm_hour :: nat
  tm_mday :: nat
  tm_mon :: nat
  tm_year :: nat
  tm_wday :: nat
  tm_gmtoff :: int

definition tm_ok :: "tm \<Rightarrow> bool" where
  "tm_ok t \<longleftrightarrow> tm_sec t \<le> 60 \<and> tm_min t \<le> 59 \<and> tm_hour t \<le> 23 \<and> 1 \<le> tm_mday t \<and> tm_mday t \<le> 31 \<and>
     tm_mon t \<le> 11 \<and> tm_wday t \<le> 6 \<and> \<bar>tm_gmtoff t\<bar> < 100 * 60"

definition two_digits :: "nat \<Rightarrow> byte list" where
  "two_digits n = [of_nat (48 + n div 10 mod 10), of_nat (48 + n mod 10)]"

definition weekdays :: "string list" where
  "weekdays = [''Sun'', ''Mon'', ''Tue'', ''Wed'', ''Thu'', ''Fri'', ''Sat'']"

definition months :: "string list" where
  "months = [''Jan'', ''Feb'', ''Mar'', ''Apr'', ''May'', ''Jun'', ''Jul'', ''Aug'', ''Sep'', ''Oct'', ''Nov'', ''Dec'']"

text \<open>What the format \<^verbatim>\<open>%a, %d %b %Y %H:%M:%S %z\<close> gives in the C locale.\<close>

definition date_text :: "tm \<Rightarrow> byte list" where
  "date_text t =
     bytes_of (weekdays ! tm_wday t) @ [44, 32] @ two_digits (tm_mday t) @ [32] @
     bytes_of (months ! tm_mon t) @ [32] @ decimal (1900 + tm_year t) @ [32] @
     two_digits (tm_hour t) @ [58] @ two_digits (tm_min t) @ [58] @ two_digits (tm_sec t) @ [32] @
     [if tm_gmtoff t < 0 then 45 else 43] @
     two_digits (nat (\<bar>tm_gmtoff t\<bar> div 60)) @ two_digits (nat (\<bar>tm_gmtoff t\<bar> mod 60))"

text \<open>\<open>strftime\<close> leaves the array undetermined when the text and its final zero do not fit.\<close>

definition strftime :: "nat \<Rightarrow> tm \<Rightarrow> byte list option" where
  "strftime maxsize t = (if length (date_text t) < maxsize then Some (date_text t) else None)"

subsection \<open>The thread\<close>

text \<open>One round: opening, printing and closing under the file mutex. Printing an undetermined array is
  undefined. The list of times is that of the rounds that happen; the loop has no end.\<close>

definition timestamp_round :: "'f client_env \<Rightarrow> tm \<Rightarrow> 'f handler \<Rightarrow> 'f handler outcome" where
  "timestamp_round env timeinfo h =
     obind (lock_file h) (\<lambda>h.
       let (file, f) = api_open (api env) Create_append (store h) in
       if file = -1 then unlock_file (h\<lparr>store := f\<rparr>)
       else (case strftime 30 timeinfo of
               None \<Rightarrow> Undef
             | Some timestamp \<Rightarrow>
                 obind (api_write (api env) file (bytes_of ''timestamp: '' @ timestamp @ [newline]) f)
                   (\<lambda>(r, f). unlock_file (h\<lparr>store := snd (api_close (api env) file f)\<rparr>))))"

fun timestamp :: "'f client_env \<Rightarrow> tm list \<Rightarrow> 'f handler \<Rightarrow> 'f handler outcome" where
  "timestamp env [] h = Ret h"
| "timestamp env (t # ts) h = obind (timestamp_round env t h) (timestamp env ts)"

subsection \<open>The date never fits\<close>

lemma name_lengths:
  "n \<le> 6 \<Longrightarrow> length (weekdays ! n) = 3" "m \<le> 11 \<Longrightarrow> length (months ! m) = 3"
  by (auto simp: weekdays_def months_def le_Suc_eq numeral_eq_Suc)

lemma length_decimal_step: "\<not> n < 10 \<Longrightarrow> length (decimal n) = Suc (length (decimal (n div 10)))"
  by (simp add: decimal.simps [of n])

lemma length_decimal_ge:
  assumes "1000 \<le> n"
  shows "4 \<le> length (decimal n)"
proof -
  have "\<not> n < 10" "\<not> n div 10 < 10" "\<not> n div 10 div 10 < 10" 
    using assms by (simp_all add: not_less less_eq_div_iff_mult_less_eq)
  moreover have "1 \<le> length (decimal (n div 10 div 10 div 10))"
    using decimal_not_Nil [of "n div 10 div 10 div 10"] by (cases "decimal (n div 10 div 10 div 10)") simp_all
  ultimately show ?thesis
    using length_decimal_step [of n] length_decimal_step [of "n div 10"] length_decimal_step [of "n div 10 div 10"]
    by linarith
qed

lemma date_text_length: "tm_ok t \<Longrightarrow> 31 \<le> length (date_text t)"
  using length_decimal_ge [of "1900 + tm_year t"] name_lengths(1) [of "tm_wday t"]
    name_lengths(2) [of "tm_mon t"]
  by (simp add: date_text_def tm_ok_def two_digits_def bytes_of_def)

text \<open>The date has at least 31 characters and never fits into the 30 bytes of the array, so that
  whenever the timestamp thread can open the data file, its first round prints an undetermined
  array.\<close>

theorem timestamp_never_fits:
  assumes "tm_ok t" and "fileMutex h = Unlocked" and "api_open (api env) Create_append (store h) = (fd, f)"
    and "fd \<noteq> -1"
  shows "strftime 30 t = None \<and> timestamp env (t # ts) h = Undef"
proof -
  have "strftime 30 t = None" using date_text_length [OF assms(1)] by (simp add: strftime_def)
  then show ?thesis using assms(2-4) by (simp add: timestamp_round_def lock_file_def)
qed

definition epoch :: tm where
  "epoch = \<lparr>tm_sec = 0, tm_min = 0, tm_hour = 0, tm_mday = 1, tm_mon = 0, tm_year = 70, tm_wday = 4,
     tm_gmtoff = 0\<rparr>"

definition plain_client :: "plain_file client_env" where
  "plain_client = \<lparr>api = plain_api lowest_fd, send_r = (\<lambda>bs. int (length bs)), beyond = [0],
     seekto0 = \<lparr>write_cmd = 0, write_cmd_offset = 0\<rparr>, scan_overflow = (\<lambda>_. 0)\<rparr>"

theorem timestamp_never_fits_witness:
  "timestamp plain_client [epoch] (new_handler \<lparr>content = [], positions = Map.empty, for_writing = {}\<rparr>) = Undef"
proof -
  let ?h = "new_handler \<lparr>content = [], positions = Map.empty, for_writing = {}\<rparr>"
  have "tm_ok epoch" by (simp add: tm_ok_def epoch_def)
  moreover have "fileMutex ?h = Unlocked" by (simp add: new_handler_def)
  moreover obtain f where "api_open (api plain_client) Create_append (store ?h) = (3, f)"
    by (simp add: plain_client_def plain_api_def new_handler_def lowest_fd_def eval_nat_numeral Let_def)
  ultimately show ?thesis using timestamp_never_fits [of epoch ?h plain_client 3 f "[]"] by simp
qed

end
