(* ===== verification/Server_Interleaving.thy ===== *)
theory Server_Interleaving
  imports Plain_File
begin

text \<open>
  Several client handlers of \<^verbatim>\<open>server/aesdsocket.c\<close> at once. A session is one thread between two
  statements of \<open>client_handler\<close>; all sessions share the data file, the global variable \<open>file_fd\<close> and
  the mutex \<open>fileMutex\<close>. A step of the server is a statement of one of the sessions, or a new client.
\<close>

subsection \<open>State\<close>

datatype place =
  Receive
| Seek_lock | Seek_open | Seek_ioctl
| Write_lock | Write_open | Write_data | Write_close | Write_unlock
| Check_newline | After_loop
| Read_lock | Read_open
| Send_lseek | Send_read | Send_unlock | Send_data
| End_close | End_unlock | End_complete | End_socket
| Done

text \<open>
  The local variables of a handler. The field \<open>holds\<close> is no variable of the program: it says that the
  thread has locked the mutex and not unlocked it since.
\<close>

record session =
  place :: place
  inbox :: "recv_result list"
  receive_buffer :: "byte list"
  received :: "byte list"
  ioctl_found :: bool
  seekto :: aesd_seekto
  send_buffer :: "byte list"
  outbox :: "byte list"
  complete :: int
  connected :: bool
  holds :: bool

text \<open>\<open>foreign\<close> counts the unlocks by threads that do not hold the mutex.\<close>

record 'f shared =
  data_store :: 'f
  global_fd :: int
  file_lock :: mutex
  foreign :: nat

record 'f server =
  shared :: "'f shared"
  sessions :: "session list"

subsection \<open>The statements\<close>

definition take_lock :: "place \<Rightarrow> session \<Rightarrow> 'f shared \<Rightarrow> (session \<times> 'f shared) outcome" where
  "take_lock next t s = obind (lock_mutex (file_lock s)) (\<lambda>m.
     Ret (t\<lparr>place := next, holds := True\<rparr>, s\<lparr>file_lock := m\<rparr>))"

definition give_lock :: "place \<Rightarrow> session \<Rightarrow> 'f shared \<Rightarrow> (session \<times> 'f shared) outcome" where
  "give_lock next t s = obind (unlock_mutex (file_lock s)) (\<lambda>m.
     Ret (t\<lparr>place := next, holds := False\<rparr>,
          s\<lparr>file_lock := m, foreign := foreign s + (if holds t then 0 else 1)\<rparr>))"

definition open_data :: "'f client_env \<Rightarrow> open_mode \<Rightarrow> 'f shared \<Rightarrow> 'f shared" where
  "open_data env mode s = (let (fd, f) = api_open (api env) mode (data_store s) in
     s\<lparr>global_fd := fd, data_store := f\<rparr>)"

definition close_data :: "'f client_env \<Rightarrow> 'f shared \<Rightarrow> 'f shared" where
  "close_data env s = s\<lparr>data_store := snd (api_close (api env) (global_fd s) (data_store s))\<rparr>"

definition receive :: "'f client_env \<Rightarrow> session \<Rightarrow> session" where
  "receive env t =
     (case inbox t of
        Recv bs # rs \<Rightarrow>
          if bs = [] then t\<lparr>place := After_loop\<rparr>
          else let buf = bs @ drop (length bs) (receive_buffer t);
                   text = c_string buf (beyond env);
                   found = contains ioctl_cmd text
               in t\<lparr>place := (if found then Seek_lock else Write_lock), inbox := rs,
                    receive_buffer := buf, received := bs, ioctl_found := found,
                    seekto := (if found then scan_seekto (scan_overflow env) text (seekto t) else seekto t)\<rparr>
      | _ \<Rightarrow> t\<lparr>place := After_loop\<rparr>)"

definition session_step ::
  "'f client_env \<Rightarrow> session \<Rightarrow> 'f shared \<Rightarrow> (session \<times> 'f shared) outcome"
where
  "session_step env t s =
     (case place t of
        Receive \<Rightarrow> Ret (receive env t, s)
      | Seek_lock \<Rightarrow> take_lock Seek_open t s
      | Seek_open \<Rightarrow> Ret (t\<lparr>place := Seek_ioctl\<rparr>, open_data env Read_write s)
      | Seek_ioctl \<Rightarrow> obind (api_ioctl (api env) (global_fd s) (seekto t) (data_store s)) (\<lambda>(r, f).
          Ret (t\<lparr>place := Check_newline\<rparr>, s\<lparr>data_store := f\<rparr>))
      | Write_lock \<Rightarrow> take_lock Write_open t s
      | Write_open \<Rightarrow> Ret (t\<lparr>place := Write_data\<rparr>, open_data env Create_append s)
      | Write_data \<Rightarrow> obind (api_write (api env) (global_fd s) (received t) (data_store s)) (\<lambda>(r, f).
          Ret (t\<lparr>place := Write_close\<rparr>, s\<lparr>data_store := f\<rparr>))
      | Write_close \<Rightarrow> Ret (t\<lparr>place := Write_unlock\<rparr>, close_data env s)
      | Write_unlock \<Rightarrow> give_lock Check_newline t s
      | Check_newline \<Rightarrow> Ret (t\<lparr>place := (if last (received t) = newline then After_loop else Receive)\<rparr>, s)
      | After_loop \<Rightarrow> Ret (t\<lparr>place := (if ioctl_found t then Send_lseek else Read_lock)\<rparr>, s)
      | Read_lock \<Rightarrow> take_lock Read_open t s
      | Read_open \<Rightarrow> Ret (t\<lparr>place := Send_lseek\<rparr>, open_data env Read_only s)
      | Send_lseek \<Rightarrow> obind (api_lseek (api env) (global_fd s) (data_store s)) (\<lambda>(r, f).
          Ret (t\<lparr>place := Send_read\<rparr>, s\<lparr>data_store := f\<rparr>))
      | Send_read \<Rightarrow> obind (api_read (api env) (global_fd s) BUF_LEN (data_store s)) (\<lambda>(r, bs, f).
          Ret (if r = -1 \<or> r = 0 then t\<lparr>place := End_close\<rparr>
               else t\<lparr>place := Send_unlock, send_buffer := bs\<rparr>, s\<lparr>data_store := f\<rparr>))
      | Send_unlock \<Rightarrow> give_lock Send_data t s
      | Send_data \<Rightarrow> Ret (t\<lparr>place := Send_lseek,
            outbox := outbox t @ take (nat (send_r env (send_buffer t))) (send_buffer t)\<rparr>, s)
      | End_close \<Rightarrow> Ret (t\<lparr>place := End_unlock\<rparr>, close_data env s)
      | End_unlock \<Rightarrow> give_lock End_complete t s
      | End_complete \<Rightarrow> Ret (t\<lparr>place := End_socket, complete := 1\<rparr>, s)
      | End_socket \<Rightarrow> Ret (t\<lparr>place := Done, connected := False\<rparr>, s)
      | Done \<Rightarrow> Blocked)"

subsection \<open>The server\<close>

definition new_session :: "'f client_env \<Rightarrow> recv_result list \<Rightarrow> session" where
  "new_session env rs = \<lparr>place = Receive, inbox = rs, receive_buffer = replicate BUF_LEN 0, received = [],
     ioctl_found = False, seekto = seekto0 env, send_buffer = replicate BUF_LEN 0, outbox = [],
     complete = 0, connected = True, holds = False\<rparr>"

inductive server_step :: "'f client_env \<Rightarrow> 'f server \<Rightarrow> 'f server \<Rightarrow> bool" for env where
  statement: "i < length (sessions w) \<Longrightarrow> session_step env (sessions w ! i) (shared w) = Ret (t, s) \<Longrightarrow>
    server_step env w (w\<lparr>shared := s, sessions := (sessions w)[i := t]\<rparr>)"
| new_client: "server_step env w (w\<lparr>sessions := sessions w @ [new_session env rs]\<rparr>)"

definition idle_server :: "'f \<Rightarrow> 'f server" where
  "idle_server f = \<lparr>shared = \<lparr>data_store = f, global_fd = 0, file_lock = Unlocked, foreign = 0\<rparr>, sessions = []\<rparr>"

text \<open>Running a schedule: the numbers of the sessions whose statements come next.\<close>

fun run_schedule :: "'f client_env \<Rightarrow> nat list \<Rightarrow> 'f server \<Rightarrow> 'f server outcome" where
  "run_schedule env [] w = Ret w"
| "run_schedule env (i # is) w =
     (if i < length (sessions w)
      then obind (session_step env (sessions w ! i) (shared w)) (\<lambda>(t, s).
             run_schedule env is (w\<lparr>shared := s, sessions := (sessions w)[i := t]\<rparr>))
      else Blocked)"

lemma run_schedule_steps: "run_schedule env is w = Ret w' \<Longrightarrow> (server_step env)\<^sup>*\<^sup>* w w'"
proof (induction env "is" w arbitrary: w' rule: run_schedule.induct)
  case (2 env i "is" w)
  from "2.prems" obtain t s where i: "i < length (sessions w)"
    and st: "session_step env (sessions w ! i) (shared w) = Ret (t, s)"
    and rest: "run_schedule env is (w\<lparr>shared := s, sessions := (sessions w)[i := t]\<rparr>) = Ret w'"
    by (auto simp: obind_Ret_iff split: if_splits)
  from server_step.statement [OF i st] "2.IH" [OF i rest] show ?case
    by (rule converse_rtranclp_into_rtranclp)
qed simp

subsection \<open>Mutual exclusion\<close>

text \<open>The places between locking and unlocking, before the file is sent back.\<close>

definition guarded :: "place \<Rightarrow> bool" where
  "guarded p \<longleftrightarrow> p \<in> {Seek_open, Seek_ioctl, Write_open, Write_data, Write_close, Write_unlock, Read_open}"

text \<open>At most one session holds the mutex, and then it is locked.\<close>

definition one_holder :: "session list \<Rightarrow> mutex \<Rightarrow> bool" where
  "one_holder ts m \<longleftrightarrow>
     (\<forall>i < length ts. holds (ts ! i) \<longrightarrow> m = Locked \<and> (\<forall>j < length ts. holds (ts ! j) \<longrightarrow> j = i))"

definition lock_inv :: "'f server \<Rightarrow> bool" where
  "lock_inv w \<longleftrightarrow>
     file_lock (shared w) \<noteq> Destroyed \<and>
     (\<forall>t \<in> set (sessions w). guarded (place t) \<longrightarrow> holds t) \<and>
     (foreign (shared w) = 0 \<longrightarrow> one_holder (sessions w) (file_lock (shared w)))"

lemma one_holder_keep:
  "one_holder ts m \<Longrightarrow> i < length ts \<Longrightarrow> holds t = holds (ts ! i) \<Longrightarrow> one_holder (ts[i := t]) m"
  by (auto simp: one_holder_def nth_list_update)

lemma one_holder_take:
  "one_holder ts Unlocked \<Longrightarrow> i < length ts \<Longrightarrow> one_holder (ts[i := t]) Locked"
  by (auto simp: one_holder_def nth_list_update)

lemma one_holder_give:
  "one_holder ts m \<Longrightarrow> i < length ts \<Longrightarrow> holds (ts ! i) \<Longrightarrow> \<not> holds t \<Longrightarrow> one_holder (ts[i := t]) m'"
  by (auto simp: one_holder_def nth_list_update)

text \<open>What one statement does with the mutex.\<close>

definition lock_effect :: "session \<Rightarrow> 'f shared \<Rightarrow> session \<Rightarrow> 'f shared \<Rightarrow> bool" where
  "lock_effect t s t' s' \<longleftrightarrow>
     holds t' = holds t \<and> file_lock s' = file_lock s \<and> foreign s' = foreign s \<or>
     holds t' \<and> file_lock s = Unlocked \<and> file_lock s' = Locked \<and> foreign s' = foreign s \<or>
     \<not> holds t' \<and> file_lock s' = Unlocked \<and> foreign s' = foreign s + (if holds t then 0 else 1)"

lemma take_lock_effect:
  "take_lock p t s = Ret (t', s') \<Longrightarrow> lock_effect t s t' s' \<and> place t' = p \<and> holds t' \<and> file_lock s' = Locked"
  by (cases "file_lock s") (auto simp: take_lock_def lock_effect_def)

lemma give_lock_effect:
  "give_lock p t s = Ret (t', s') \<Longrightarrow> lock_effect t s t' s' \<and> place t' = p \<and> file_lock s' = Unlocked"
  by (cases "file_lock s") (auto simp: give_lock_def lock_effect_def)

lemma file_frame [simp]:
  "file_lock (open_data env m s) = file_lock s" "foreign (open_data env m s) = foreign s"
  "file_lock (close_data env s) = file_lock s" "foreign (close_data env s) = foreign s"
  by (simp_all add: open_data_def close_data_def split: prod.split)

lemma receive_frame:
  "holds (receive env t) = holds t" "\<not> guarded (place (receive env t))"
  by (auto simp: receive_def guarded_def Let_def split: list.split recv_result.split)

lemma lock_step_effect:
  assumes "place t \<in> {Seek_lock, Write_lock, Read_lock, Write_unlock, Send_unlock, End_unlock}"
    and "session_step env t s = Ret (t', s')"
  shows "lock_effect t s t' s' \<and> (guarded (place t') \<longrightarrow> holds t')"
  using assms take_lock_effect [of _ t s t' s'] give_lock_effect [of _ t s t' s']
  by (elim insertE emptyE) (simp_all add: session_step_def guarded_def)

lemma read_step_effect:
  assumes "place t = Send_read" and "session_step env t s = Ret (t', s')"
  shows "lock_effect t s t' s' \<and> \<not> guarded (place t')"
proof -
  obtain r bs f where "api_read (api env) (global_fd s) BUF_LEN (data_store s) = Ret (r, bs, f)"
    using assms by (auto simp: session_step_def obind_Ret_iff)
  then show ?thesis using assms
    by (cases "r = -1 \<or> r = 0") (auto simp: session_step_def lock_effect_def guarded_def)
qed

lemma session_step_effect:
  assumes st: "session_step env t s = Ret (t', s')" and g: "guarded (place t) \<longrightarrow> holds t"
  shows "lock_effect t s t' s' \<and> (guarded (place t') \<longrightarrow> holds t')"
proof (cases "place t")
  case Receive
  then have "t' = receive env t" "s' = s" using st by (simp_all add: session_step_def)
  then show ?thesis by (simp add: lock_effect_def receive_frame)
next
  case Send_read
  then show ?thesis using read_step_effect [OF _ st] by simp
next
  case Check_newline
  then show ?thesis using st by (auto simp: session_step_def lock_effect_def guarded_def split: if_splits)
next
  case After_loop
  then show ?thesis using st by (auto simp: session_step_def lock_effect_def guarded_def split: if_splits)
qed (use lock_step_effect [OF _ st] st g in
    \<open>auto simp: session_step_def lock_effect_def guarded_def obind_Ret_iff\<close>)

lemma server_step_lock_inv: "server_step env w w' \<Longrightarrow> lock_inv w \<Longrightarrow> lock_inv w'"
proof (induction rule: server_step.induct)
  case (statement i w t s)
  let ?t = "sessions w ! i"
  have "?t \<in> set (sessions w)" using statement(1) by simp
  then have g: "guarded (place ?t) \<longrightarrow> holds ?t" using statement(3) by (simp add: lock_inv_def)
  have eff: "lock_effect ?t (shared w) t s" "guarded (place t) \<longrightarrow> holds t"
    using session_step_effect [OF statement(2) g] by simp_all
  have oh: "one_holder ((sessions w)[i := t]) (file_lock s)" if "foreign s = 0"
  proof -
    note now = that
    have none: "foreign (shared w) = 0" using eff(1) that by (auto simp: lock_effect_def)
    then have oh: "one_holder (sessions w) (file_lock (shared w))" using statement(3) by (simp add: lock_inv_def)
    from eff(1) consider
        "holds t = holds ?t" "file_lock s = file_lock (shared w)"
      | "holds t" "file_lock (shared w) = Unlocked" "file_lock s = Locked"
      | "\<not> holds t" "holds ?t"
      using now none by (cases "holds ?t") (auto simp: lock_effect_def)
    then show ?thesis
    proof cases
      case 1
      then show ?thesis using one_holder_keep [OF oh statement(1)] by simp
    next
      case 2
      then show ?thesis using one_holder_take [OF _ statement(1)] oh by simp
    next
      case 3
      then show ?thesis using one_holder_give [OF oh statement(1)] by simp
    qed
  qed
  moreover have "file_lock s \<noteq> Destroyed"
    using eff(1) statement(3) by (auto simp: lock_effect_def lock_inv_def)
  moreover have "\<forall>u \<in> set ((sessions w)[i := t]). guarded (place u) \<longrightarrow> holds u"
    using statement(3) eff(2) set_update_subset_insert [of "sessions w" i t] by (auto simp: lock_inv_def)
  ultimately show ?case by (simp add: lock_inv_def)
next
  case (new_client w rs)
  have "\<not> holds (new_session env rs)" "\<not> guarded (place (new_session env rs))"
    by (simp_all add: new_session_def guarded_def)
  then show ?case using new_client
    by (auto simp: lock_inv_def one_holder_def nth_append less_Suc_eq)
qed

lemma reachable_lock_inv: "(server_step env)\<^sup>*\<^sup>* (idle_server f) w \<Longrightarrow> lock_inv w"
proof (induction rule: rtranclp_induct)
  case base
  show ?case by (simp add: lock_inv_def idle_server_def one_holder_def)
next
  case (step w w')
  then show ?case by (blast intro: server_step_lock_inv)
qed

end
