(* ===== verification/Session_Runs.thy ===== *)
theory Session_Runs
  imports Server_Interleaving
begin

text \<open>
  Runs of a single session among the statements of the server, and the simulation that relates them to
  \<open>client_handler\<close>, the model of a whole session.
\<close>

subsection \<open>Runs of one session\<close>

fun session_run :: "'f client_env \<Rightarrow> nat \<Rightarrow> session \<Rightarrow> 'f shared \<Rightarrow> (session \<times> 'f shared) outcome" where
  "session_run env 0 t s = Ret (t, s)"
| "session_run env (Suc n) t s = obind (session_step env t s) (\<lambda>(t, s). session_run env n t s)"

definition reaches :: "'f client_env \<Rightarrow> session \<times> 'f shared \<Rightarrow> session \<times> 'f shared \<Rightarrow> bool" where
  "reaches env x y \<longleftrightarrow> (\<exists>n. session_run env n (fst x) (snd x) = Ret y)"

lemma reaches_refl [simp]: "reaches env x x"
  unfolding reaches_def by (rule exI [of _ 0]) simp

lemma reaches_step: "session_step env t s = Ret y \<Longrightarrow> reaches env y z \<Longrightarrow> reaches env (t, s) z"
  unfolding reaches_def by (elim exE, rule_tac x = "Suc n" in exI) (simp add: split_def)

lemma reaches_one: "session_step env t s = Ret y \<Longrightarrow> reaches env (t, s) y"
  by (erule reaches_step) (rule reaches_refl)

lemma session_run_add:
  "session_run env (m + n) t s = obind (session_run env m t s) (\<lambda>(t, s). session_run env n t s)"
  by (induction m arbitrary: t s) (simp_all add: obind_assoc split_def)

lemma reaches_trans: "reaches env x y \<Longrightarrow> reaches env y z \<Longrightarrow> reaches env x z"
  unfolding reaches_def
  by (elim exE, rule_tac x = "n + na" in exI) (simp add: session_run_add split_def)

subsection \<open>A session alone does what the handler does\<close>

definition agrees :: "'f handler \<Rightarrow> session \<Rightarrow> 'f shared \<Rightarrow> bool" where
  "agrees h t s \<longleftrightarrow>
     data_store s = store h \<and> global_fd s = file_fd h \<and> file_lock s = fileMutex h \<and>
     outbox t = sent h \<and> complete t = isComplete h \<and> connected t = client_open h"

lemma lock_file_run:
  "lock_file h = Ret h1 \<Longrightarrow> agrees h t s \<Longrightarrow>
     \<exists>s1. take_lock p t s = Ret (t\<lparr>place := p, holds := True\<rparr>, s1) \<and> agrees h1 (t\<lparr>place := p, holds := True\<rparr>) s1"
  by (auto simp: lock_file_def take_lock_def agrees_def obind_Ret_iff)

lemma unlock_file_run:
  "unlock_file h = Ret h1 \<Longrightarrow> agrees h t s \<Longrightarrow>
     \<exists>s1. give_lock p t s = Ret (t\<lparr>place := p, holds := False\<rparr>, s1) \<and> agrees h1 (t\<lparr>place := p, holds := False\<rparr>) s1"
  by (auto simp: unlock_file_def give_lock_def agrees_def obind_Ret_iff)

lemma seek_file_run:
  assumes "seek_file env (seekto t) h = Ret h1" and ag: "agrees h t s" and pl: "place t = Seek_lock"
  shows "\<exists>s1. reaches env (t, s) (t\<lparr>place := Check_newline, holds := True\<rparr>, s1) \<and>
    agrees h1 (t\<lparr>place := Check_newline, holds := True\<rparr>) s1"
proof -
  let ?t = "\<lambda>p. t\<lparr>place := p, holds := True\<rparr>"
  obtain h0 where l: "lock_file h = Ret h0" using assms(1) by (auto simp: seek_file_def obind_Ret_iff)
  obtain fd f where o: "api_open (api env) Read_write (store h0) = (fd, f)"
    by (cases "api_open (api env) Read_write (store h0)")
  obtain r f' where io: "api_ioctl (api env) fd (seekto t) f = Ret (r, f')" and h1: "h1 = h0\<lparr>file_fd := fd, store := f'\<rparr>"
    using assms(1) l o by (auto simp: seek_file_def obind_Ret_iff Let_def)
  obtain s0 where s0: "take_lock Seek_open t s = Ret (t\<lparr>place := Seek_open, holds := True\<rparr>, s0)"
    and ag0: "agrees h0 (t\<lparr>place := Seek_open, holds := True\<rparr>) s0"
    using lock_file_run [OF l ag] by blast
  let ?s = "s0\<lparr>global_fd := fd, data_store := f\<rparr>"
  have o0: "open_data env Read_write s0 = ?s" using ag0 o by (simp add: open_data_def agrees_def)
  have 1: "session_step env t s = Ret (?t Seek_open, s0)" using pl s0 by (simp add: session_step_def)
  have 2: "session_step env (?t Seek_open) s0 = Ret (?t Seek_ioctl, ?s)" using o0 by (simp add: session_step_def)
  have 3: "session_step env (?t Seek_ioctl) ?s = Ret (?t Check_newline, ?s\<lparr>data_store := f'\<rparr>)"
    using io by (simp add: session_step_def)
  have "agrees h1 (?t Check_newline) (?s\<lparr>data_store := f'\<rparr>)" using ag0 h1 by (simp add: agrees_def)
  then show ?thesis using reaches_step [OF 1 reaches_step [OF 2 reaches_one [OF 3]]] by blast
qed

lemma append_file_run:
  assumes "append_file env (received t) h = Ret h1" and ag: "agrees h t s" and pl: "place t = Write_lock"
  shows "\<exists>s1. reaches env (t, s) (t\<lparr>place := Check_newline, holds := False\<rparr>, s1) \<and>
    agrees h1 (t\<lparr>place := Check_newline, holds := False\<rparr>) s1"
proof -
  let ?t = "\<lambda>p. t\<lparr>place := p, holds := True\<rparr>"
  obtain h0 where l: "lock_file h = Ret h0" using assms(1) by (auto simp: append_file_def obind_Ret_iff)
  obtain fd f where o: "api_open (api env) Create_append (store h0) = (fd, f)"
    by (cases "api_open (api env) Create_append (store h0)")
  obtain r f' where wr: "api_write (api env) fd (received t) f = Ret (r, f')"
    and u: "unlock_file (h0\<lparr>file_fd := fd, store := snd (api_close (api env) fd f')\<rparr>) = Ret h1"
    using assms(1) l o by (auto simp: append_file_def obind_Ret_iff Let_def)
  obtain s0 where s0: "take_lock Write_open t s = Ret (?t Write_open, s0)" and ag0: "agrees h0 (?t Write_open) s0"
    using lock_file_run [OF l ag] by blast
  let ?s = "s0\<lparr>global_fd := fd, data_store := snd (api_close (api env) fd f')\<rparr>"
  have "agrees (h0\<lparr>file_fd := fd, store := snd (api_close (api env) fd f')\<rparr>) (?t Write_unlock) ?s"
    using ag0 by (simp add: agrees_def)
  from unlock_file_run [OF u this, of Check_newline] obtain s1 where
    s1: "give_lock Check_newline (?t Write_unlock) ?s = Ret (t\<lparr>place := Check_newline, holds := False\<rparr>, s1)"
      "agrees h1 (t\<lparr>place := Check_newline, holds := False\<rparr>) s1"
    by auto
  have o0: "open_data env Create_append s0 = s0\<lparr>global_fd := fd, data_store := f\<rparr>"
    using ag0 o by (simp add: open_data_def agrees_def)
  have 1: "session_step env t s = Ret (?t Write_open, s0)" using pl s0 by (simp add: session_step_def)
  have 2: "session_step env (?t Write_open) s0 = Ret (?t Write_data, s0\<lparr>global_fd := fd, data_store := f\<rparr>)"
    using o0 by (simp add: session_step_def)
  have 3: "session_step env (?t Write_data) (s0\<lparr>global_fd := fd, data_store := f\<rparr>) =
      Ret (?t Write_close, s0\<lparr>global_fd := fd, data_store := f'\<rparr>)"
    using wr by (simp add: session_step_def)
  have 4: "session_step env (?t Write_close) (s0\<lparr>global_fd := fd, data_store := f'\<rparr>) = Ret (?t Write_unlock, ?s)"
    by (simp add: session_step_def close_data_def)
  have 5: "session_step env (?t Write_unlock) ?s = Ret (t\<lparr>place := Check_newline, holds := False\<rparr>, s1)"
    using s1(1) by (simp add: session_step_def)
  show ?thesis
    using reaches_step [OF 1 reaches_step [OF 2 reaches_step [OF 3 reaches_step [OF 4 reaches_one [OF 5]]]]] s1(2)
    by blast
qed

text \<open>One round of the receive loop: a message that is not empty, up to the test for its newline.\<close>

lemma receive_round_run:
  assumes h: "(if contains ioctl_cmd (c_string buf (beyond env)) then seek_file env st h else append_file env bs h) = Ret h2"
    and buf: "buf = bs @ drop (length bs) (receive_buffer t)" and bs: "bs \<noteq> []"
    and found: "found = contains ioctl_cmd (c_string buf (beyond env))"
    and st: "st = (if found then scan_seekto (scan_overflow env) (c_string buf (beyond env)) (seekto t) else seekto t)"
    and ag: "agrees h t s" and pl: "place t = Receive" "inbox t = Recv bs # rs"
  shows "\<exists>t2 s2. reaches env (t, s) (t2, s2) \<and> agrees h2 t2 s2 \<and> place t2 = Check_newline \<and> inbox t2 = rs \<and>
    receive_buffer t2 = buf \<and> received t2 = bs \<and> ioctl_found t2 = found \<and> seekto t2 = st"
proof -
  let ?t = "receive env t"
  have t: "?t = t\<lparr>place := (if found then Seek_lock else Write_lock), inbox := rs, receive_buffer := buf,
      received := bs, ioctl_found := found, seekto := st\<rparr>"
    using pl bs by (simp add: receive_def Let_def buf found st)
  have "agrees h ?t s" using ag by (simp add: t agrees_def)
  then obtain b s2 where r2: "reaches env (?t, s) (?t\<lparr>place := Check_newline, holds := b\<rparr>, s2)"
    and ag2: "agrees h2 (?t\<lparr>place := Check_newline, holds := b\<rparr>) s2"
    using h seek_file_run [of env ?t h h2 s] append_file_run [of env ?t h h2 s]
    by (cases found) (auto simp: t simp flip: found)
  have "session_step env t s = Ret (?t, s)" using pl by (simp add: session_step_def)
  from reaches_step [OF this r2] show ?thesis using ag2
    by (intro exI [of _ "?t\<lparr>place := Check_newline, holds := b\<rparr>"] exI [of _ s2]) (simp add: t)
qed

lemma recv_loop_run:
  "recv_loop env rs buf found st h = Ret (found', h1) \<Longrightarrow> agrees h t s \<Longrightarrow> place t = Receive \<Longrightarrow>
     inbox t = rs \<Longrightarrow> receive_buffer t = buf \<Longrightarrow> ioctl_found t = found \<Longrightarrow> seekto t = st \<Longrightarrow>
     \<exists>t1 s1. reaches env (t, s) (t1, s1) \<and> agrees h1 t1 s1 \<and> place t1 = After_loop \<and> ioctl_found t1 = found'"
proof (induction env rs buf found st h arbitrary: t s rule: recv_loop.induct)
  case (1 env buf found st h)
  then show ?case
    by (intro exI [of _ "t\<lparr>place := After_loop\<rparr>"] exI [of _ s] conjI reaches_one)
      (simp_all add: session_step_def receive_def agrees_def)
next
  case (2 env rs buf found st h)
  then show ?case
    by (intro exI [of _ "t\<lparr>place := After_loop\<rparr>"] exI [of _ s] conjI reaches_one)
      (simp_all add: session_step_def receive_def agrees_def)
next
  case (3 env bs rs buf found st h)
  show ?case
  proof (cases "bs = []")
    case True
    then show ?thesis using 3
      by (intro exI [of _ "t\<lparr>place := After_loop\<rparr>"] exI [of _ s] conjI reaches_one)
        (simp_all add: session_step_def receive_def agrees_def)
  next
    case False
    let ?buf = "bs @ drop (length bs) buf"
    let ?text = "c_string ?buf (beyond env)"
    let ?found = "contains ioctl_cmd ?text"
    let ?st = "if ?found then scan_seekto (scan_overflow env) ?text st else st"
    obtain h2 where h2: "(if ?found then seek_file env ?st h else append_file env bs h) = Ret h2"
      and rest: "(if last bs = newline then Ret (?found, h2) else recv_loop env rs ?buf ?found ?st h2)
        = Ret (found', h1)"
      using "3.prems"(1) False by (auto simp: Let_def obind_Ret_iff split: if_split_asm)
    obtain t2 s2 where t2: "reaches env (t, s) (t2, s2)" "agrees h2 t2 s2" "place t2 = Check_newline" "inbox t2 = rs"
      "receive_buffer t2 = ?buf" "received t2 = bs" "ioctl_found t2 = ?found" "seekto t2 = ?st"
      using receive_round_run [OF h2 _ False refl _ "3.prems"(2-4)] "3.prems"(5,7) by auto
    let ?t3 = "t2\<lparr>place := if last bs = newline then After_loop else Receive\<rparr>"
    have step: "session_step env t2 s2 = Ret (?t3, s2)" using t2(3,6) by (simp add: session_step_def)
    have at3: "reaches env (t, s) (?t3, s2)" "agrees h2 ?t3 s2"
      using reaches_trans [OF t2(1) reaches_one [OF step]] t2(2) by (simp_all add: agrees_def)
    show ?thesis
    proof (cases "last bs = newline")
      case True
      then show ?thesis using at3 rest t2(7) by (intro exI [of _ ?t3] exI [of _ s2]) simp
    next
      case more: False
      then obtain t1 s1 where "reaches env (?t3, s2) (t1, s1)" "agrees h1 t1 s1"
        "place t1 = After_loop" "ioctl_found t1 = found'"
        using "3.IH" [OF False refl refl refl refl more, of h2 ?t3 s2] rest at3(2) t2 by auto
      then show ?thesis using reaches_trans [OF at3(1)] by blast
    qed
  qed
qed
lemma send_loop_run:
  "send_loop env h = Some y \<Longrightarrow> y = Ret h' \<Longrightarrow> agrees h t s \<Longrightarrow> place t = Send_lseek \<Longrightarrow>
     \<exists>t1 s1. reaches env (t, s) (t1, s1) \<and> agrees h' t1 s1 \<and> place t1 = End_close"
proof (induction env h y arbitrary: t s rule: send_loop.raw_induct [rotated, consumes 1, case_names step])
  case (step loop env h y)
  obtain l f0 where ls: "api_lseek (api env) (file_fd h) (store h) = Ret (l, f0)"
    using step by (auto split: outcome.split_asm)
  obtain r bs f where rd: "api_read (api env) (file_fd h) BUF_LEN f0 = Ret (r, bs, f)"
    using step ls by (auto split: outcome.split_asm)
  let ?s0 = "s\<lparr>data_store := f0\<rparr>" and ?s1 = "s\<lparr>data_store := f\<rparr>"
  have 1: "session_step env t s = Ret (t\<lparr>place := Send_read\<rparr>, ?s0)"
    using step ls by (simp add: session_step_def agrees_def)
  show ?case
  proof (cases "r = -1 \<or> r = 0")
    case True
    have 2: "session_step env (t\<lparr>place := Send_read\<rparr>) ?s0 = Ret (t\<lparr>place := End_close\<rparr>, ?s1)"
      using step rd True by (simp add: session_step_def agrees_def)
    have "h' = h\<lparr>store := f\<rparr>" using step ls rd True by auto
    then have "agrees h' (t\<lparr>place := End_close\<rparr>) ?s1" using step by (simp add: agrees_def)
    then show ?thesis using reaches_step [OF 1 reaches_one [OF 2]]
      by (intro exI [of _ "t\<lparr>place := End_close\<rparr>"] exI [of _ ?s1]) simp
  next
    case False
    let ?t2 = "t\<lparr>place := Send_unlock, send_buffer := bs\<rparr>"
    have 2: "session_step env (t\<lparr>place := Send_read\<rparr>) ?s0 = Ret (?t2, ?s1)"
      using step rd False by (simp add: session_step_def agrees_def)
    obtain h1 where u: "unlock_file (h\<lparr>store := f\<rparr>) = Ret h1"
      and rest: "loop env (send_bytes env bs h1) = Some y"
      using step ls rd False by (auto split: outcome.split_asm)
    have "agrees (h\<lparr>store := f\<rparr>) ?t2 ?s1" using step by (simp add: agrees_def)
    from unlock_file_run [OF u this, of Send_data] obtain s2
      where g: "give_lock Send_data ?t2 ?s1 = Ret (?t2\<lparr>place := Send_data, holds := False\<rparr>, s2)"
        and ag: "agrees h1 (?t2\<lparr>place := Send_data, holds := False\<rparr>) s2" by blast
    let ?t3 = "?t2\<lparr>place := Send_data, holds := False\<rparr>"
    let ?t4 = "?t3\<lparr>place := Send_lseek, outbox := outbox t @ take (nat (send_r env bs)) bs\<rparr>"
    have 3: "session_step env ?t2 ?s1 = Ret (?t3, s2)" using g by (simp add: session_step_def)
    have 4: "session_step env ?t3 s2 = Ret (?t4, s2)" by (simp add: session_step_def)
    have "agrees (send_bytes env bs h1) ?t4 s2" using ag by (simp add: agrees_def send_bytes_def)
    from step.IH [OF rest step.prems(1) this] obtain t1 s1 where
      "reaches env (?t4, s2) (t1, s1)" "agrees h' t1 s1" "place t1 = End_close" by auto
    then show ?thesis using reaches_step [OF 1 reaches_step [OF 2 reaches_step [OF 3 reaches_step [OF 4]]]]
      by blast
  qed
qed

lemma reopen_run:
  assumes re: "(if found then Ret h else reopen_file env h) = Ret h1" and ag: "agrees h t s"
    and pl: "place t = After_loop" "ioctl_found t = found"
  shows "\<exists>t1 s1. reaches env (t, s) (t1, s1) \<and> agrees h1 t1 s1 \<and> place t1 = Send_lseek"
proof (cases found)
  case True
  have "session_step env t s = Ret (t\<lparr>place := Send_lseek\<rparr>, s)" using pl True by (simp add: session_step_def)
  moreover have "agrees h1 (t\<lparr>place := Send_lseek\<rparr>) s" using ag re True by (simp add: agrees_def)
  ultimately show ?thesis by (intro exI [of _ "t\<lparr>place := Send_lseek\<rparr>"] exI [of _ s]) (simp add: reaches_one)
next
  case False
  let ?t = "t\<lparr>place := Read_lock\<rparr>"
  obtain h0 where l: "lock_file h = Ret h0" using re False by (auto simp: reopen_file_def obind_Ret_iff)
  obtain fd f where o: "api_open (api env) Read_only (store h0) = (fd, f)"
    by (cases "api_open (api env) Read_only (store h0)")
  have h1: "h1 = h0\<lparr>file_fd := fd, store := f\<rparr>" using re False l o by (simp add: reopen_file_def)
  have "agrees h ?t s" using ag by (simp add: agrees_def)
  from lock_file_run [OF l this, of Read_open] obtain s0
    where s0: "take_lock Read_open ?t s = Ret (?t\<lparr>place := Read_open, holds := True\<rparr>, s0)"
      and ag0: "agrees h0 (?t\<lparr>place := Read_open, holds := True\<rparr>) s0" by blast
  let ?t1 = "t\<lparr>place := Send_lseek, holds := True\<rparr>" and ?s1 = "s0\<lparr>global_fd := fd, data_store := f\<rparr>"
  have o0: "open_data env Read_only s0 = ?s1" using ag0 o by (simp add: open_data_def agrees_def)
  have 1: "session_step env t s = Ret (?t, s)" using pl False by (simp add: session_step_def)
  have 2: "session_step env ?t s = Ret (?t\<lparr>place := Read_open, holds := True\<rparr>, s0)"
    using s0 by (simp add: session_step_def)
  have 3: "session_step env (?t\<lparr>place := Read_open, holds := True\<rparr>) s0 = Ret (?t1, ?s1)"
    using o0 by (simp add: session_step_def)
  have "agrees h1 ?t1 ?s1" using ag0 h1 by (simp add: agrees_def)
  then show ?thesis using reaches_step [OF 1 reaches_step [OF 2 reaches_one [OF 3]]]
    by (intro exI [of _ ?t1] exI [of _ ?s1]) simp
qed

lemma finish_run:
  assumes fin: "finish_client env h = Ret h1" and ag: "agrees h t s" and pl: "place t = End_close"
  shows "\<exists>t1 s1. reaches env (t, s) (t1, s1) \<and> agrees h1 t1 s1 \<and> place t1 = Done"
proof -
  let ?h = "h\<lparr>store := snd (api_close (api env) (file_fd h) (store h))\<rparr>"
  let ?t = "t\<lparr>place := End_unlock\<rparr>" and ?s = "close_data env s"
  obtain h0 where u: "unlock_file ?h = Ret h0" and h1: "h1 = h0\<lparr>isComplete := 1, client_open := False\<rparr>"
    using fin by (auto simp: finish_client_def obind_Ret_iff)
  have "agrees ?h ?t ?s" using ag by (simp add: agrees_def close_data_def)
  from unlock_file_run [OF u this, of End_complete] obtain s1
    where g: "give_lock End_complete ?t ?s = Ret (?t\<lparr>place := End_complete, holds := False\<rparr>, s1)"
      and ag1: "agrees h0 (?t\<lparr>place := End_complete, holds := False\<rparr>) s1" by blast
  let ?t1 = "?t\<lparr>place := End_complete, holds := False\<rparr>"
  let ?t2 = "?t1\<lparr>place := End_socket, complete := 1\<rparr>" and ?t3 = "?t1\<lparr>place := Done, complete := 1, connected := False\<rparr>"
  have 1: "session_step env t s = Ret (?t, ?s)" using pl by (simp add: session_step_def)
  have 2: "session_step env ?t ?s = Ret (?t1, s1)" using g by (simp add: session_step_def)
  have 3: "session_step env ?t1 s1 = Ret (?t2, s1)" by (simp add: session_step_def)
  have 4: "session_step env ?t2 s1 = Ret (?t3, s1)" by (simp add: session_step_def)
  have "agrees h1 ?t3 s1" using ag1 h1 by (simp add: agrees_def)
  then show ?thesis using reaches_step [OF 1 reaches_step [OF 2 reaches_step [OF 3 reaches_one [OF 4]]]]
    by (intro exI [of _ ?t3] exI [of _ s1]) simp
qed

lemma client_handler_run:
  assumes run: "client_handler env rs h = Some (Ret h')" and ag: "agrees h t s"
    and start: "place t = Receive" "inbox t = rs" "receive_buffer t = replicate BUF_LEN 0"
      "\<not> ioctl_found t" "seekto t = seekto0 env"
  shows "\<exists>t1 s1. reaches env (t, s) (t1, s1) \<and> agrees h' t1 s1 \<and> place t1 = Done"
proof -
  obtain found h1 h2 h3 where h1: "recv_loop env rs (replicate BUF_LEN 0) False (seekto0 env) h = Ret (found, h1)"
    and h2: "(if found then Ret h1 else reopen_file env h1) = Ret h2"
    and h3: "send_loop env h2 = Some (Ret h3)" and fin: "finish_client env h3 = Ret h'"
    using run by (auto simp: client_handler_def tbind_Ret_iff simp del: tbind.simps)
  obtain t1 s1 where t1: "reaches env (t, s) (t1, s1)" "agrees h1 t1 s1" "place t1 = After_loop"
    "ioctl_found t1 = found"
    using recv_loop_run [OF h1 ag start(1-3) _ start(5)] start(4) by auto
  obtain t2 s2 where t2: "reaches env (t1, s1) (t2, s2)" "agrees h2 t2 s2" "place t2 = Send_lseek"
    using reopen_run [OF h2 t1(2-4)] by blast
  obtain t3 s3 where t3: "reaches env (t2, s2) (t3, s3)" "agrees h3 t3 s3" "place t3 = End_close"
    using send_loop_run [OF h3 refl t2(2,3)] by blast
  obtain t4 s4 where "reaches env (t3, s3) (t4, s4)" "agrees h' t4 s4" "place t4 = Done"
    using finish_run [OF fin t3(2,3)] by blast
  then show ?thesis using reaches_trans [OF t1(1) reaches_trans [OF t2(1) reaches_trans [OF t3(1)]]] by blast
qed

subsection \<open>In the server\<close>

lemma run_schedule_append:
  "run_schedule env (is @ js) w = obind (run_schedule env is w) (run_schedule env js)"
  by (induction env "is" w rule: run_schedule.induct) (auto simp: obind_assoc split_def)

lemma run_schedule_session:
  "i < length (sessions w) \<Longrightarrow> session_run env n (sessions w ! i) (shared w) = Ret (t, s) \<Longrightarrow>
     run_schedule env (replicate n i) w = Ret (w\<lparr>shared := s, sessions := (sessions w)[i := t]\<rparr>)"
proof (induction n arbitrary: w)
  case 0
  then show ?case by (cases w) auto
next
  case (Suc n)
  from Suc.prems(2) obtain t1 s1 where st: "session_step env (sessions w ! i) (shared w) = Ret (t1, s1)"
    and run: "session_run env n t1 s1 = Ret (t, s)"
    by (auto simp: obind_Ret_iff)
  from Suc.IH [of "w\<lparr>shared := s1, sessions := (sessions w)[i := t1]\<rparr>"] Suc.prems(1) run st
  show ?case by simp
qed

lemma reaches_server:
  assumes "reaches env (sessions w ! i, shared w) (t, s)" and "i < length (sessions w)"
  shows "(server_step env)\<^sup>*\<^sup>* w (w\<lparr>shared := s, sessions := (sessions w)[i := t]\<rparr>)"
  using assms run_schedule_steps [OF run_schedule_session] by (auto simp: reaches_def)

end
