(* ===== verification/Lost_Message.thy ===== *)
theory Lost_Message
  imports Session_Runs Device_File Plain_File
begin

text \<open>
  Two handlers of \<^verbatim>\<open>server/aesdsocket.c\<close> on one data file: the thread that ends closes the
  descriptor in the global variable \<open>file_fd\<close>, which may be the one that another thread has opened
  for its message. A contract that also says what calls on a closed descriptor do is enough to show
  that the message is then lost, and that a reply is cut when it is a sending session that loses its
  descriptor; the device and the regular file both keep the contract.
\<close>

subsection \<open>Two sessions of the server\<close>

definition with_pair :: "'f server \<Rightarrow> 'f shared \<Rightarrow> session \<Rightarrow> session \<Rightarrow> 'f server" where
  "with_pair w s t u = w\<lparr>shared := s, sessions := sessions w @ [t, u]\<rparr>"

text \<open>Some schedule of the sessions' statements leads from one state to the other.\<close>

definition runs :: "'f client_env \<Rightarrow> 'f server \<Rightarrow> 'f server \<Rightarrow> bool" where
  "runs env w w' \<longleftrightarrow> (\<exists>is. run_schedule env is w = Ret w')"

lemma runs_trans [trans]: "runs env w w' \<Longrightarrow> runs env w' w'' \<Longrightarrow> runs env w w''"
  unfolding runs_def by (elim exE, rule_tac x = "is @ isa" in exI) (simp add: run_schedule_append)

lemma reaches_runs:
  assumes "reaches env (sessions w ! i, shared w) (t, s)" and "i < length (sessions w)"
  shows "runs env w (w\<lparr>shared := s, sessions := (sessions w)[i := t]\<rparr>)"
  using assms run_schedule_session by (fastforce simp: reaches_def runs_def)

lemma left_run:
  assumes "reaches env (t, s) (t', s')"
  shows "runs env (with_pair w s t u) (with_pair w s' t' u)"
  using reaches_runs [of env "with_pair w s t u" "length (sessions w)" t' s'] assms
  by (simp add: with_pair_def nth_append list_update_append)

lemma right_run:
  assumes "reaches env (u, s) (u', s')"
  shows "runs env (with_pair w s t u) (with_pair w s' t u')"
  using reaches_runs [of env "with_pair w s t u" "Suc (length (sessions w))" u' s'] assms
  by (simp add: with_pair_def nth_append list_update_append)

text \<open>The handler that starts where a session stands.\<close>

definition handler_of :: "session \<Rightarrow> 'f shared \<Rightarrow> 'f handler" where
  "handler_of t s = \<lparr>store = data_store s, file_fd = global_fd s, fileMutex = file_lock s,
     sent = outbox t, stray_unlocks = 0, isComplete = complete t, client_open = connected t\<rparr>"

lemma handler_of_simps [simp]:
  "store (handler_of t s) = data_store s" "file_fd (handler_of t s) = global_fd s"
  "fileMutex (handler_of t s) = file_lock s" "sent (handler_of t s) = outbox t"
  "agrees (handler_of t s) t s"
  by (simp_all add: handler_of_def agrees_def)

subsection \<open>Closed descriptors\<close>

text \<open>The bytes that a read at the start of the file returns, unless it fails.\<close>

definition first_read :: "'f file_api \<Rightarrow> ('f \<Rightarrow> int \<Rightarrow> nat \<Rightarrow> 'b \<Rightarrow> bool) \<Rightarrow> 'b \<Rightarrow> byte list \<Rightarrow> bool" where
  "first_read dfile placed a d \<longleftrightarrow>
     (\<forall>f fd r bs f'. placed f fd 0 a \<longrightarrow> api_read dfile fd BUF_LEN f = Ret (r, bs, f') \<longrightarrow> r \<noteq> -1 \<longrightarrow> bs = d)"

locale data_file_fds = data_file +
  fixes closed :: "'a \<Rightarrow> int \<Rightarrow> 'b \<Rightarrow> bool"
  assumes opened_rep: "opened f fd a \<Longrightarrow> rep f a"
    and close_closed: "opened f fd a \<Longrightarrow> closed (snd (api_close dfile fd f)) fd a"
    and closed_rep: "closed f fd a \<Longrightarrow> rep f a"
    and write_closed: "closed f fd a \<Longrightarrow> \<exists>f'. api_write dfile fd bs f = Ret (-1, f') \<and> closed f' fd a"
    and close_again: "closed f fd a \<Longrightarrow> closed (snd (api_close dfile fd f)) fd a"
    and lseek_closed: "closed f fd a \<Longrightarrow> \<exists>r f'. api_lseek dfile fd f = Ret (r, f') \<and> closed f' fd a"
    and read_closed: "closed f fd a \<Longrightarrow> \<exists>bs f'. api_read dfile fd BUF_LEN f = Ret (-1, bs, f') \<and> closed f' fd a"
    and written_grows: "written bs a r b \<Longrightarrow> bytes a \<noteq> [] \<Longrightarrow> bytes b \<noteq> []"
begin

lemma written_all_grows: "written_all written bss a b \<Longrightarrow> bytes a \<noteq> [] \<Longrightarrow> bytes b \<noteq> []"
  by (induction bss arbitrary: a) (auto dest: written_grows)

text \<open>A session without a seek command up to the point where it has read the end of the file.\<close>

lemma read_back_run:
  assumes env: "api env = dfile" "sends_all env" and rep: "rep (data_store s) a"
    and unl: "file_lock s = Unlocked" and reads: "\<not> read_failed dfile placed a"
    and pl: "place t = After_loop" "\<not> ioctl_found t"
  shows "\<exists>t1 s1. reaches env (t, s) (t1, s1) \<and> place t1 = End_close \<and>
    opened (data_store s1) (global_fd s1) a \<and> outbox t1 = outbox t @ bytes a \<and>
    file_lock s1 = (if bytes a = [] then Locked else Unlocked)"
proof -
  obtain h1 where h1: "reopen_file env (handler_of t s) = Ret h1" "placed (store h1) (file_fd h1) 0 a"
    "fileMutex h1 = Locked" "sent h1 = outbox t"
    using reopen_effect [OF env(1), of "handler_of t s" a] rep unl by auto
  obtain t1 s1 where r1: "reaches env (t, s) (t1, s1)" "agrees h1 t1 s1" "place t1 = Send_lseek"
    using reopen_run [of False "handler_of t s" env h1 t s] h1(1) pl by auto
  obtain h2 where h2: "send_loop env h1 = Some (Ret h2)"
    "sent_back (read_failed dfile placed a) opened bytes h1 0 a h2"
    using send_loop_effect [OF env h1(2)] h1(3) by auto
  obtain t2 s2 where r2: "reaches env (t1, s1) (t2, s2)" "agrees h2 t2 s2" "place t2 = End_close"
    using send_loop_run [OF h2(1) refl r1(2,3)] by blast
  have "opened (store h2) (file_fd h2) a" "sent h2 = outbox t @ bytes a"
    "fileMutex h2 = (if bytes a = [] then Locked else Unlocked)"
    using h2(2) reads h1(3,4) by (auto simp: sent_back_def split: if_splits)
  then show ?thesis using reaches_trans [OF r1(1) r2(1)] r2(2,3)
    by (intro exI [of _ t2] exI [of _ s2]) (simp add: agrees_def)
qed

lemma new_session_run:
  assumes env: "api env = dfile" "sends_all env" and rep: "rep (data_store s) a"
    and unl: "file_lock s = Unlocked" and reads: "\<forall>a. \<not> read_failed dfile placed a"
    and small: "\<forall>bs \<in> set (chunks rs). length bs \<le> BUF_LEN"
    and data: "no_seek env rs (replicate BUF_LEN 0)"
  shows "\<exists>t1 s1 a1. reaches env (new_session env rs, s) (t1, s1) \<and> place t1 = End_close \<and>
    written_all written (chunks rs) a a1 \<and> opened (data_store s1) (global_fd s1) a1 \<and>
    outbox t1 = bytes a1 \<and> file_lock s1 = (if bytes a1 = [] then Locked else Unlocked)"
proof -
  let ?t = "new_session env rs"
  obtain a1 h1 where h1: "recv_loop_simple env rs (handler_of ?t s) = Ret h1" "rep (store h1) a1"
    "written_all written (chunks rs) a a1" "fileMutex h1 = Unlocked" "sent h1 = []"
    using recv_loop_simple_effect [OF env(1) small, of "handler_of ?t s" a] rep unl
    by (auto simp: new_session_def)
  have "recv_loop env rs (replicate BUF_LEN 0) False (seekto0 env) (handler_of ?t s) = Ret (False, h1)"
    using recv_loop_no_seek [OF data] h1(1) by simp
  from recv_loop_run [OF this, of ?t s] obtain t1 s1 where r1: "reaches env (?t, s) (t1, s1)"
    "agrees h1 t1 s1" "place t1 = After_loop" "\<not> ioctl_found t1"
    by (auto simp: new_session_def)
  have "rep (data_store s1) a1" "file_lock s1 = Unlocked" "outbox t1 = []"
    using h1 r1(2) by (simp_all add: agrees_def)
  from read_back_run [OF env this(1,2) _ r1(3,4)] reads this(3) reaches_trans [OF r1(1)] h1(3)
  show ?thesis by fastforce
qed

text \<open>The statements of the second session, up to opening the file, and the end of the first.\<close>

lemma open_message_run:
  assumes bs: "bs \<noteq> []" and data: "no_seek env (Recv bs # rs) (replicate BUF_LEN 0)"
    and unl: "file_lock s = Unlocked" and rep: "rep (data_store s) a" and env: "api env = dfile"
  shows "\<exists>u1 s1. reaches env (new_session env (Recv bs # rs), s) (u1, s1) \<and> place u1 = Write_data \<and>
    received u1 = bs \<and> \<not> ioctl_found u1 \<and> outbox u1 = [] \<and> writable (data_store s1) (global_fd s1) a \<and>
    file_lock s1 = Locked"
proof -
  let ?u = "receive env (new_session env (Recv bs # rs))"
  have u: "place ?u = Write_lock" "received ?u = bs" "\<not> ioctl_found ?u" "outbox ?u = []"
    using bs data by (simp_all add: receive_def new_session_def Let_def)
  let ?u1 = "?u\<lparr>place := Write_open, holds := True\<rparr>" and ?s1 = "s\<lparr>file_lock := Locked\<rparr>"
  obtain fd f where o: "api_open dfile Create_append (data_store s) = (fd, f)"
    by (cases "api_open dfile Create_append (data_store s)")
  have op: "writable f fd a" using open_writable [OF rep o] .
  have 1: "session_step env (new_session env (Recv bs # rs)) s = Ret (?u, s)"
    by (simp add: session_step_def new_session_def)
  have 2: "session_step env ?u s = Ret (?u1, ?s1)"
    using u(1) unl by (simp add: session_step_def take_lock_def)
  have 3: "session_step env ?u1 ?s1 = Ret (?u1\<lparr>place := Write_data\<rparr>, ?s1\<lparr>global_fd := fd, data_store := f\<rparr>)"
    using env o by (simp add: session_step_def open_data_def)
  show ?thesis using reaches_step [OF 1 reaches_step [OF 2 reaches_one [OF 3]]] u op
    by (intro exI [of _ "?u1\<lparr>place := Write_data\<rparr>"] exI [of _ "?s1\<lparr>global_fd := fd, data_store := f\<rparr>"]) simp
qed

lemma close_run:
  assumes env: "api env = dfile"
    and cl: "closed (snd (api_close dfile (global_fd s) (data_store s))) (global_fd s) a"
    and pl: "place t = End_close" and nd: "file_lock s \<noteq> Destroyed"
  shows "\<exists>t1 s1. reaches env (t, s) (t1, s1) \<and> place t1 = Done \<and> complete t1 = 1 \<and> outbox t1 = outbox t \<and>
    closed (data_store s1) (global_fd s1) a \<and> file_lock s1 = Unlocked"
proof -
  let ?h = "handler_of t s"
  let ?h1 = "?h\<lparr>store := snd (api_close dfile (global_fd s) (data_store s))\<rparr>"
  have "fileMutex ?h1 \<noteq> Destroyed" using nd by simp
  from unlock_file_free [OF this] obtain h2 where h2: "unlock_file ?h1 = Ret h2" "fileMutex h2 = Unlocked"
    "store h2 = store ?h1" "sent h2 = sent ?h1" "file_fd h2 = file_fd ?h1" by blast
  have "finish_client env ?h = Ret (h2\<lparr>isComplete := 1, client_open := False\<rparr>)"
    using h2(1) env by (simp add: finish_client_def)
  from finish_run [OF this _ pl, of s] obtain t1 s1 where "reaches env (t, s) (t1, s1)" "place t1 = Done"
    "agrees (h2\<lparr>isComplete := 1, client_open := False\<rparr>) t1 s1"
    by auto
  then show ?thesis using h2 cl
    by (intro exI [of _ t1] exI [of _ s1]) (simp add: agrees_def)
qed

text \<open>The second session after the first has closed its file.\<close>

lemma failed_message_run:
  assumes env: "api env = dfile" and cl: "closed (data_store s) (global_fd s) a"
    and unl: "file_lock s = Unlocked"
    and u: "place u = Write_data" "last (received u) = newline" "\<not> ioctl_found u"
  shows "\<exists>u1 s1. reaches env (u, s) (u1, s1) \<and> place u1 = After_loop \<and> \<not> ioctl_found u1 \<and>
    outbox u1 = outbox u \<and> rep (data_store s1) a \<and> file_lock s1 = Unlocked"
proof -
  obtain f where f: "api_write dfile (global_fd s) (received u) (data_store s) = Ret (-1, f)"
    "closed f (global_fd s) a"
    using write_closed [OF cl] by blast
  let ?u1 = "u\<lparr>place := Write_close\<rparr>" and ?s1 = "s\<lparr>data_store := f\<rparr>"
  let ?u2 = "u\<lparr>place := Write_unlock\<rparr>" and ?s2 = "close_data env ?s1"
  let ?u3 = "u\<lparr>place := Check_newline, holds := False\<rparr>"
  let ?s3 = "?s2\<lparr>foreign := foreign ?s2 + (if holds u then 0 else 1)\<rparr>"
  let ?u4 = "?u3\<lparr>place := After_loop\<rparr>"
  have 1: "session_step env u s = Ret (?u1, ?s1)" using u f env by (simp add: session_step_def)
  have 2: "session_step env ?u1 ?s1 = Ret (?u2, ?s2)" by (simp add: session_step_def)
  have 3: "session_step env ?u2 ?s2 = Ret (?u3, ?s3)"
    using unl by (simp add: session_step_def give_lock_def close_data_def)
  have 4: "session_step env ?u3 ?s3 = Ret (?u4, ?s3)" using u by (simp add: session_step_def)
  have "rep (data_store ?s3) a" using closed_rep [OF close_again [OF f(2)]] env by (simp add: close_data_def)
  then show ?thesis
    using reaches_step [OF 1 reaches_step [OF 2 reaches_step [OF 3 reaches_one [OF 4]]]] u unl
    by (intro exI [of _ ?u4] exI [of _ ?s3]) simp
qed

lemma message_lost:
  assumes env: "api env = dfile" "sends_all env" and rep: "rep (data_store (shared w)) a"
    and unl: "file_lock (shared w) = Unlocked" and reads: "\<forall>a. \<not> read_failed dfile placed a"
    and some: "bytes a \<noteq> []"
    and small: "\<forall>bs \<in> set (chunks rs). length bs \<le> BUF_LEN"
    and data: "no_seek env rs (replicate BUF_LEN 0)"
    and msg: "bs \<noteq> []" "last bs = newline" "no_seek env (Recv bs # rs') (replicate BUF_LEN 0)"
  shows "\<exists>w' t u b. runs env (with_pair w (shared w) (new_session env rs) (new_session env (Recv bs # rs'))) w' \<and>
    sessions w' = sessions w @ [t, u] \<and>
    place t = Done \<and> complete t = 1 \<and> place u = Done \<and> complete u = 1 \<and>
    written_all written (chunks rs) a b \<and> rep (data_store (shared w')) b \<and>
    outbox t = bytes b \<and> outbox u = bytes b"
proof -
  let ?t = "new_session env rs" and ?u = "new_session env (Recv bs # rs')"
  obtain t1 s1 b where t1: "reaches env (?t, shared w) (t1, s1)" "place t1 = End_close"
    "written_all written (chunks rs) a b" "opened (data_store s1) (global_fd s1) b"
    "outbox t1 = bytes b" "file_lock s1 = (if bytes b = [] then Locked else Unlocked)"
    using new_session_run [OF env rep unl reads small data] by blast
  have unl1: "file_lock s1 = Unlocked" using t1(6) written_all_grows [OF t1(3) some] by simp
  have rep1: "rep (data_store s1) b" by (rule opened_rep [OF t1(4)])
  obtain u2 s2 where u2: "reaches env (?u, s1) (u2, s2)" "place u2 = Write_data" "received u2 = bs"
    "\<not> ioctl_found u2" "outbox u2 = []" "writable (data_store s2) (global_fd s2) b" "file_lock s2 = Locked"
    using open_message_run [OF msg(1,3) unl1 rep1 env(1)] by blast
  obtain t3 s3 where t3: "reaches env (t1, s2) (t3, s3)" "place t3 = Done" "complete t3 = 1"
    "outbox t3 = outbox t1" "closed (data_store s3) (global_fd s3) b" "file_lock s3 = Unlocked"
    using close_run [OF env(1) close_closed [OF writable_opened [OF u2(6)]] t1(2)] u2(7) by auto
  obtain u4 s4 where u4: "reaches env (u2, s3) (u4, s4)" "place u4 = After_loop" "\<not> ioctl_found u4"
    "outbox u4 = outbox u2" "rep (data_store s4) b" "file_lock s4 = Unlocked"
    using failed_message_run [OF env(1) t3(5,6) u2(2) _ u2(4)] u2(3) msg(2) by auto
  obtain u5 s5 where u5: "reaches env (u4, s4) (u5, s5)" "place u5 = End_close"
    "opened (data_store s5) (global_fd s5) b" "outbox u5 = bytes b" "file_lock s5 \<noteq> Destroyed"
    using read_back_run [OF env u4(5,6) _ u4(2,3)] reads u4(4) u2(5) by fastforce
  obtain u6 s6 where u6: "reaches env (u5, s5) (u6, s6)" "place u6 = Done" "complete u6 = 1"
    "outbox u6 = outbox u5" "closed (data_store s6) (global_fd s6) b"
    using close_run [OF env(1) close_closed [OF u5(3)] u5(2,5)] by blast
  have "runs env (with_pair w (shared w) ?t ?u) (with_pair w s6 t3 u6)"
    using left_run [OF t1(1)] right_run [OF u2(1)] left_run [OF t3(1)]
      right_run [OF reaches_trans [OF u4(1) reaches_trans [OF u5(1) u6(1)]]]
    by (meson runs_trans)
  then show ?thesis using t1 t3 u5 u6 closed_rep [OF u6(5)]
    by (intro exI [of _ "with_pair w s6 t3 u6"] exI [of _ t3] exI [of _ u6] exI [of _ b])
      (simp add: with_pair_def)
qed

text \<open>
  The other way round: a session that is sending loses its descriptor to a message. The first read
  of the send loop, and what becomes of the loop on a closed descriptor.
\<close>

lemma first_send_run:
  assumes env: "api env = dfile" "sends_all env" and rep: "rep (data_store s) a"
    and unl: "file_lock s = Unlocked" and reads: "\<not> read_failed dfile placed a" and some: "bytes a \<noteq> []"
    and first: "first_read dfile placed a e"
    and pl: "place t = After_loop" "\<not> ioctl_found t"
  shows "\<exists>t1 s1. reaches env (t, s) (t1, s1) \<and> place t1 = Send_lseek \<and>
    opened (data_store s1) (global_fd s1) a \<and> file_lock s1 = Unlocked \<and> outbox t1 = outbox t @ e"
proof -
  obtain h1 where h1: "reopen_file env (handler_of t s) = Ret h1" "placed (store h1) (file_fd h1) 0 a"
    "fileMutex h1 = Locked" "sent h1 = outbox t"
    using reopen_effect [OF env(1), of "handler_of t s" a] rep unl by auto
  obtain t1 s1 where r1: "reaches env (t, s) (t1, s1)" "agrees h1 t1 s1" "place t1 = Send_lseek"
    using reopen_run [of False "handler_of t s" env h1 t s] h1(1) pl by auto
  have s1: "placed (data_store s1) (global_fd s1) 0 a" "file_lock s1 = Locked" "outbox t1 = outbox t"
    using h1 r1(2) by (simp_all add: agrees_def)
  obtain x f0 where ls: "api_lseek dfile (global_fd s1) (data_store s1) = Ret (x, f0)"
    and at0: "placed f0 (global_fd s1) 0 a"
    using lseek_at [OF s1(1)] by auto
  obtain r d f where rd: "api_read dfile (global_fd s1) BUF_LEN f0 = Ret (r, d, f)"
    and cs: "r = -1 \<and> opened f (global_fd s1) a \<or>
      r = int (length d) \<and> placed f (global_fd s1) (0 + length d) a \<and>
      (\<exists>rest. drop 0 (bytes a) = d @ rest) \<and> (d = [] \<longleftrightarrow> length (bytes a) \<le> 0)"
    using read_at [OF at0] by blast
  have "r \<noteq> -1" using reads at0 rd by (auto simp: read_failed_def)
  then have ok: "r = int (length d)" "opened f (global_fd s1) a" "d \<noteq> []" "d = e"
    using cs some at_opened at0 rd first by (auto simp: first_read_def)
  let ?t2 = "t1\<lparr>place := Send_unlock, send_buffer := d\<rparr>" and ?s2 = "s1\<lparr>data_store := f\<rparr>"
  let ?t3 = "?t2\<lparr>place := Send_data, holds := False\<rparr>"
  let ?s3 = "?s2\<lparr>file_lock := Unlocked, foreign := foreign s1 + (if holds t1 then 0 else 1)\<rparr>"
  let ?t4 = "?t3\<lparr>place := Send_lseek, outbox := outbox t1 @ d\<rparr>"
  have 1: "session_step env t1 s1 = Ret (t1\<lparr>place := Send_read\<rparr>, s1\<lparr>data_store := f0\<rparr>)"
    using env r1(3) ls by (simp add: session_step_def)
  have 2: "session_step env (t1\<lparr>place := Send_read\<rparr>) (s1\<lparr>data_store := f0\<rparr>) = Ret (?t2, ?s2)"
    using env rd ok by (simp add: session_step_def)
  have 3: "session_step env ?t2 ?s2 = Ret (?t3, ?s3)" using s1(2) by (simp add: session_step_def give_lock_def)
  have 4: "session_step env ?t3 ?s3 = Ret (?t4, ?s3)" using env(2) by (simp add: session_step_def sends_all_def)
  have "reaches env (t, s) (?t4, ?s3)"
    using reaches_trans [OF r1(1) reaches_step [OF 1 reaches_step [OF 2 reaches_step [OF 3 reaches_one [OF 4]]]]] .
  then show ?thesis using ok s1(3) by (intro exI [of _ ?t4] exI [of _ ?s3]) auto
qed

lemma closed_send_run:
  assumes env: "api env = dfile" and cl: "closed (data_store s) (global_fd s) a"
    and pl: "place t = Send_lseek"
  shows "\<exists>t1 s1. reaches env (t, s) (t1, s1) \<and> place t1 = End_close \<and> outbox t1 = outbox t \<and>
    closed (data_store s1) (global_fd s1) a \<and> file_lock s1 = file_lock s"
proof -
  obtain x f0 where ls: "api_lseek dfile (global_fd s) (data_store s) = Ret (x, f0)" "closed f0 (global_fd s) a"
    using lseek_closed [OF cl] by blast
  obtain bs f where rd: "api_read dfile (global_fd s) BUF_LEN f0 = Ret (-1, bs, f)" "closed f (global_fd s) a"
    using read_closed [OF ls(2)] by blast
  have 1: "session_step env t s = Ret (t\<lparr>place := Send_read\<rparr>, s\<lparr>data_store := f0\<rparr>)"
    using env pl ls by (simp add: session_step_def)
  have 2: "session_step env (t\<lparr>place := Send_read\<rparr>) (s\<lparr>data_store := f0\<rparr>) =
      Ret (t\<lparr>place := End_close\<rparr>, s\<lparr>data_store := f\<rparr>)"
    using env rd by (simp add: session_step_def)
  show ?thesis using reaches_step [OF 1 reaches_one [OF 2]] rd(2)
    by (intro exI [of _ "t\<lparr>place := End_close\<rparr>"] exI [of _ "s\<lparr>data_store := f\<rparr>"]) simp
qed

text \<open>A whole message of another session, which leaves its descriptor closed.\<close>

lemma message_run:
  assumes env: "api env = dfile" and bs: "bs \<noteq> []" "last bs = newline" "length bs \<le> BUF_LEN"
    and data: "no_seek env (Recv bs # rs) (replicate BUF_LEN 0)"
    and unl: "file_lock s = Unlocked" and rep: "rep (data_store s) a"
  shows "\<exists>u1 s1 r b. reaches env (new_session env (Recv bs # rs), s) (u1, s1) \<and> place u1 = After_loop \<and>
    \<not> ioctl_found u1 \<and> outbox u1 = [] \<and> written bs a r b \<and>
    closed (data_store s1) (global_fd s1) b \<and> file_lock s1 = Unlocked"
proof -
  obtain u s0 where u: "reaches env (new_session env (Recv bs # rs), s) (u, s0)" "place u = Write_data"
    "received u = bs" "\<not> ioctl_found u" "outbox u = []" "writable (data_store s0) (global_fd s0) a"
    "file_lock s0 = Locked"
    using open_message_run [OF bs(1) data unl rep env] by blast
  obtain r f b where w: "api_write dfile (global_fd s0) bs (data_store s0) = Ret (r, f)" "written bs a r b"
    "opened f (global_fd s0) b"
    using write_writable [OF u(6) bs(1,3)] writable_opened by blast
  let ?u1 = "u\<lparr>place := Write_close\<rparr>" and ?s1 = "s0\<lparr>data_store := f\<rparr>"
  let ?u2 = "u\<lparr>place := Write_unlock\<rparr>" and ?s2 = "close_data env ?s1"
  let ?u3 = "u\<lparr>place := Check_newline, holds := False\<rparr>"
  let ?s3 = "?s2\<lparr>file_lock := Unlocked, foreign := foreign ?s2 + (if holds u then 0 else 1)\<rparr>"
  let ?u4 = "?u3\<lparr>place := After_loop\<rparr>"
  have 1: "session_step env u s0 = Ret (?u1, ?s1)" using u w env by (simp add: session_step_def)
  have 2: "session_step env ?u1 ?s1 = Ret (?u2, ?s2)" by (simp add: session_step_def)
  have 3: "session_step env ?u2 ?s2 = Ret (?u3, ?s3)"
    using u(7) by (simp add: session_step_def give_lock_def close_data_def)
  have 4: "session_step env ?u3 ?s3 = Ret (?u4, ?s3)" using u(3) bs(2) by (simp add: session_step_def)
  have "closed (data_store ?s3) (global_fd ?s3) b" using close_closed [OF w(3)] env by (simp add: close_data_def)
  then show ?thesis
    using reaches_trans [OF u(1) reaches_step [OF 1 reaches_step [OF 2 reaches_step [OF 3 reaches_one [OF 4]]]]] u w(2)
    by (intro exI [of _ ?u4] exI [of _ ?s3] exI [of _ r] exI [of _ b]) simp
qed

lemma reply_cut:
  assumes env: "api env = dfile" "sends_all env" and rep: "rep (data_store (shared w)) a"
    and unl: "file_lock (shared w) = Unlocked" and reads: "\<forall>a. \<not> read_failed dfile placed a"
    and some: "bytes a \<noteq> []" and first: "first_read dfile placed a d"
    and msg: "bs \<noteq> []" "last bs = newline" "length bs \<le> BUF_LEN"
      "no_seek env (Recv bs # rs) (replicate BUF_LEN 0)"
  shows "\<exists>w' t u r b. runs env (with_pair w (shared w) (new_session env []) (new_session env (Recv bs # rs))) w' \<and>
    sessions w' = sessions w @ [t, u] \<and>
    place t = Done \<and> complete t = 1 \<and> place u = Done \<and> complete u = 1 \<and>
    written bs a r b \<and> rep (data_store (shared w')) b \<and>
    outbox t = d \<and> outbox u = bytes b"
proof -
  let ?t = "new_session env []" and ?u = "new_session env (Recv bs # rs)" and ?s = "shared w"
  have t0: "reaches env (?t, ?s) (?t\<lparr>place := After_loop\<rparr>, ?s)"
    by (rule reaches_one) (simp add: session_step_def new_session_def receive_def)
  obtain t1 s1 where t1: "reaches env (?t\<lparr>place := After_loop\<rparr>, ?s) (t1, s1)" "place t1 = Send_lseek"
    "opened (data_store s1) (global_fd s1) a" "file_lock s1 = Unlocked" "outbox t1 = d"
    using first_send_run [OF env rep unl _ some first, of "?t\<lparr>place := After_loop\<rparr>"] reads
    by (auto simp: new_session_def)
  have rep1: "rep (data_store s1) a" by (rule opened_rep [OF t1(3)])
  obtain u2 s2 r b where u2: "reaches env (?u, s1) (u2, s2)" "place u2 = After_loop" "\<not> ioctl_found u2"
    "outbox u2 = []" "written bs a r b" "closed (data_store s2) (global_fd s2) b" "file_lock s2 = Unlocked"
    using message_run [OF env(1) msg(1-4) t1(4) rep1] by blast
  obtain t3 s3 where t3: "reaches env (t1, s2) (t3, s3)" "place t3 = End_close" "outbox t3 = outbox t1"
    "closed (data_store s3) (global_fd s3) b" "file_lock s3 = Unlocked"
    using closed_send_run [OF env(1) u2(6) t1(2)] u2(7) by auto
  obtain t4 s4 where t4: "reaches env (t3, s3) (t4, s4)" "place t4 = Done" "complete t4 = 1"
    "outbox t4 = outbox t3" "closed (data_store s4) (global_fd s4) b" "file_lock s4 = Unlocked"
    using close_run [OF env(1) close_again [OF t3(4)] t3(2)] t3(5) by auto
  obtain u5 s5 where u5: "reaches env (u2, s4) (u5, s5)" "place u5 = End_close"
    "opened (data_store s5) (global_fd s5) b" "outbox u5 = bytes b" "file_lock s5 \<noteq> Destroyed"
    using read_back_run [OF env closed_rep [OF t4(5)] t4(6) _ u2(2,3)] reads u2(4) by fastforce
  obtain u6 s6 where u6: "reaches env (u5, s5) (u6, s6)" "place u6 = Done" "complete u6 = 1"
    "outbox u6 = outbox u5" "closed (data_store s6) (global_fd s6) b"
    using close_run [OF env(1) close_closed [OF u5(3)] u5(2,5)] by blast
  have "runs env (with_pair w ?s ?t ?u) (with_pair w s6 t4 u6)"
    using left_run [OF reaches_trans [OF t0 t1(1)]] right_run [OF u2(1)] left_run [OF reaches_trans [OF t3(1) t4(1)]]
      right_run [OF reaches_trans [OF u5(1) u6(1)]]
    by (meson runs_trans)
  then show ?thesis using t1 t3 t4 u2(5) u5 u6 closed_rep [OF u6(5)]
    by (intro exI [of _ "with_pair w s6 t4 u6"] exI [of _ t4] exI [of _ u6] exI [of _ r] exI [of _ b])
      (simp add: with_pair_def)
qed

end

subsection \<open>The device and the regular file\<close>

definition dev_closed :: "kernel \<Rightarrow> system \<Rightarrow> int \<Rightarrow> log \<Rightarrow> bool" where
  "dev_closed k s fd a \<longleftrightarrow> dev_free k s a \<and> files s (nat fd) = None"

lemma dev_write_closed:
  assumes "dev_closed k s fd a"
  shows "\<exists>s'. api_write (dev_api k oob oobe new_fd) fd bs s = Ret (-1, s') \<and> dev_closed k s' fd a"
proof -
  let ?s = "s\<lparr>sworld := (sworld s)\<lparr>user := put_user (user (sworld s)) user_buf bs\<rparr>\<rparr>"
  have "api_write (dev_api k oob oobe new_fd) fd bs s = Ret (-1, ?s)"
    using assms by (simp add: dev_api_def Let_def with_file_def dev_closed_def libc_result_def)
  moreover have "dev_closed k ?s fd a" using assms by (simp add: dev_closed_def dev_free_def log_abs_def)
  ultimately show ?thesis by blast
qed

lemma dev_close_opened: "dev_opened k s fd a \<Longrightarrow> dev_closed k (snd (api_close (dev_api k oob oobe new_fd) fd s)) fd a"
  using dev_close [of k s fd a oob oobe new_fd]
  by (auto simp: dev_closed_def dev_opened_def dev_api_def Let_def aesd_fops_def aesd_release_def with_file_def)

lemma dev_close_again: "dev_closed k s fd a \<Longrightarrow> dev_closed k (snd (api_close (dev_api k oob oobe new_fd) fd s)) fd a"
  by (simp add: dev_closed_def dev_api_def Let_def with_file_def)

lemma dev_lseek_closed:
  "dev_closed k s fd a \<Longrightarrow> \<exists>r s'. api_lseek (dev_api k oob oobe new_fd) fd s = Ret (r, s') \<and> dev_closed k s' fd a"
  by (auto simp: dev_closed_def dev_api_def Let_def with_file_def)

lemma dev_read_closed:
  "dev_closed k s fd a \<Longrightarrow>
     \<exists>bs s'. api_read (dev_api k oob oobe new_fd) fd BUF_LEN s = Ret (-1, bs, s') \<and> dev_closed k s' fd a"
  by (auto simp: dev_closed_def dev_api_def Let_def with_file_def libc_result_def)

lemma dev_written_grows:
  assumes "dev_written bs a r b" and "log_bytes a \<noteq> []"
  shows "log_bytes b \<noteq> []"
proof (cases "fst b = fst a")
  case True
  then show ?thesis using assms(2) by (simp add: log_bytes_def)
next
  case False
  then obtain q where nl: "newline \<in> set bs" and b: "fst b = push (fst a) (q @ first_packet bs)"
    using assms(1) by (auto simp: dev_written_def split: if_splits)
  have "first_packet bs \<noteq> []" using nl by (simp add: first_packet_def)
  then show ?thesis using b by (auto simp: log_bytes_def push_def)
qed

interpretation dev_fds: data_file_fds "dev_api k oob oobe new_fd" "dev_free k" "dev_opened k" "dev_writable k" "dev_placed k"
    log_bytes dev_written "dev_closed k" for k oob oobe new_fd
proof
  show "dev_free k f a" if "dev_opened k f fd a" for f fd a using that by (simp add: dev_opened_def)
  show "dev_free k f a" if "dev_closed k f fd a" for f fd a using that by (simp add: dev_closed_def)
qed (fact dev_close_opened dev_write_closed dev_close_again dev_lseek_closed dev_read_closed dev_written_grows)+

text \<open>A read at the start of the device returns at most the first packet, which is what is cut off.\<close>

lemma dev_first_read:
  assumes "fst a = x # xs" and "x \<noteq> []"
  shows "first_read (dev_api k oob oobe new_fd) (dev_placed k) a (take BUF_LEN x)"
  unfolding first_read_def
proof (intro allI impI)
  fix f fd r bs f'
  assume pl: "dev_placed k f fd 0 a"
    and rd: "api_read (dev_api k oob oobe new_fd) fd BUF_LEN f = Ret (r, bs, f')" "r \<noteq> -1"
  from dev_read_packet [OF pl, of oob oobe new_fd] rd have "bs = next_read (fst a) 0 BUF_LEN" by auto
  then show "bs = take BUF_LEN x" using assms by (simp add: next_read_def)
qed

definition plain_closed :: "plain_file \<Rightarrow> int \<Rightarrow> byte list \<Rightarrow> bool" where
  "plain_closed f fd a \<longleftrightarrow> content f = a \<and> positions f fd = None"

interpretation plain_fds: data_file_fds "plain_api new_fd" plain_rep plain_opened plain_writable plain_placed "\<lambda>a. a"
    appended plain_closed for new_fd
  by unfold_locales
    (auto simp: plain_api_def plain_rep_def plain_opened_def plain_closed_def appended_def)

end
