(* ===== verification/Simple_Interleaving.thy ===== *)
theory Simple_Interleaving
  imports Lost_Message
begin

text \<open>
  The handlers of \<^verbatim>\<open>server/aesdsocket-simple.c\<close> statement by statement, and the simulation that relates
  them to those of \<^verbatim>\<open>aesdsocket.c\<close>: as long as no client sends a seek command, every interleaving of
  the one is an interleaving of the other, without the calls of \<open>lseek\<close>.
\<close>

subsection \<open>The statements\<close>

definition simple_receive :: "session \<Rightarrow> session" where
  "simple_receive t =
     (case inbox t of
        Recv bs # rs \<Rightarrow>
          if bs = [] then t\<lparr>place := After_loop\<rparr>
          else t\<lparr>place := Write_lock, inbox := rs, receive_buffer := bs @ drop (length bs) (receive_buffer t),
                 received := bs\<rparr>
      | _ \<Rightarrow> t\<lparr>place := After_loop\<rparr>)"

text \<open>
  The places of the seek command and of \<open>lseek\<close> do not exist in this program; the other statements
  are the same text.
\<close>

definition simple_session_step ::
  "'f client_env \<Rightarrow> session \<Rightarrow> 'f shared \<Rightarrow> (session \<times> 'f shared) outcome"
where
  "simple_session_step env t s =
     (case place t of
        Receive \<Rightarrow> Ret (simple_receive t, s)
      | After_loop \<Rightarrow> Ret (t\<lparr>place := Read_lock\<rparr>, s)
      | Read_open \<Rightarrow> Ret (t\<lparr>place := Send_read\<rparr>, open_data env Read_only s)
      | Send_data \<Rightarrow> Ret (t\<lparr>place := Send_read,
            outbox := outbox t @ take (nat (send_r env (send_buffer t))) (send_buffer t)\<rparr>, s)
      | Seek_lock \<Rightarrow> Blocked
      | Seek_open \<Rightarrow> Blocked
      | Seek_ioctl \<Rightarrow> Blocked
      | Send_lseek \<Rightarrow> Blocked
      | _ \<Rightarrow> session_step env t s)"

fun simple_schedule :: "'f client_env \<Rightarrow> nat list \<Rightarrow> 'f server \<Rightarrow> 'f server outcome" where
  "simple_schedule env [] w = Ret w"
| "simple_schedule env (i # is) w =
     (if i < length (sessions w)
      then obind (simple_session_step env (sessions w ! i) (shared w)) (\<lambda>(t, s).
             simple_schedule env is (w\<lparr>shared := s, sessions := (sessions w)[i := t]\<rparr>))
      else Blocked)"

subsection \<open>Sessions without a seek command\<close>

fun seek_place :: "place \<Rightarrow> bool" where
  "seek_place Seek_lock \<longleftrightarrow> True"
| "seek_place Seek_open \<longleftrightarrow> True"
| "seek_place Seek_ioctl \<longleftrightarrow> True"
| "seek_place p \<longleftrightarrow> False"

definition data_only :: "'f client_env \<Rightarrow> session \<Rightarrow> bool" where
  "data_only env t \<longleftrightarrow> \<not> ioctl_found t \<and> \<not> seek_place (place t) \<and>
     (place t = Receive \<longrightarrow> no_seek env (inbox t) (receive_buffer t)) \<and>
     (place t \<in> {Write_lock, Write_open, Write_data, Write_close, Write_unlock, Check_newline} \<longrightarrow>
        last (received t) = newline \<or> no_seek env (inbox t) (receive_buffer t))"

text \<open>The same session in the simple server.\<close>

definition without_lseek :: "session \<Rightarrow> session" where
  "without_lseek t = t\<lparr>place := (if place t = Send_lseek then Send_read else place t)\<rparr>"

definition simple_server :: "'f server \<Rightarrow> 'f server" where
  "simple_server w = w\<lparr>sessions := map without_lseek (sessions w)\<rparr>"

lemma without_lseek_id: "place t \<noteq> Send_lseek \<Longrightarrow> without_lseek t = t"
  by (cases t) (simp add: without_lseek_def)

lemma without_lseek_place:
  "without_lseek (t\<lparr>place := p\<rparr>) = t\<lparr>place := (if p = Send_lseek then Send_read else p)\<rparr>"
  by (simp add: without_lseek_def)

lemma receive_data_only:
  assumes "data_only env t" and "place t = Receive"
  shows "data_only env (receive env t) \<and> simple_receive t = receive env t \<and> place (receive env t) \<noteq> Send_lseek"
proof (cases "inbox t")
  case Nil
  then show ?thesis using assms by (simp add: receive_def simple_receive_def data_only_def)
next
  case (Cons r rs)
  show ?thesis
  proof (cases r)
    case Recv_error
    then show ?thesis using assms Cons by (simp add: receive_def simple_receive_def data_only_def)
  next
    case (Recv bs)
    show ?thesis
    proof (cases "bs = []")
      case True
      then show ?thesis using assms Cons Recv by (simp add: receive_def simple_receive_def data_only_def)
    next
      case False
      then have "\<not> contains ioctl_cmd (c_string (bs @ drop (length bs) (receive_buffer t)) (beyond env))"
        "last bs = newline \<or> no_seek env rs (bs @ drop (length bs) (receive_buffer t))"
        using assms Cons Recv by (simp_all add: data_only_def)
      then show ?thesis using assms Cons Recv False
        by (cases t) (simp add: receive_def simple_receive_def data_only_def Let_def)
    qed
  qed
qed

lemma simple_step:
  assumes d: "data_only env t" and ls: "\<forall>fd f. \<exists>r. api_lseek (api env) fd f = Ret (r, f)"
    and st: "session_step env t s = Ret (t', s')"
  shows "data_only env t' \<and>
    (if place t = Send_lseek then without_lseek t' = without_lseek t \<and> s' = s
     else simple_session_step env (without_lseek t) s = Ret (without_lseek t', s'))"
proof (cases "place t")
  case Receive
  then show ?thesis using receive_data_only [OF d Receive] st
    by (auto simp: session_step_def simple_session_step_def without_lseek_id)
next
  case Send_lseek
  obtain r where "api_lseek (api env) (global_fd s) (data_store s) = Ret (r, data_store s)" using ls by blast
  then show ?thesis using st d Send_lseek by (auto simp: session_step_def without_lseek_def data_only_def)
next
  case Send_read
  then obtain r bs f where "api_read (api env) (global_fd s) BUF_LEN (data_store s) = Ret (r, bs, f)"
    using st by (auto simp: session_step_def obind_Ret_iff)
  then show ?thesis using st d Send_read
    by (cases "r = -1 \<or> r = 0")
      (auto simp: session_step_def simple_session_step_def without_lseek_def data_only_def)
next
  case Check_newline
  then show ?thesis using st d
    by (cases "last (received t) = newline")
      (auto simp: session_step_def simple_session_step_def without_lseek_def data_only_def)
next
  case After_loop
  then show ?thesis using st d
    by (auto simp: session_step_def simple_session_step_def without_lseek_id data_only_def)
next
  case Read_open
  then show ?thesis using st d
    by (auto simp: session_step_def simple_session_step_def without_lseek_id without_lseek_place data_only_def)
next
  case Send_data
  then show ?thesis using st d
    by (auto simp: session_step_def simple_session_step_def without_lseek_def data_only_def)
qed (use st d in \<open>auto simp: session_step_def simple_session_step_def without_lseek_id data_only_def
      obind_Ret_iff take_lock_def give_lock_def\<close>)

text \<open>The schedule of the simple server leaves the calls of \<open>lseek\<close> out.\<close>

lemma simple_simulation:
  assumes ls: "\<forall>fd f. \<exists>r. api_lseek (api env) fd f = Ret (r, f)"
  shows "run_schedule env is w = Ret w' \<Longrightarrow> \<forall>t \<in> set (sessions w). data_only env t \<Longrightarrow>
    (\<exists>js. simple_schedule env js (simple_server w) = Ret (simple_server w')) \<and>
    (\<forall>t \<in> set (sessions w'). data_only env t)"
proof (induction "is" arbitrary: w)
  case Nil
  then show ?case by (auto intro: exI [of _ "[]"])
next
  case (Cons i "is")
  from Cons.prems(1) obtain t s where i: "i < length (sessions w)"
    and st: "session_step env (sessions w ! i) (shared w) = Ret (t, s)"
    and rest: "run_schedule env is (w\<lparr>shared := s, sessions := (sessions w)[i := t]\<rparr>) = Ret w'"
    by (auto simp: obind_Ret_iff split: if_splits)
  let ?w = "w\<lparr>shared := s, sessions := (sessions w)[i := t]\<rparr>" and ?t = "sessions w ! i"
  have d: "data_only env ?t" using Cons.prems(2) i by simp
  note sim = simple_step [OF d ls st]
  have all: "\<forall>u \<in> set (sessions ?w). data_only env u"
    using Cons.prems(2) sim set_update_subset_insert [of "sessions w" i t] by auto
  obtain js where js: "simple_schedule env js (simple_server ?w) = Ret (simple_server w')"
    and last: "\<forall>t \<in> set (sessions w'). data_only env t"
    using Cons.IH [OF rest all] by blast
  have up: "map without_lseek ((sessions w)[i := t]) = (map without_lseek (sessions w))[i := without_lseek t]"
    by (simp add: map_update)
  show ?case
  proof (cases "place ?t = Send_lseek")
    case True
    then have "(map without_lseek (sessions w))[i := without_lseek t] = map without_lseek (sessions w)" "s = shared w"
      using sim i by (simp_all add: list_update_same_conv)
    then have "simple_server ?w = simple_server w" by (simp add: simple_server_def up)
    then show ?thesis using js last by auto
  next
    case False
    then have "simple_session_step env (without_lseek ?t) (shared w) = Ret (without_lseek t, s)" using sim by simp
    then have "simple_schedule env (i # js) (simple_server w) = Ret (simple_server w')"
      using js i by (simp add: simple_server_def up)
    then show ?thesis using last by blast
  qed
qed

end
