(* ===== verification/Interleaving_Properties.thy ===== *)
theory Interleaving_Properties
  imports Simple_Interleaving Server_Properties
begin

text \<open>
  The properties of several sessions at once: what a session does when the others stand still, how
  far the file mutex keeps them apart, and what goes wrong when it does not.
\<close>

subsection \<open>One session\<close>

text \<open>C8: a new client whose session runs to its end while all others stand still does exactly what
  \<open>client_handler\<close> says: if that function returns, the statements of the session lead to a state in
  which the session is over, with the same bytes sent, the same data file, descriptor and mutex, and
  all other sessions unchanged.\<close>

theorem session_alone_is_handler:
  assumes run: "client_handler env rs h = Some (Ret h')"
    and fresh: "sent h = []" "isComplete h = 0" "client_open h"
    and same: "data_store (shared w) = store h" "global_fd (shared w) = file_fd h"
      "file_lock (shared w) = fileMutex h"
  shows "\<exists>w' t. (server_step env)\<^sup>*\<^sup>* w w' \<and> sessions w' = sessions w @ [t] \<and> place t = Done \<and>
    outbox t = sent h' \<and> complete t = isComplete h' \<and> data_store (shared w') = store h' \<and>
    global_fd (shared w') = file_fd h' \<and> file_lock (shared w') = fileMutex h'"
proof -
  let ?t = "new_session env rs" and ?n = "length (sessions w)"
  let ?w = "w\<lparr>sessions := sessions w @ [?t]\<rparr>"
  have "agrees h ?t (shared w)" using fresh same by (simp add: agrees_def new_session_def)
  from client_handler_run [OF run this] obtain t s
    where t: "reaches env (?t, shared w) (t, s)" "agrees h' t s" "place t = Done"
    by (auto simp: new_session_def)
  have "(server_step env)\<^sup>*\<^sup>* ?w (?w\<lparr>shared := s, sessions := (sessions ?w)[?n := t]\<rparr>)"
    using t(1) by (intro reaches_server) simp_all
  then have "(server_step env)\<^sup>*\<^sup>* w (?w\<lparr>shared := s, sessions := sessions w @ [t]\<rparr>)"
    using server_step.new_client [of env w rs] by (simp add: converse_rtranclp_into_rtranclp)
  then show ?thesis using t(2,3)
    by (intro exI [of _ "?w\<lparr>shared := s, sessions := sessions w @ [t]\<rparr>"] exI [of _ t])
      (simp add: agrees_def)
qed

definition small_env :: "plain_file client_env" where
  "small_env = plain_env (plain_api lowest_fd)"

definition empty_file :: plain_file where
  "empty_file = \<lparr>content = [], positions = Map.empty, for_writing = {}\<rparr>"

theorem session_alone_is_handler_witness:
  "\<exists>w' t. (server_step small_env)\<^sup>*\<^sup>* (idle_server empty_file) w' \<and> sessions w' = [t] \<and> place t = Done \<and>
     complete t = 1"
proof -
  let ?h = "new_handler empty_file"
  have ns: "no_seek small_env [Recv [104, 10]] (replicate BUF_LEN 0)"
    by (rule no_seek_one) (simp_all add: ioctl_cmd_def bytes_of_def)
  have "plain_rep (store ?h) []" "api small_env = plain_api lowest_fd" "sends_all small_env"
    by (simp_all add: plain_rep_def empty_file_def small_env_def)
  from plain.client_handler_effect [OF this(2,3,1) new_handler_simps(2) _ ns]
  obtain h' where h': "client_handler small_env [Recv [104, 10]] ?h = Some (Ret h')" "isComplete h' = 1"
    by (auto simp: BUF_LEN_def served_def)
  from session_alone_is_handler [OF h'(1), of "idle_server empty_file"] h'(2)
  show ?thesis by (auto simp: new_handler_def idle_server_def)
qed

subsection \<open>Mutual exclusion\<close>

text \<open>C18: in every reachable state of the server in which no handler has yet unlocked the mutex without
  holding it, at most one handler holds it, and only while it is locked; and in every reachable state
  whatsoever a handler that is opening, writing or closing the file for a message, or opening it for
  sending, has locked the mutex and not unlocked it since.\<close>

theorem handlers_exclude_each_other:
  assumes "(server_step env)\<^sup>*\<^sup>* (idle_server f) w" and "i < length (sessions w)"
  shows "(guarded (place (sessions w ! i)) \<longrightarrow> holds (sessions w ! i)) \<and>
    (foreign (shared w) = 0 \<and> holds (sessions w ! i) \<longrightarrow>
      file_lock (shared w) = Locked \<and> (\<forall>j < length (sessions w). holds (sessions w ! j) \<longrightarrow> j = i))"
  using reachable_lock_inv [OF assms(1)] assms(2) by (auto simp: lock_inv_def one_holder_def)

theorem handlers_exclude_each_other_witness:
  "\<exists>w. (server_step small_env)\<^sup>*\<^sup>* (idle_server empty_file) w \<and> length (sessions w) = 1 \<and>
     (guarded (place (sessions w ! 0)) \<longrightarrow> holds (sessions w ! 0))"
proof -
  let ?w = "(idle_server empty_file)\<lparr>sessions := sessions (idle_server empty_file) @ [new_session small_env []]\<rparr>"
  have "(server_step small_env)\<^sup>*\<^sup>* (idle_server empty_file) ?w"
    using server_step.new_client by (rule r_into_rtranclp)
  from handlers_exclude_each_other [OF this, of 0] this show ?thesis
    by (intro exI [of _ ?w]) (auto simp: idle_server_def)
qed

subsection \<open>A lost message\<close>

definition two_clients :: "plain_file server" where
  "two_clients = (idle_server empty_file)\<lparr>sessions := [new_session small_env [Recv [97, 10]],
     new_session small_env [Recv [98, 10]]]\<rparr>"

text \<open>
  The first session runs until it has read the end of the file; the second opens the file for its
  message; the first ends, and closes the descriptor in \<open>file_fd\<close>, which is the other's.
\<close>

definition losing_schedule :: "nat list" where
  "losing_schedule = replicate 16 0 @ replicate 3 1 @ replicate 4 0 @ replicate 17 1"

lemma two_clients_reachable: "(server_step small_env)\<^sup>*\<^sup>* (idle_server empty_file) two_clients"
proof -
  let ?w = "(idle_server empty_file)\<lparr>sessions := [new_session small_env [Recv [97, 10]]]\<rparr>"
  have "server_step small_env (idle_server empty_file) ?w"
    using server_step.new_client [of small_env "idle_server empty_file"] by (simp add: idle_server_def)
  moreover have "server_step small_env ?w two_clients"
    using server_step.new_client [of small_env ?w "[Recv [98, 10]]"] by (simp add: two_clients_def)
  ultimately show ?thesis by (meson converse_rtranclp_into_rtranclp r_into_rtranclp)
qed

lemma receive_data:
  assumes "inbox t = [Recv bs]" "receive_buffer t = replicate BUF_LEN 0" "bs \<noteq> []" "length bs < 1024"
    and "\<not> contains ioctl_cmd (takeWhile (\<lambda>b. b \<noteq> 0) bs)"
  shows "receive env t = t\<lparr>place := Write_lock, inbox := [], received := bs,
      receive_buffer := bs @ drop (length bs) (replicate BUF_LEN 0), ioctl_found := False\<rparr>"
  using assms fresh_text [of bs "beyond env"] by (simp add: receive_def Let_def)

lemma lowest_fd_34:
  "ps 3 = None \<Longrightarrow> lowest_fd ps = 3" "ps 3 \<noteq> None \<Longrightarrow> ps 4 = None \<Longrightarrow> lowest_fd ps = 4"
  using lowest_from.simps(2) [of 999 3 ps] lowest_from.simps(2) [of 998 4 ps]
  by (simp_all add: lowest_fd_def)

lemma take_BUF_LEN: "length xs \<le> 1024 \<Longrightarrow> take BUF_LEN xs = xs" "n \<le> 1024 \<Longrightarrow> min n BUF_LEN = n"
  by (simp_all add: BUF_LEN_def)

lemmas run_simps = session_step_def receive_data take_lock_def give_lock_def open_data_def close_data_def
  small_env_def plain_env_def plain_api_def lowest_fd_34 take_BUF_LEN Let_def ioctl_cmd_def bytes_of_def

text \<open>With two clients that each send one line, on a regular file, the statements can be ordered so
  that both sessions end as complete, but the message of the second never gets into the file: the
  first has closed its descriptor, and the failed write is not noticed.\<close>

theorem session_message_lost:
  "\<exists>w a b. (server_step small_env)\<^sup>*\<^sup>* (idle_server empty_file) w \<and> sessions w = [a, b] \<and>
     place a = Done \<and> complete a = 1 \<and> place b = Done \<and> complete b = 1 \<and> received b = [98, 10] \<and>
     content (data_store (shared w)) = [97, 10]"
proof -
  have "\<exists>w a b. run_schedule small_env losing_schedule two_clients = Ret w \<and> sessions w = [a, b] \<and>
     place a = Done \<and> complete a = 1 \<and> place b = Done \<and> complete b = 1 \<and> received b = [98, 10] \<and>
     content (data_store (shared w)) = [97, 10]"
    by (simp add: losing_schedule_def two_clients_def idle_server_def new_session_def empty_file_def
        eval_nat_numeral) (simp add: run_simps)
  then show ?thesis using run_schedule_steps two_clients_reachable by (blast intro: rtranclp_trans)
qed

subsection \<open>A lost message on the device\<close>

text \<open>C19: on the character device with a log that is not empty, whatever sessions there already are, with
  the file mutex free and copies and sends that do not fail: a client that sends anything but a seek
  command and a client that sends a line can be served so that both sessions end as complete and
  both clients get the whole log, but the log holds the messages of the first only. The first
  session, at its end, has closed the descriptor that the second had opened for its message, and
  the failed write is not noticed.\<close>

theorem device_message_lost:
  assumes kok: "kernel_ok k" and log: "log_abs k (data_store (shared w)) l" "concat (fst l) \<noteq> []"
    and free: "\<not> lock (device (sworld (data_store (shared w))))" and unl: "file_lock (shared w) = Unlocked"
    and env: "api env = dev_api k oob oobe new_fd" "sends_all env"
    and copies: "\<forall>m u bs. fst (copy_to_user k m u bs) = 0"
    and small: "\<forall>bs \<in> set (chunks rs). length bs \<le> BUF_LEN"
    and data: "no_seek env rs (replicate BUF_LEN 0)"
    and msg: "bs \<noteq> []" "last bs = newline" "no_seek env [Recv bs] (replicate BUF_LEN 0)"
  shows "\<exists>w' t u l'. (server_step env)\<^sup>*\<^sup>* (w\<lparr>sessions := sessions w @ [new_session env rs, new_session env [Recv bs]]\<rparr>) w' \<and>
    sessions w' = sessions w @ [t, u] \<and>
    place t = Done \<and> complete t = 1 \<and> outbox t = concat (fst l') \<and>
    place u = Done \<and> complete u = 1 \<and> outbox u = concat (fst l') \<and>
    written_all dev_written (chunks rs) l l' \<and> log_abs k (data_store (shared w')) l'"
proof -
  have rep: "dev_free k (data_store (shared w)) l" using kok log free by (simp add: dev_free_def)
  have reads: "\<forall>a. \<not> read_failed (dev_api k oob oobe new_fd) (dev_placed k) a"
    using dev_never_fails [OF copies] by blast
  have some: "log_bytes l \<noteq> []" using log(2) by (simp add: log_bytes_def)
  from dev_fds.message_lost [OF env rep unl reads some small data msg] show ?thesis
    by (fastforce simp: dev_free_def log_bytes_def with_pair_def runs_def dest: run_schedule_steps)
qed

theorem device_message_lost_witness:
  "\<exists>w' t u l'. (server_step (plain_env example_dev))\<^sup>*\<^sup>* ((idle_server two_system)\<lparr>sessions :=
       [new_session (plain_env example_dev) [Recv [100, 10]],
        new_session (plain_env example_dev) [Recv [101, 10]]]\<rparr>) w' \<and>
     sessions w' = [t, u] \<and> complete u = 1 \<and>
     written_all dev_written [[100, 10]] ([[97, 98, 10], [99, 10]], Some []) l' \<and>
     log_abs example_kernel (data_store (shared w')) l'"
proof -
  have ns: "no_seek (plain_env example_dev) [Recv [b, 10]] (replicate BUF_LEN 0)" for b
    by (rule no_seek_one) (simp_all add: ioctl_cmd_def bytes_of_def)
  from device_message_lost [OF example_kernel_ok _ _ _ _ _ _ example_copies(1) _ ns [of 100] _ _ ns [of 101],
      where w = "idle_server two_system"] two_system_log
  show ?thesis by (fastforce simp: BUF_LEN_def idle_server_def)
qed

subsection \<open>A reply that is cut off\<close>



subsection \<open>The simple server\<close>

text \<open>C29: on a file whose \<open>lseek\<close> by zero changes nothing, every interleaving of the statements of
  handlers of \<open>aesdsocket.c\<close> whose clients send no seek command is an interleaving of the handlers of
  \<open>aesdsocket-simple.c\<close>: it leads to the same file, descriptor and mutex, and to sessions that have sent
  the same bytes, hold the same flags and stand at the same place, or at the \<open>read\<close> after it.\<close>

theorem simple_handlers_simulate:
  assumes "\<forall>fd f. \<exists>r. api_lseek (api env) fd f = Ret (r, f)"
    and "run_schedule env is w = Ret w'" and "\<forall>t \<in> set (sessions w). data_only env t"
  shows "\<exists>js w''. simple_schedule env js (simple_server w) = Ret w'' \<and> shared w'' = shared w' \<and>
    map outbox (sessions w'') = map outbox (sessions w') \<and> map complete (sessions w'') = map complete (sessions w') \<and>
    map place (sessions w'') = map (\<lambda>t. if place t = Send_lseek then Send_read else place t) (sessions w')"
proof -
  obtain js where "simple_schedule env js (simple_server w) = Ret (simple_server w')"
    using simple_simulation [OF assms] by blast
  then show ?thesis
    by (intro exI [of _ js] exI [of _ "simple_server w'"]) (simp add: simple_server_def without_lseek_def)
qed

theorem simple_handlers_simulate_witness:
  "\<exists>w js w''. run_schedule small_env [0] two_clients = Ret w \<and>
     simple_schedule small_env js (simple_server two_clients) = Ret w'' \<and> shared w'' = shared w"
proof -
  have no: "no_seek small_env [Recv [b, 10]] (replicate BUF_LEN 0)" if "b \<in> {97, 98}" for b
    using that by (intro no_seek_one) (auto simp: ioctl_cmd_def bytes_of_def)
  have ls: "\<forall>fd f. \<exists>r. api_lseek (api small_env) fd f = Ret (r, f)"
    using plain_lseek by (simp add: small_env_def)
  have data: "\<forall>t \<in> set (sessions two_clients). data_only small_env t"
    using no [of 97] no [of 98]
    by (simp add: two_clients_def data_only_def new_session_def idle_server_def del: no_seek.simps)
  obtain w where w: "run_schedule small_env [0] two_clients = Ret w"
    by (simp add: two_clients_def idle_server_def new_session_def session_step_def)
  from simple_handlers_simulate [OF ls w data] w show ?thesis by blast
qed

text \<open>Two handlers of \<open>aesdsocket-simple.c\<close> on a regular file that is not empty: the first client sends
  anything but a seek command, the second a line. The handlers can be scheduled so that both end as
  complete and both clients get the whole file, but the file holds the messages of the first only.\<close>

theorem simple_message_lost:
  assumes env: "api env = plain_api new_fd" "sends_all env"
    and start: "sessions w = [new_session env rs, new_session env [Recv bs]]"
      "file_lock (shared w) = Unlocked" "content (data_store (shared w)) \<noteq> []"
    and small: "\<forall>bs \<in> set (chunks rs). length bs \<le> BUF_LEN"
    and data: "no_seek env rs (replicate BUF_LEN 0)"
    and msg: "bs \<noteq> []" "last bs = newline" "no_seek env [Recv bs] (replicate BUF_LEN 0)"
  shows "\<exists>js w' t u. simple_schedule env js w = Ret w' \<and> sessions w' = [t, u] \<and>
    content (data_store (shared w')) = content (data_store (shared w)) @ concat (chunks rs) \<and>
    place t = Done \<and> complete t = 1 \<and> outbox t = content (data_store (shared w')) \<and>
    place u = Done \<and> complete u = 1 \<and> outbox u = content (data_store (shared w'))"
proof -
  let ?w = "w\<lparr>sessions := []\<rparr>" and ?a = "content (data_store (shared w))"
  have rep: "plain_rep (data_store (shared ?w)) ?a" and unl: "file_lock (shared ?w) = Unlocked"
    using start by (simp_all add: plain_rep_def)
  have reads: "\<forall>a. \<not> read_failed (plain_api new_fd) plain_placed a" using plain_never_fails by blast
  have app: "written_all appended bss a c \<Longrightarrow> c = a @ concat bss" for bss a c
    by (induction bss arbitrary: a) (fastforce simp: appended_def)+
  have pair: "with_pair ?w (shared ?w) (new_session env rs) (new_session env [Recv bs]) = w"
    using start(1) by (cases w) (simp add: with_pair_def)
  obtain "is" w' t u b where run: "run_schedule env is w = Ret w'" and w': "sessions w' = [t, u]"
    "place t = Done" "complete t = 1" "place u = Done" "complete u = 1"
    "written_all appended (chunks rs) ?a b" "plain_rep (data_store (shared w')) b" "outbox t = b" "outbox u = b"
    using plain_fds.message_lost [OF env rep unl reads start(3) small data msg] unfolding pair
    by (auto simp: runs_def)
  have ls: "\<forall>fd f. \<exists>r. api_lseek (api env) fd f = Ret (r, f)" using plain_lseek env by simp
  have only: "\<forall>t \<in> set (sessions w). data_only env t"
    using data msg(3) by (simp add: start(1) data_only_def new_session_def del: no_seek.simps)
  obtain js where "simple_schedule env js (simple_server w) = Ret (simple_server w')"
    using simple_simulation [OF ls run only] by blast
  moreover have "simple_server w = w"
    using start(1) by (cases w) (simp add: simple_server_def without_lseek_id new_session_def)
  ultimately have "simple_schedule env js w = Ret (simple_server w')" by simp
  then show ?thesis using w' app [OF w'(6)]
    by (intro exI [of _ js] exI [of _ "simple_server w'"] exI [of _ t] exI [of _ u])
      (simp add: simple_server_def without_lseek_id plain_rep_def)
qed

theorem simple_message_lost_witness:
  "\<exists>js w'. simple_schedule small_env js
      \<lparr>shared = \<lparr>data_store = \<lparr>content = [104, 10], positions = Map.empty, for_writing = {}\<rparr>, global_fd = 0, file_lock = Unlocked,
         foreign = 0\<rparr>, sessions = [new_session small_env [Recv [97, 10]], new_session small_env [Recv [98, 10]]]\<rparr>
      = Ret w' \<and> content (data_store (shared w')) = [104, 10, 97, 10]"
proof -
  have no: "no_seek small_env [Recv [b, 10]] (replicate BUF_LEN 0)" if "b \<in> {97, 98}" for b
    using that by (intro no_seek_one) (auto simp: ioctl_cmd_def bytes_of_def)
  have env: "api small_env = plain_api lowest_fd" "sends_all small_env" by (simp_all add: small_env_def)
  have n: "no_seek small_env [Recv [97, 10]] (replicate BUF_LEN 0)"
    "no_seek small_env [Recv [98, 10]] (replicate BUF_LEN 0)" using no by simp_all
  let ?w = "\<lparr>shared = \<lparr>data_store = \<lparr>content = [104, 10], positions = Map.empty, for_writing = {}\<rparr>, global_fd = 0,
      file_lock = Unlocked, foreign = 0\<rparr>,
    sessions = [new_session small_env [Recv [97, 10]], new_session small_env [Recv [98, 10]]]\<rparr>"
  have "\<forall>bs \<in> set (chunks [Recv [97, 10]]). length bs \<le> BUF_LEN" by (simp add: BUF_LEN_def)
  from simple_message_lost [OF env _ _ _ this n(1) _ _ n(2), of ?w] show ?thesis by force
qed

end
