(* ===== verification/Whole_Server.thy ===== *)
theory Whole_Server
  imports Session_Runs Socket_Main
begin

text \<open>
  The whole of \<^verbatim>\<open>server/aesdsocket.c\<close> as one system: the main thread between two of its statements
  and the sessions of \<open>Server_Interleaving\<close>, which share the thread records with it. The list
  sections of \<open>insertNode\<close>, \<open>removeCompletedThreads\<close> and \<open>do_shutdown\<close> are taken one round at a time,
  so that handlers run, end and set \<open>isComplete\<close> while the main thread walks the list or waits in
  \<open>pthread_join\<close>; a signal may come at every place of the main thread.
\<close>

subsection \<open>The steps of the list functions\<close>

text \<open>\<open>insertNode\<close> up to the lock, and the part under the lock.\<close>

definition insert_lock :: "thread_env \<Rightarrow> ptr \<Rightarrow> proc \<Rightarrow> (ptr \<times> proc) outcome" where
  "insert_lock env data s =
     (let newNode = malloc_node env (nodes s) in
      if newNode = NULL then Undef
      else obind (lock_list (s\<lparr>nodes := (nodes s)(newNode \<mapsto> \<lparr>node_data = data, node_next = NULL\<rparr>)\<rparr>))
             (\<lambda>s. Ret (newNode, s)))"

definition insert_link :: "ptr \<Rightarrow> proc \<Rightarrow> proc outcome option" where
  "insert_link newNode s =
     (if head s = NULL then Some (unlock_list (s\<lparr>head := newNode\<rparr>))
      else tbind (last_node (nodes s) (head s)) (\<lambda>current.
             Some (obind (set_next current newNode s) unlock_list)))"

lemma insertNode_steps: "insertNode env d s = tbind (Some (insert_lock env d s)) (\<lambda>(a, s). insert_link a s)"
proof -
  have "map_option (\<lambda>r. obind r g) x = tbind x (\<lambda>c. Some (g c))" for g :: "ptr \<Rightarrow> proc outcome" and x
    by (cases x; cases "the x") simp_all
  then show ?thesis
    by (simp add: insertNode_def insert_lock_def insert_link_def Let_def lock_list_def split: outcome.split)
qed

text \<open>One round of the loops that join and free threads.\<close>

definition remove_step ::
  "thread_env \<Rightarrow> (thread_data_t \<Rightarrow> bool) \<Rightarrow> ptr \<Rightarrow> ptr \<Rightarrow> proc \<Rightarrow> (ptr \<times> ptr \<times> proc) outcome"
where
  "remove_step env which current prev s =
     (case nodes s current of
        None \<Rightarrow> Undef
      | Some n \<Rightarrow>
          (case datas s (node_data n) of
             None \<Rightarrow> Undef
           | Some t \<Rightarrow>
               if which t then obind (remove_current env prev current n t s) (\<lambda>(c, s). Ret (c, prev, s))
               else Ret (node_next n, current, s)))"

lemma remove_loop_steps:
  "remove_loop env which current prev s =
     (if current = NULL then Some (Ret s)
      else tbind (Some (remove_step env which current prev s)) (\<lambda>(c, p, s). remove_loop env which c p s))"
  by (subst remove_loop.simps)
    (auto simp: remove_step_def split: option.split outcome.split prod.split)

subsection \<open>The main thread\<close>

text \<open>
  Where the main thread is. \<open>Shut_lock\<close> and \<open>Shutting\<close> are places of \<open>do_shutdown\<close>, with the place that
  the call returns to when the signal handler has made it, and \<open>None\<close> at the end of \<open>main\<close>.
\<close>

datatype main_place =
  Accepting
| Insert_lock ptr
| Insert_link ptr
| Clean_lock
| Cleaning ptr ptr
| Shut_lock "main_place option"
| Shutting ptr ptr "main_place option"
| Finished

text \<open>
  \<open>records\<close> has the address of each session's thread record; the number of a session is its
  \<open>threadId\<close>. The fields \<open>fileMutex\<close> and \<open>file_fd\<close> of \<open>main_proc\<close> stand for those of the sessions and are
  filled in where \<open>do_shutdown\<close> uses them.
\<close>

record 'f whole =
  threads :: "'f server"
  main_proc :: proc
  records :: "ptr list"
  main_at :: main_place

abbreviation flagged :: "thread_data_t \<Rightarrow> bool" where
  "flagged t \<equiv> thread_data_t.isComplete t \<noteq> 0"

text \<open>\<open>pthread_join\<close> returns when the session has come to its end.\<close>

definition ended :: "'f whole \<Rightarrow> nat \<Rightarrow> bool" where
  "ended w t \<longleftrightarrow> t < length (sessions (threads w)) \<and> place (sessions (threads w) ! t) = Done"

abbreviation joining :: "thread_env \<Rightarrow> 'f whole \<Rightarrow> thread_env" where
  "joining env w \<equiv> env\<lparr>ends := ended w\<rparr>"

definition finish_main :: "'f client_env \<Rightarrow> main_place option \<Rightarrow> 'f whole \<Rightarrow> 'f whole outcome" where
  "finish_main cenv back w =
     (let s = shared (threads w) in
      obind (finish_shutdown (use_char_device Aesdsocket)
          ((main_proc w)\<lparr>proc.fileMutex := file_lock s, proc.file_fd := global_fd s\<rparr>)) (\<lambda>p.
        Ret (w\<lparr>main_proc := p,
          threads := (threads w)\<lparr>shared := (close_data cenv s)\<lparr>file_lock := proc.fileMutex p\<rparr>\<rparr>,
          main_at := (case back of None \<Rightarrow> Finished | Some p \<Rightarrow> p)\<rparr>)))"

text \<open>The next statement of the main thread; waiting for a connection is \<open>Blocked\<close>.\<close>

definition main_step :: "thread_env \<Rightarrow> 'f client_env \<Rightarrow> 'f whole \<Rightarrow> 'f whole outcome option" where
  "main_step env cenv w =
     (let s = main_proc w in
      case main_at w of
        Accepting \<Rightarrow> Some (if isError s then Ret (w\<lparr>main_at := Shut_lock None\<rparr>) else Blocked)
      | Insert_lock d \<Rightarrow> Some (obind (insert_lock env d s) (\<lambda>(a, s).
          Ret (w\<lparr>main_proc := s, main_at := Insert_link a\<rparr>)))
      | Insert_link a \<Rightarrow> tbind (insert_link a s) (\<lambda>s.
          Some (Ret (w\<lparr>main_proc := s, main_at := Clean_lock\<rparr>)))
      | Clean_lock \<Rightarrow> Some (obind (lock_list s) (\<lambda>s.
          Ret (w\<lparr>main_proc := s, main_at := Cleaning (head s) NULL\<rparr>)))
      | Cleaning c p \<Rightarrow> Some (
          if c = NULL then obind (unlock_list s) (\<lambda>s. Ret (w\<lparr>main_proc := s, main_at := Accepting\<rparr>))
          else obind (remove_step (joining env w) flagged c p s) (\<lambda>(c, p, s).
            Ret (w\<lparr>main_proc := s, main_at := Cleaning c p\<rparr>)))
      | Shut_lock back \<Rightarrow> Some (obind (lock_list s) (\<lambda>s.
          Ret (w\<lparr>main_proc := s, main_at := Shutting (head s) NULL back\<rparr>)))
      | Shutting c p back \<Rightarrow> Some (
          if c = NULL then finish_main cenv back w
          else obind (remove_step (joining env w) (\<lambda>_. True) c p s) (\<lambda>(c, p, s).
            Ret (w\<lparr>main_proc := s, main_at := Shutting c p back\<rparr>)))
      | Finished \<Rightarrow> Some Blocked)"

subsection \<open>The sessions\<close>

text \<open>The statements of a handler that read or write its thread record.\<close>

definition uses_record :: "place \<Rightarrow> bool" where
  "uses_record p \<longleftrightarrow> p \<in> {Receive, Send_data, End_complete, End_socket}"

definition set_complete :: "ptr \<Rightarrow> proc \<Rightarrow> proc" where
  "set_complete d s = s\<lparr>datas := (datas s)(d := map_option (\<lambda>t. t\<lparr>thread_data_t.isComplete := 1\<rparr>) (datas s d))\<rparr>"

definition handler_step :: "'f client_env \<Rightarrow> nat \<Rightarrow> 'f whole \<Rightarrow> 'f whole outcome" where
  "handler_step cenv i w =
     (let v = threads w; t = sessions v ! i; d = records w ! i in
      if uses_record (place t) \<and> datas (main_proc w) d = None then Undef
      else obind (session_step cenv t (shared v)) (\<lambda>(t', s).
        Ret (w\<lparr>threads := v\<lparr>shared := s, sessions := (sessions v)[i := t']\<rparr>,
          main_proc := (if place t = End_complete then set_complete d (main_proc w) else main_proc w)\<rparr>)))"

subsection \<open>The system\<close>

text \<open>A new connection: the thread record, and the thread when it can be created.\<close>

definition new_record :: "thread_env \<Rightarrow> int \<Rightarrow> 'f whole \<Rightarrow> proc \<times> ptr" where
  "new_record env fd w =
     (let s = main_proc w; data = malloc_data env (datas s) in
      (s\<lparr>datas := (datas s)(data \<mapsto>
         \<lparr>threadId = length (sessions (threads w)), client_fd = fd, thread_data_t.isComplete = 0\<rparr>)\<rparr>, data))"

definition start_session ::
  "thread_env \<Rightarrow> 'f client_env \<Rightarrow> int \<Rightarrow> recv_result list \<Rightarrow> 'f whole \<Rightarrow> 'f whole"
where
  "start_session env cenv fd rs w =
     (let (s, data) = new_record env fd w in
      w\<lparr>main_proc := s, records := records w @ [data], main_at := Insert_lock data,
        threads := (threads w)\<lparr>sessions := sessions (threads w) @ [new_session cenv rs]\<rparr>\<rparr>)"

definition failed_session :: "thread_env \<Rightarrow> int \<Rightarrow> 'f whole \<Rightarrow> 'f whole" where
  "failed_session env fd w =
     (let (s, data) = new_record env fd w in
      w\<lparr>main_proc := s\<lparr>datas := (datas s)(data := None)\<rparr>, main_at := Clean_lock\<rparr>)"

definition interrupted :: "'f whole \<Rightarrow> 'f whole" where
  "interrupted w = w\<lparr>main_proc := (main_proc w)\<lparr>isError := True\<rparr>, main_at := Shut_lock (Some (main_at w))\<rparr>"

definition accepts :: "thread_env \<Rightarrow> 'f whole \<Rightarrow> bool" where
  "accepts env w \<longleftrightarrow> main_at w = Accepting \<and> \<not> isError (main_proc w) \<and>
     malloc_data env (datas (main_proc w)) \<noteq> NULL"

inductive whole_step :: "thread_env \<Rightarrow> 'f client_env \<Rightarrow> 'f whole \<Rightarrow> 'f whole \<Rightarrow> bool" for env cenv where
  statement_of_main: "main_step env cenv w = Some (Ret w') \<Longrightarrow> whole_step env cenv w w'"
| statement_of_handler: "i < length (sessions (threads w)) \<Longrightarrow> handler_step cenv i w = Ret w' \<Longrightarrow>
    whole_step env cenv w w'"
| client: "accepts env w \<Longrightarrow> whole_step env cenv w (start_session env cenv fd rs w)"
| no_thread: "accepts env w \<Longrightarrow> whole_step env cenv w (failed_session env fd w)"
| signal: "main_at w \<noteq> Finished \<Longrightarrow> whole_step env cenv w (interrupted w)"

definition started :: "proc \<Rightarrow> 'f \<Rightarrow> 'f whole" where
  "started s f = \<lparr>threads = idle_server f, main_proc = s, records = [], main_at = Accepting\<rparr>"

end
