(* ===== verification/Whole_Invariant.thy ===== *)
theory Whole_Invariant
  imports Whole_Server
begin

text \<open>
  The invariant of the whole server: which thread records are allocated, what the list of threads
  looks like at each place of the main thread, and what a signal does to the list mutex.
\<close>

subsection \<open>Places and signals\<close>

text \<open>The places at which the main thread, or the code that a signal has interrupted, has the list
  locked.\<close>

fun in_list :: "main_place \<Rightarrow> bool" where
  "in_list (Insert_link a) \<longleftrightarrow> True"
| "in_list (Cleaning c p) \<longleftrightarrow> True"
| "in_list (Shutting c p back) \<longleftrightarrow> True"
| "in_list (Shut_lock (Some p)) \<longleftrightarrow> in_list p"
| "in_list _ \<longleftrightarrow> False"

fun sound_place :: "main_place \<Rightarrow> bool" where
  "sound_place Finished \<longleftrightarrow> False"
| "sound_place (Shutting c p None) \<longleftrightarrow> False"
| "sound_place (Shutting c p (Some back)) \<longleftrightarrow> sound_place back \<and> \<not> in_list back"
| "sound_place (Shut_lock (Some back)) \<longleftrightarrow> sound_place back"
| "sound_place _ \<longleftrightarrow> True"

fun handling :: "main_place \<Rightarrow> bool" where
  "handling (Shut_lock back) \<longleftrightarrow> True"
| "handling (Shutting c p back) \<longleftrightarrow> True"
| "handling _ \<longleftrightarrow> False"

definition signal_inv :: "proc \<Rightarrow> main_place \<Rightarrow> bool" where
  "signal_inv s p \<longleftrightarrow> sound_place p \<and>
     (p = Shut_lock None \<longrightarrow> listMutex s = Destroyed) \<and>
     (if listMutex s = Destroyed then isError s \<and> \<not> in_list p
      else (listMutex s = Locked \<longleftrightarrow> in_list p) \<and> (isError s \<longleftrightarrow> handling p))"

subsection \<open>Records and list\<close>

text \<open>A session counts as unjoined until the main thread has joined its thread.\<close>

definition unjoined :: "'f whole \<Rightarrow> nat \<Rightarrow> bool" where
  "unjoined w i \<longleftrightarrow> i < length (sessions (threads w)) \<and> Joined i \<notin> set (trace (main_proc w))"

definition records_inv :: "'f whole \<Rightarrow> bool" where
  "records_inv w \<longleftrightarrow>
     (let s = main_proc w; ts = sessions (threads w) in
      length (records w) = length ts \<and> finite (dom (datas s)) \<and> finite (dom (nodes s)) \<and>
      (\<forall>i. Joined i \<in> set (trace s) \<longrightarrow> i < length ts \<and> place (ts ! i) = Done) \<and>
      (\<forall>i. unjoined w i \<longrightarrow> (\<exists>t. datas s (records w ! i) = Some t \<and> threadId t = i \<and>
         thread_data_t.isComplete t = complete (ts ! i))) \<and>
      (\<forall>t \<in> set ts. complete t = (if place t = End_socket \<or> place t = Done then 1 else 0)))"

text \<open>The loop has kept the cells \<open>pre\<close> and has \<open>rest\<close> before it.\<close>

definition walking :: "proc \<Rightarrow> cell list \<Rightarrow> ptr \<Rightarrow> ptr \<Rightarrow> bool" where
  "walking s cs current prev \<longleftrightarrow> (\<exists>pre rest. cs = pre @ rest \<and>
     lseg (nodes s) (datas s) (head s) pre current \<and> lseg (nodes s) (datas s) current rest NULL \<and>
     prev = (if pre = [] then NULL else cell_node (last pre)))"

definition cells_ok :: "'f whole \<Rightarrow> cell list \<Rightarrow> bool" where
  "cells_ok w cs \<longleftrightarrow> threads_rep (main_proc w) cs \<and>
     (\<forall>c \<in> set cs. unjoined w (cell_id c) \<and> records w ! cell_id c = cell_data c)"

definition place_ok :: "'f whole \<Rightarrow> cell list \<Rightarrow> bool" where
  "place_ok w cs \<longleftrightarrow>
     (let s = main_proc w in
      case main_at w of
        Insert_lock d \<Rightarrow> \<exists>i. unjoined w i \<and> records w ! i = d \<and> d \<notin> cell_data ` set cs
      | Insert_link a \<Rightarrow> \<exists>i. unjoined w i \<and> records w ! i \<notin> cell_data ` set cs \<and>
          nodes s a = Some \<lparr>node_data = records w ! i, node_next = NULL\<rparr> \<and> a \<noteq> NULL \<and>
          a \<notin> cell_node ` set cs
      | Cleaning c p \<Rightarrow> walking s cs c p
      | Shutting c p back \<Rightarrow> walking s cs c p
      | _ \<Rightarrow> True)"

definition whole_inv :: "'f whole \<Rightarrow> bool" where
  "whole_inv w \<longleftrightarrow> records_inv w \<and> signal_inv (main_proc w) (main_at w) \<and>
     (listMutex (main_proc w) \<noteq> Destroyed \<longrightarrow> (\<exists>cs. cells_ok w cs \<and> place_ok w cs))"

lemma walking_start: "threads_rep s cs \<Longrightarrow> walking s cs (head s) NULL"
  unfolding walking_def threads_rep_def by (rule exI [of _ "[]"]) simp

lemma unjoined_record:
  assumes "records_inv w" and "unjoined w i"
  shows "\<exists>t. datas (main_proc w) (records w ! i) = Some t \<and> threadId t = i \<and>
    thread_data_t.isComplete t = complete (sessions (threads w) ! i)"
  using assms by (simp add: records_inv_def Let_def)

lemma records_distinct:
  "records_inv w \<Longrightarrow> unjoined w i \<Longrightarrow> unjoined w j \<Longrightarrow> records w ! i = records w ! j \<Longrightarrow> i = j"
  by (metis unjoined_record option.inject)

subsection \<open>One round of a removal\<close>

lemma remove_current_datas:
  "remove_current env prev current n t s = Ret (c, s') \<Longrightarrow> datas s' = (datas s)(node_data n := None)"
  by (auto simp: remove_current_def pthread_join_def unlink_def set_next_def link_of_def free_node_def
      obind_Ret_iff split: if_splits option.splits)

lemma remove_step_effect:
  assumes pre: "lseg (nodes s) (datas s) (head s) pre (cell_node x)"
    and rest: "lseg (nodes s) (datas s) (cell_node x) (x # rest) NULL"
    and sep: "separate (pre @ x # rest)"
    and prev: "prev = (if pre = [] then NULL else cell_node (last pre))"
    and fresh: "Joined (cell_id x) \<notin> set (trace s)"
  obtains (kept) r where "\<not> which (cell_thread x)"
      and "remove_step env which (cell_node x) prev s = Ret (r, cell_node x, s)"
      and "walking s (pre @ x # rest) r (cell_node x)"
  | (joins) r s' where "which (cell_thread x)" and "ends env (cell_id x)"
      and "remove_step env which (cell_node x) prev s = Ret (r, prev, s')"
      and "walking s' (pre @ rest) r prev" and "threads_rep s' (pre @ rest)"
      and "removed (\<lambda>_. True) [x] s s'" and "datas s' = (datas s)(cell_data x := None)"
  | (waits) "which (cell_thread x)" and "\<not> ends env (cell_id x)"
      and "remove_step env which (cell_node x) prev s = Blocked"
proof -
  obtain r where n: "nodes s (cell_node x) = Some \<lparr>node_data = cell_data x, node_next = r\<rparr>"
    and t: "datas s (cell_data x) = Some (cell_thread x)" and seg: "lseg (nodes s) (datas s) r rest NULL"
    and nn: "cell_node x \<noteq> NULL"
    using rest by auto
  let ?n = "\<lparr>node_data = cell_data x, node_next = r\<rparr>"
  show thesis
  proof (cases "which (cell_thread x)")
    case False
    have "lseg (nodes s) (datas s) (head s) (pre @ [x]) r" using pre n t nn by (simp add: lseg_append)
    then have "walking s (pre @ x # rest) r (cell_node x)"
      unfolding walking_def using seg by (intro exI [of _ "pre @ [x]"] exI [of _ rest]) simp
    then show thesis using kept False n t by (simp add: remove_step_def)
  next
    case True
    show thesis
    proof (cases "ends env (cell_id x)")
      case False
      then show thesis using waits True n t fresh
        by (simp add: remove_step_def remove_current_def pthread_join_def)
    next
      case over: True
      obtain s' where s': "remove_current env prev (cell_node x) ?n (cell_thread x) s = Ret (r, s')"
        "lseg (nodes s') (datas s') (head s') pre r" "lseg (nodes s') (datas s') r rest NULL"
        "removed (\<lambda>_. True) [x] s s'"
        using remove_current_effect [OF pre rest sep prev n over fresh] by auto
      have "walking s' (pre @ rest) r prev" unfolding walking_def using s'(2,3) prev by blast
      moreover have "separate (pre @ rest)" using sep by (auto simp: separate_def)
      then have "threads_rep s' (pre @ rest)" using s'(2,3) by (auto simp: threads_rep_def lseg_append)
      moreover have "datas s' = (datas s)(cell_data x := None)" using remove_current_datas [OF s'(1)] by simp
      ultimately show thesis using joins True over n t s'(1,4) by (simp add: remove_step_def)
    qed
  qed
qed

text \<open>The part of \<open>insertNode\<close> under the lock.\<close>

lemma insert_link_effect:
  assumes rep: "threads_rep s cs" and lock: "listMutex s = Locked"
    and a: "nodes s a = Some \<lparr>node_data = d, node_next = NULL\<rparr>" "a \<noteq> NULL" "a \<notin> cell_node ` set cs"
    and d: "datas s d = Some t" "d \<notin> cell_data ` set cs"
  shows "\<exists>s'. insert_link a s = Some (Ret s') \<and> threads_rep s' (cs @ [(a, d, t)]) \<and>
    listMutex s' = Unlocked \<and> trace s' = trace s \<and> datas s' = datas s \<and>
    isError s' = isError s \<and> dom (nodes s') = dom (nodes s)"
proof -
  let ?s = "s\<lparr>nodes := (nodes s)(a := None), listMutex := Unlocked\<rparr>"
  let ?env = "\<lparr>ends = (\<lambda>_. True), malloc_node = (\<lambda>_. a), malloc_data = (\<lambda>_. a)\<rparr>"
  have "lseg (nodes ?s) (datas ?s) (head ?s) cs NULL"
    using rep a(3) lseg_upd_node [of "nodes s"] by (simp add: threads_rep_def)
  then have r: "threads_rep ?s cs" using rep by (simp add: threads_rep_def)
  have m: "malloc_node ?env (nodes ?s) = a" "nodes ?s a = None" "datas ?s d = Some t"
    "listMutex ?s = Unlocked" using d by simp_all
  obtain s' where s': "insertNode ?env d ?s = Some (Ret s')" "threads_rep s' (cs @ [(a, d, t)])"
    "listMutex s' = Unlocked" "trace s' = trace ?s" "datas s' = datas ?s" "isError s' = isError ?s"
    "dom (nodes s') = insert a (dom (nodes ?s))"
    using insertNode_effect [OF r m(4) m(1) a(2) m(2,3) d(2)] by (elim exE conjE) (rule that; assumption)
  have "(nodes s)(a \<mapsto> \<lparr>node_data = d, node_next = NULL\<rparr>) = nodes s" using a(1) by (simp add: fun_upd_idem)
  then have "insert_lock ?env d ?s = Ret (a, s)"
    using lock a(2) by (simp add: insert_lock_def Let_def lock_list_def)
  then have "insert_link a s = Some (Ret s')" using s'(1) by (simp add: insertNode_steps)
  moreover have "a \<in> dom (nodes s)" using a(1) by blast
  then have "insert a (dom (nodes ?s)) = dom (nodes s)" by auto
  ultimately show ?thesis using s' by auto
qed

subsection \<open>The invariant is kept\<close>

lemma unjoined_cong:
  "length (sessions (threads w')) = length (sessions (threads w)) \<Longrightarrow>
     trace (main_proc w') = trace (main_proc w) \<Longrightarrow> unjoined w' i = unjoined w i"
  by (simp add: unjoined_def)

lemma records_inv_cong:
  assumes rec: "records_inv w" and same: "sessions (threads w') = sessions (threads w)" "records w' = records w"
    and tr: "\<And>i. Joined i \<in> set (trace (main_proc w')) \<longleftrightarrow> Joined i \<in> set (trace (main_proc w))"
    and dat: "datas (main_proc w') = datas (main_proc w)" and fin: "finite (dom (nodes (main_proc w')))"
  shows "records_inv w'"
proof -
  have "unjoined w' i = unjoined w i" for i by (simp add: unjoined_def same tr)
  then show ?thesis using rec fin by (simp only: records_inv_def Let_def same tr dat) blast
qed

lemma records_inv_nodes:
  "records_inv w \<Longrightarrow> finite (dom (nodes (main_proc w)))" "records_inv w \<Longrightarrow> finite (dom (datas (main_proc w)))"
  by (simp_all add: records_inv_def Let_def)

text \<open>Steps that leave the list alone.\<close>

lemma cells_ok_cong:
  assumes "cells_ok w cs" and "length (sessions (threads w')) = length (sessions (threads w))"
    and "records w' = records w" and "threads_rep (main_proc w') cs"
    and "trace (main_proc w') = trace (main_proc w)"
  shows "cells_ok w' cs"
  using assms unjoined_cong [of w' w] by (simp add: cells_ok_def)

subsubsection \<open>Handlers\<close>

lemma session_step_complete:
  assumes "session_step env t s = Ret (t', s')"
    and "complete t = (if place t = End_socket \<or> place t = Done then 1 else 0)"
  shows "complete t' = (if place t' = End_socket \<or> place t' = Done then 1 else 0) \<and>
    complete t' = (if place t = End_complete then 1 else complete t) \<and> place t \<noteq> Done"
proof (cases "place t")
  case Receive
  then show ?thesis using assms
    by (auto simp: session_step_def receive_def Let_def split: list.splits recv_result.splits if_splits)
next
  case Send_read
  then obtain r bs f where "api_read (api env) (global_fd s) BUF_LEN (data_store s) = Ret (r, bs, f)"
    using assms by (auto simp: session_step_def obind_Ret_iff)
  then show ?thesis using assms Send_read by (cases "r = -1 \<or> r = 0") (auto simp: session_step_def)
next
  case Check_newline
  then show ?thesis using assms by (cases "last (received t) = newline") (auto simp: session_step_def)
next
  case After_loop
  then show ?thesis using assms by (cases "ioctl_found t") (auto simp: session_step_def)
qed (use assms in \<open>auto simp: session_step_def obind_Ret_iff take_lock_def give_lock_def\<close>)

definition recell :: "ptr \<Rightarrow> cell \<Rightarrow> cell" where
  "recell d c = (cell_node c, cell_data c,
     if cell_data c = d then (cell_thread c)\<lparr>thread_data_t.isComplete := 1\<rparr> else cell_thread c)"

lemma recell_simps [simp]:
  "cell_node (recell d c) = cell_node c" "cell_data (recell d c) = cell_data c"
  "threadId (cell_thread (recell d c)) = threadId (cell_thread c)"
  by (simp_all add: recell_def)

lemma recell_comp [simp]:
  "cell_node \<circ> recell d = cell_node" "cell_data \<circ> recell d = cell_data"
  by (simp_all add: fun_eq_iff)

lemma lseg_set_complete:
  "lseg (nodes s) (datas s) p cs q \<Longrightarrow>
     lseg (nodes (set_complete d s)) (datas (set_complete d s)) p (map (recell d) cs) q"
  by (induction cs arbitrary: p) (auto simp: set_complete_def recell_def)

lemma recell_rep: "threads_rep s cs \<Longrightarrow> threads_rep (set_complete d s) (map (recell d) cs)"
  using lseg_set_complete [of s "head s" cs NULL d]
  by (simp add: threads_rep_def separate_def set_complete_def)

lemma recell_walking: "walking s cs c p \<Longrightarrow> walking (set_complete d s) (map (recell d) cs) c p"
proof -
  assume "walking s cs c p"
  then obtain pre rest where "cs = pre @ rest" "lseg (nodes s) (datas s) (head s) pre c"
    "lseg (nodes s) (datas s) c rest NULL" "p = (if pre = [] then NULL else cell_node (last pre))"
    by (auto simp: walking_def)
  moreover have "head (set_complete d s) = head s" by (simp add: set_complete_def)
  ultimately show ?thesis unfolding walking_def using lseg_set_complete [of s _ _ _ d]
    by (intro exI [of _ "map (recell d) pre"] exI [of _ "map (recell d) rest"]) (auto simp: last_map)
qed

lemma set_complete_simps [simp]:
  "trace (set_complete d s) = trace s" "nodes (set_complete d s) = nodes s"
  "listMutex (set_complete d s) = listMutex s" "isError (set_complete d s) = isError s"
  "dom (datas (set_complete d s)) = dom (datas s)" "head (set_complete d s) = head s"
  by (auto simp: set_complete_def)

lemma nth_update_image: "i < length xs \<Longrightarrow> y \<in> set (xs[i := x]) \<Longrightarrow> y = x \<or> y \<in> set xs"
  using set_update_subset_insert [of xs i x] by blast

lemma signal_inv_cong:
  "signal_inv s p \<Longrightarrow> listMutex s' = listMutex s \<Longrightarrow> isError s' = isError s \<Longrightarrow> signal_inv s' p"
  by (simp add: signal_inv_def)

text \<open>A statement of session \<open>i\<close>, and what it changes.\<close>

lemma handler_step_effect:
  assumes rec: "records_inv w" and i: "i < length (sessions (threads w))" and st: "handler_step cenv i w = Ret w'"
  obtains t' where "unjoined w i"
    and "sessions (threads w') = (sessions (threads w))[i := t']" and "records w' = records w"
    and "main_at w' = main_at w"
    and "main_proc w' = (if place (sessions (threads w) ! i) = End_complete
           then set_complete (records w ! i) (main_proc w) else main_proc w)"
    and "complete t' = (if place t' = End_socket \<or> place t' = Done then 1 else 0)"
    and "complete t' = (if place (sessions (threads w) ! i) = End_complete then 1
           else complete (sessions (threads w) ! i))"
proof -
  let ?t = "sessions (threads w) ! i"
  obtain t' s' where step: "session_step cenv ?t (shared (threads w)) = Ret (t', s')"
    and w': "w' = w\<lparr>threads := (threads w)\<lparr>shared := s', sessions := (sessions (threads w))[i := t']\<rparr>,
      main_proc := (if place ?t = End_complete then set_complete (records w ! i) (main_proc w) else main_proc w)\<rparr>"
    using st by (auto simp: handler_step_def Let_def obind_Ret_iff split: if_splits)
  have "complete ?t = (if place ?t = End_socket \<or> place ?t = Done then 1 else 0)"
    using rec i by (simp add: records_inv_def Let_def)
  note eff = session_step_complete [OF step this]
  then have "unjoined w i" using rec i by (auto simp: unjoined_def records_inv_def Let_def)
  then show thesis using that [of t'] eff by (simp add: w')
qed

lemma handler_records_inv:
  assumes rec: "records_inv w" and i: "i < length (sessions (threads w))" and st: "handler_step cenv i w = Ret w'"
  shows "records_inv w'"
proof -
  let ?ts = "sessions (threads w)" and ?s = "main_proc w" and ?d = "records w ! i"
  let ?t = "?ts ! i"
  obtain t' where liv: "unjoined w i" and sim: "sessions (threads w') = ?ts[i := t']" "records w' = records w"
    and mp: "main_proc w' = (if place ?t = End_complete then set_complete ?d ?s else ?s)"
    and c': "complete t' = (if place t' = End_socket \<or> place t' = Done then 1 else 0)"
      "complete t' = (if place ?t = End_complete then 1 else complete ?t)"
    by (rule handler_step_effect [OF rec i st])
  have tr: "trace (main_proc w') = trace ?s" "nodes (main_proc w') = nodes ?s" "dom (datas (main_proc w')) = dom (datas ?s)"
    by (simp_all add: mp)
  have lv: "unjoined w' j = unjoined w j" for j using sim tr by (intro unjoined_cong) simp_all
  show ?thesis
    unfolding records_inv_def Let_def
  proof (intro conjI allI impI ballI)
    show "length (records w') = length (sessions (threads w'))" "finite (dom (datas (main_proc w')))"
      "finite (dom (nodes (main_proc w')))"
      using rec by (simp_all add: sim tr records_inv_def Let_def)
    show "j < length (sessions (threads w'))" "place (sessions (threads w') ! j) = Done"
      if "Joined j \<in> set (trace (main_proc w'))" for j
    proof -
      have "j < length ?ts \<and> place (?ts ! j) = Done" using rec that by (simp add: tr records_inv_def Let_def)
      moreover have "j \<noteq> i" using liv that by (auto simp: unjoined_def tr)
      ultimately show "j < length (sessions (threads w'))" "place (sessions (threads w') ! j) = Done"
        by (simp_all add: sim)
    qed
    show "\<exists>t. datas (main_proc w') (records w' ! j) = Some t \<and> threadId t = j \<and>
        thread_data_t.isComplete t = complete (sessions (threads w') ! j)" if "unjoined w' j" for j
    proof (cases "j = i")
      case True
      then show ?thesis using unjoined_record [OF rec liv] c'(2) i
        by (cases "place ?t = End_complete") (auto simp: sim mp set_complete_def)
    next
      case False
      have l: "unjoined w j" using that lv by simp
      then have "records w ! j \<noteq> ?d" using records_distinct [OF rec _ liv] False by blast
      then show ?thesis using unjoined_record [OF rec l] False by (simp add: sim mp set_complete_def)
    qed
    show "complete t = (if place t = End_socket \<or> place t = Done then 1 else 0)"
      if "t \<in> set (sessions (threads w'))" for t
      using nth_update_image [OF i that [unfolded sim]] c'(1) rec by (auto simp: records_inv_def Let_def)
  qed
qed

lemma place_ok_complete:
  assumes "place_ok w cs" and "main_at w' = main_at w" and "records w' = records w"
    and "\<And>j. unjoined w' j = unjoined w j" and "main_proc w' = set_complete d (main_proc w)"
  shows "place_ok w' (map (recell d) cs)"
  using assms recell_walking
  by (cases "main_at w") (simp_all add: place_ok_def image_image del: fun_upd_apply)

lemma handler_step_inv:
  assumes inv: "whole_inv w" and i: "i < length (sessions (threads w))" and st: "handler_step cenv i w = Ret w'"
  shows "whole_inv w'"
proof -
  let ?s = "main_proc w" and ?d = "records w ! i"
  have rec: "records_inv w" using inv by (simp add: whole_inv_def)
  obtain t' where sim: "sessions (threads w') = (sessions (threads w))[i := t']" "records w' = records w"
    "main_at w' = main_at w"
    and mp: "main_proc w' = (if place (sessions (threads w) ! i) = End_complete then set_complete ?d ?s else ?s)"
    by (rule handler_step_effect [OF rec i st])
  then consider "main_proc w' = set_complete ?d ?s" | "main_proc w' = ?s" by metis
  note mp' = this
  then have tr: "trace (main_proc w') = trace ?s" "listMutex (main_proc w') = listMutex ?s"
    "isError (main_proc w') = isError ?s"
    by (cases; simp)+
  have lv: "unjoined w' j = unjoined w j" for j using sim tr by (intro unjoined_cong) simp_all
  have "\<exists>cs. cells_ok w' cs \<and> place_ok w' cs" if "cells_ok w cs" "place_ok w cs" for cs
    using mp'
  proof cases
    case 1
    have "cells_ok w' (map (recell ?d) cs)" using that(1) recell_rep lv by (auto simp: cells_ok_def 1 sim)
    then show ?thesis using place_ok_complete [OF that(2) sim(3,2) lv 1] by blast
  next
    case 2
    have "cells_ok w' cs" using that(1) lv by (simp add: cells_ok_def 2 sim)
    moreover have "place_ok w' cs" using that(2) lv by (cases "main_at w") (simp_all add: place_ok_def 2 sim)
    ultimately show ?thesis by blast
  qed
  then show ?thesis
    using inv handler_records_inv [OF rec i st] signal_inv_cong [of ?s "main_at w" "main_proc w'"] tr sim
    by (auto simp: whole_inv_def)
qed

subsubsection \<open>Connections and signals\<close>

lemma start_session_simps:
  "sessions (threads (start_session env cenv fd rs w)) = sessions (threads w) @ [new_session cenv rs]"
  "records (start_session env cenv fd rs w) = records w @ [malloc_data env (datas (main_proc w))]"
  "main_at (start_session env cenv fd rs w) = Insert_lock (malloc_data env (datas (main_proc w)))"
  "main_proc (start_session env cenv fd rs w) = (main_proc w)\<lparr>datas := (datas (main_proc w))(malloc_data env (datas (main_proc w)) \<mapsto>
     \<lparr>threadId = length (sessions (threads w)), client_fd = fd, thread_data_t.isComplete = 0\<rparr>)\<rparr>"
  "shared (threads (start_session env cenv fd rs w)) = shared (threads w)"
  by (simp_all add: start_session_def new_record_def Let_def)

lemma new_record_fresh:
  assumes rec: "records_inv w" and env: "env_ok env"
  shows "malloc_data env (datas (main_proc w)) \<noteq> NULL" and "datas (main_proc w) (malloc_data env (datas (main_proc w))) = None"
    and "unjoined w j \<Longrightarrow> j < length (sessions (threads w)) \<and> records w ! j \<noteq> malloc_data env (datas (main_proc w))"
    and "unjoined (start_session env cenv fd rs w) j \<longleftrightarrow> unjoined w j \<or> j = length (sessions (threads w))"
proof -
  show "malloc_data env (datas (main_proc w)) \<noteq> NULL"
    and none: "datas (main_proc w) (malloc_data env (datas (main_proc w))) = None"
    using env records_inv_nodes [OF rec] by (simp_all add: env_ok_def)
  show "j < length (sessions (threads w)) \<and> records w ! j \<noteq> malloc_data env (datas (main_proc w))" if "unjoined w j"
    using unjoined_record [OF rec that] none that by (auto simp: unjoined_def)
  have "Joined (length (sessions (threads w))) \<notin> set (trace (main_proc w))"
    using rec by (auto simp: records_inv_def Let_def)
  then show "unjoined (start_session env cenv fd rs w) j \<longleftrightarrow> unjoined w j \<or> j = length (sessions (threads w))"
    by (auto simp: unjoined_def start_session_simps)
qed

lemma client_records_inv:
  assumes rec: "records_inv w" and env: "env_ok env"
  shows "records_inv (start_session env cenv fd rs w)"
proof -
  let ?n = "length (sessions (threads w))" and ?w = "start_session env cenv fd rs w"
  note fresh = new_record_fresh [OF rec env]
  have len: "length (records w) = ?n" using rec by (simp add: records_inv_def Let_def)
  show ?thesis
    unfolding records_inv_def Let_def
  proof (intro conjI allI impI ballI)
    show "length (records ?w) = length (sessions (threads ?w))" "finite (dom (datas (main_proc ?w)))"
      "finite (dom (nodes (main_proc ?w)))"
      using rec len by (simp_all add: start_session_simps records_inv_def Let_def)
    show "j < length (sessions (threads ?w))" "place (sessions (threads ?w) ! j) = Done"
      if "Joined j \<in> set (trace (main_proc ?w))" for j
      using rec that by (auto simp: start_session_simps records_inv_def Let_def nth_append)
    show "\<exists>t. datas (main_proc ?w) (records ?w ! j) = Some t \<and> threadId t = j \<and>
        thread_data_t.isComplete t = complete (sessions (threads ?w) ! j)" if "unjoined ?w j" for j
    proof (cases "j = ?n")
      case True
      then show ?thesis using len by (simp add: start_session_simps nth_append new_session_def)
    next
      case False
      then have l: "unjoined w j" using that fresh(4) by blast
      then show ?thesis using fresh(3) [OF l] unjoined_record [OF rec l] len
        by (simp add: start_session_simps nth_append)
    qed
    show "complete t = (if place t = End_socket \<or> place t = Done then 1 else 0)"
      if "t \<in> set (sessions (threads ?w))" for t
      using that rec by (auto simp: start_session_simps records_inv_def Let_def new_session_def)
  qed
qed

lemma client_inv:
  assumes inv: "whole_inv w" and env: "env_ok env" and acc: "accepts env w"
  shows "whole_inv (start_session env cenv fd rs w)"
proof -
  let ?s = "main_proc w" and ?n = "length (sessions (threads w))" and ?w = "start_session env cenv fd rs w"
  let ?d = "malloc_data env (datas ?s)"
  have rec: "records_inv w" using inv by (simp add: whole_inv_def)
  note fresh = new_record_fresh [OF rec env] and sim = start_session_simps
  have len: "length (records w) = ?n" using rec by (simp add: records_inv_def Let_def)
  have err: "main_at w = Accepting" "\<not> isError ?s" using acc by (simp_all add: accepts_def)
  then have "signal_inv (main_proc ?w) (main_at ?w)"
    using inv by (simp add: whole_inv_def signal_inv_def sim split: if_splits)
  moreover have "listMutex ?s \<noteq> Destroyed" using inv err by (auto simp: whole_inv_def signal_inv_def)
  then obtain cs where cs: "cells_ok w cs" using inv by (auto simp: whole_inv_def)
  have dc: "?d \<notin> cell_data ` set cs" using cs fresh(3) by (fastforce simp: cells_ok_def)
  have "threads_rep (main_proc ?w) cs"
    using cs lseg_upd_data [of "nodes ?s" "datas ?s" "head ?s" cs NULL ?d] dc
    by (simp add: threads_rep_def sim cells_ok_def)
  then have "cells_ok ?w cs" using cs fresh(3,4) len by (fastforce simp: cells_ok_def sim nth_append)
  moreover have "place_ok ?w cs" using dc fresh(4) len
    by (auto simp: place_ok_def sim nth_append intro!: exI [of _ ?n])
  ultimately show ?thesis using client_records_inv [OF rec env] by (auto simp: whole_inv_def)
qed

lemma no_thread_inv:
  assumes inv: "whole_inv w" and env: "env_ok env" and acc: "accepts env w"
  shows "whole_inv (failed_session env fd w)"
proof -
  let ?s = "main_proc w"
  have rec: "records_inv w" using inv by (simp add: whole_inv_def)
  then have "datas ?s (malloc_data env (datas ?s)) = None"
    using env records_inv_nodes [OF rec] by (simp add: env_ok_def)
  then have "(datas ?s)(malloc_data env (datas ?s) := None) = datas ?s" by (simp add: fun_upd_idem)
  then have w: "failed_session env fd w = w\<lparr>main_at := Clean_lock\<rparr>"
    by (simp add: failed_session_def new_record_def Let_def)
  have err: "main_at w = Accepting" "\<not> isError ?s" using acc by (simp_all add: accepts_def)
  have "records_inv (w\<lparr>main_at := Clean_lock\<rparr>)" by (rule records_inv_cong [OF rec]) (simp_all add: records_inv_nodes [OF rec])
  moreover have "cells_ok (w\<lparr>main_at := Clean_lock\<rparr>) cs" if "cells_ok w cs" for cs
    using that by (simp add: cells_ok_def unjoined_def)
  ultimately show ?thesis using inv err
    by (auto simp: w whole_inv_def signal_inv_def place_ok_def split: if_splits)
qed

lemma signal_step_inv:
  assumes inv: "whole_inv w"
  shows "whole_inv (interrupted w)"
proof -
  have rec: "records_inv w" using inv by (simp add: whole_inv_def)
  have "records_inv (interrupted w)"
    by (rule records_inv_cong [OF rec]) (simp_all add: interrupted_def records_inv_nodes [OF rec])
  moreover have "cells_ok (interrupted w) cs" if "cells_ok w cs" for cs
    using that by (simp add: cells_ok_def unjoined_def interrupted_def threads_rep_def)
  ultimately show ?thesis using inv
    by (auto simp: whole_inv_def signal_inv_def place_ok_def interrupted_def split: if_splits)
qed

subsubsection \<open>The main thread\<close>

text \<open>The invariant after a step of the main thread that neither joins a thread nor frees anything.\<close>

lemma main_step_keeps:
  assumes inv: "whole_inv w"
    and dat: "datas s' = datas (main_proc w)" "trace s' = trace (main_proc w)" "finite (dom (nodes s'))"
    and sig: "signal_inv s' p"
    and cs: "listMutex s' \<noteq> Destroyed \<Longrightarrow>
      \<exists>cs. cells_ok (w\<lparr>main_proc := s', main_at := p\<rparr>) cs \<and> place_ok (w\<lparr>main_proc := s', main_at := p\<rparr>) cs"
  shows "whole_inv (w\<lparr>main_proc := s', main_at := p\<rparr>)"
  using assms records_inv_cong [of w "w\<lparr>main_proc := s', main_at := p\<rparr>"] by (auto simp: whole_inv_def)

lemma insert_lock_inv:
  assumes inv: "whole_inv w" and env: "env_ok env" and pl: "main_at w = Insert_lock d"
    and st: "insert_lock env d (main_proc w) = Ret (a, s)"
  shows "whole_inv (w\<lparr>main_proc := s, main_at := Insert_link a\<rparr>)"
proof -
  let ?s = "main_proc w"
  let ?n = "\<lparr>node_data = d, node_next = NULL\<rparr>"
  have rec: "records_inv w" using inv by (simp add: whole_inv_def)
  have a: "a = malloc_node env (nodes ?s)" and lock: "lock_mutex (listMutex ?s) = Ret (listMutex s)"
    and s: "s = ?s\<lparr>nodes := (nodes ?s)(a \<mapsto> ?n), listMutex := listMutex s\<rparr>"
    using st by (auto simp: insert_lock_def lock_list_def Let_def obind_Ret_iff split: if_splits)
  then have lm: "listMutex ?s = Unlocked" "listMutex s = Locked"
    by (cases "listMutex ?s"; simp)+
  have new: "a \<noteq> NULL" "nodes ?s a = None" using env records_inv_nodes [OF rec] by (simp_all add: env_ok_def a)
  have fin: "finite (dom (nodes s))" using records_inv_nodes [OF rec] by (subst s) simp
  obtain cs where cs: "cells_ok w cs" "place_ok w cs" using inv lm by (auto simp: whole_inv_def)
  have an: "a \<notin> cell_node ` set cs"
    using cs(1) new(2) lseg_allocated [of "nodes ?s" "datas ?s" "head ?s" cs NULL]
    by (fastforce simp: cells_ok_def threads_rep_def)
  have rep: "threads_rep s cs"
    using cs(1) lseg_upd_node [of "nodes ?s" "datas ?s" "head ?s" cs NULL a "Some ?n"] an
    by (subst s) (simp add: cells_ok_def threads_rep_def)
  have sim: "datas s = datas ?s" "trace s = trace ?s" "isError s = isError ?s" "nodes s a = Some ?n"
    by (subst s, simp)+
  show ?thesis
  proof (rule main_step_keeps [OF inv sim(1,2) fin])
    show "signal_inv s (Insert_link a)" using inv lm sim pl by (simp add: whole_inv_def signal_inv_def)
    let ?w = "w\<lparr>main_proc := s, main_at := Insert_link a\<rparr>"
    have lv: "unjoined ?w i = unjoined w i" for i by (rule unjoined_cong) (simp_all add: sim)
    have "cells_ok ?w cs" by (rule cells_ok_cong [OF cs(1)]) (simp_all add: rep sim)
    moreover have "place_ok ?w cs" using cs(2) pl new an sim(4) by (auto simp: place_ok_def lv)
    ultimately show "\<exists>cs. cells_ok ?w cs \<and> place_ok ?w cs" by blast
  qed
qed

lemma insert_link_inv:
  assumes inv: "whole_inv w" and pl: "main_at w = Insert_link a"
  shows "\<exists>s. insert_link a (main_proc w) = Some (Ret s) \<and>
    whole_inv (w\<lparr>main_proc := s, main_at := Clean_lock\<rparr>)"
proof -
  let ?s = "main_proc w"
  have rec: "records_inv w" using inv by (simp add: whole_inv_def)
  have lm: "listMutex ?s = Locked" using inv pl by (auto simp: whole_inv_def signal_inv_def split: if_splits)
  obtain cs where cs: "cells_ok w cs" "place_ok w cs" using inv lm by (auto simp: whole_inv_def)
  have rep: "threads_rep ?s cs" using cs(1) by (simp add: cells_ok_def)
  obtain i where i: "unjoined w i" "records w ! i \<notin> cell_data ` set cs"
    and a: "nodes ?s a = Some \<lparr>node_data = records w ! i, node_next = NULL\<rparr>" "a \<noteq> NULL" "a \<notin> cell_node ` set cs"
    using cs(2) pl by (auto simp: place_ok_def)
  obtain t where t: "datas ?s (records w ! i) = Some t" "threadId t = i"
    using unjoined_record [OF rec i(1)] by blast
  obtain s where s: "insert_link a ?s = Some (Ret s)" "threads_rep s (cs @ [(a, records w ! i, t)])"
    "listMutex s = Unlocked" "trace s = trace ?s" "datas s = datas ?s" "isError s = isError ?s"
    "dom (nodes s) = dom (nodes ?s)"
    using insert_link_effect [OF rep lm a t(1) i(2)] by blast
  have "whole_inv (w\<lparr>main_proc := s, main_at := Clean_lock\<rparr>)"
  proof (rule main_step_keeps [OF inv s(5,4)])
    show "finite (dom (nodes s))" using s(7) records_inv_nodes [OF rec] by simp
    show "signal_inv s Clean_lock" using inv pl lm s(3,6) by (simp add: whole_inv_def signal_inv_def)
    let ?w = "w\<lparr>main_proc := s, main_at := Clean_lock\<rparr>" and ?cs = "cs @ [(a, records w ! i, t)]"
    have lv: "unjoined ?w j = unjoined w j" for j by (rule unjoined_cong) (simp_all add: s)
    have "cells_ok ?w ?cs" using cs(1) s(2) i(1) t(2) by (auto simp: cells_ok_def lv)
    then show "\<exists>cs. cells_ok ?w cs \<and> place_ok ?w cs" by (auto simp: place_ok_def)
  qed
  then show ?thesis using s(1) by blast
qed

text \<open>Locking the list for a walk, and unlocking it.\<close>

lemma list_lock_inv:
  assumes inv: "whole_inv w" and lk: "lock_list (main_proc w) = Ret s"
    and pl: "main_at w = Clean_lock \<and> p = Cleaning (head s) NULL \<or>
      (\<exists>b. main_at w = Shut_lock b \<and> p = Shutting (head s) NULL b)"
  shows "whole_inv (w\<lparr>main_proc := s, main_at := p\<rparr>)"
proof -
  let ?s = "main_proc w"
  have rec: "records_inv w" using inv by (simp add: whole_inv_def)
  have lm: "listMutex ?s = Unlocked" and s: "s = ?s\<lparr>listMutex := Locked\<rparr>"
    using lk by (cases "listMutex ?s"; auto simp: lock_list_def)+
  obtain cs where cs: "cells_ok w cs" using inv lm by (auto simp: whole_inv_def)
  have rep: "threads_rep s cs" using cs by (simp add: cells_ok_def threads_rep_def s)
  show ?thesis
  proof (rule main_step_keeps [OF inv])
    show "datas s = datas ?s" "trace s = trace ?s" "finite (dom (nodes s))"
      using records_inv_nodes [OF rec] by (simp_all add: s)
    have "b \<noteq> None" if "main_at w = Shut_lock b" for b
      using inv that lm by (auto simp: whole_inv_def signal_inv_def)
    then show "signal_inv s p" using inv pl lm by (auto simp: whole_inv_def signal_inv_def s)
    let ?w = "w\<lparr>main_proc := s, main_at := p\<rparr>"
    have "cells_ok ?w cs" by (rule cells_ok_cong [OF cs]) (use rep in \<open>simp_all add: s\<close>)
    moreover have "place_ok ?w cs" using pl walking_start [OF rep] by (auto simp: place_ok_def)
    ultimately show "\<exists>cs. cells_ok ?w cs \<and> place_ok ?w cs" by blast
  qed
qed

lemma list_unlock_inv:
  assumes inv: "whole_inv w" and pl: "main_at w = Cleaning c p"
  shows "\<exists>s. unlock_list (main_proc w) = Ret s \<and> whole_inv (w\<lparr>main_proc := s, main_at := Accepting\<rparr>)"
proof -
  let ?s = "(main_proc w)\<lparr>listMutex := Unlocked\<rparr>"
  have rec: "records_inv w" using inv by (simp add: whole_inv_def)
  have lm: "listMutex (main_proc w) = Locked"
    using inv pl by (auto simp: whole_inv_def signal_inv_def split: if_splits)
  obtain cs where cs: "cells_ok w cs" using inv lm by (auto simp: whole_inv_def)
  have "whole_inv (w\<lparr>main_proc := ?s, main_at := Accepting\<rparr>)"
  proof (rule main_step_keeps [OF inv])
    show "signal_inv ?s Accepting" using inv pl lm by (simp add: whole_inv_def signal_inv_def)
    let ?w = "w\<lparr>main_proc := ?s, main_at := Accepting\<rparr>"
    have "cells_ok ?w cs" by (rule cells_ok_cong [OF cs]) (use cs in \<open>simp_all add: cells_ok_def threads_rep_def\<close>)
    then show "\<exists>cs. cells_ok ?w cs \<and> place_ok ?w cs" by (auto simp: place_ok_def)
  qed (simp_all add: records_inv_nodes [OF rec])
  then show ?thesis using lm by (auto simp: unlock_list_def)
qed

text \<open>A round of a walk: it goes on, or waits for a thread that has not ended.\<close>

lemma join_inv:
  assumes inv: "whole_inv w" and cs: "cells_ok w (pre @ x # rest)" and lm: "listMutex (main_proc w) = Locked"
    and over: "ended w (cell_id x)" and rm: "removed (\<lambda>_. True) [x] (main_proc w) s"
    and dat: "datas s = (datas (main_proc w))(cell_data x := None)"
    and rep: "threads_rep s (pre @ rest)"
    and sig: "signal_inv s p" and pl: "place_ok (w\<lparr>main_proc := s, main_at := p\<rparr>) (pre @ rest)"
  shows "whole_inv (w\<lparr>main_proc := s, main_at := p\<rparr>)"
proof -
  let ?s = "main_proc w" and ?i = "cell_id x" and ?w = "w\<lparr>main_proc := s, main_at := p\<rparr>"
  have rec: "records_inv w" using inv by (simp add: whole_inv_def)
  have x: "unjoined w ?i" "records w ! ?i = cell_data x" using cs by (simp_all add: cells_ok_def)
  have tr: "trace s = trace ?s @ [Joined ?i]" and dn: "dom (nodes s) = dom (nodes ?s) - {cell_node x}"
    using rm by (simp_all add: removed_def joins_def)
  have lv: "unjoined ?w j \<longleftrightarrow> unjoined w j \<and> j \<noteq> ?i" for j by (auto simp: unjoined_def tr)
  have "records_inv ?w"
    unfolding records_inv_def Let_def
  proof (intro conjI allI impI ballI)
    show "length (records ?w) = length (sessions (threads ?w))" "finite (dom (datas (main_proc ?w)))"
      "finite (dom (nodes (main_proc ?w)))"
      using rec dn by (simp_all add: dat records_inv_def Let_def)
    show "j < length (sessions (threads ?w))" "place (sessions (threads ?w) ! j) = Done"
      if "Joined j \<in> set (trace (main_proc ?w))" for j
      using that rec over by (auto simp: tr records_inv_def Let_def ended_def)
    show "\<exists>t. datas (main_proc ?w) (records ?w ! j) = Some t \<and> threadId t = j \<and>
        thread_data_t.isComplete t = complete (sessions (threads ?w) ! j)" if "unjoined ?w j" for j
    proof -
      have l: "unjoined w j" "j \<noteq> ?i" using that lv by simp_all
      then have "records w ! j \<noteq> cell_data x" using records_distinct [OF rec l(1) x(1)] x(2) by auto
      then show ?thesis using unjoined_record [OF rec l(1)] by (simp add: dat)
    qed
    show "complete t = (if place t = End_socket \<or> place t = Done then 1 else 0)"
      if "t \<in> set (sessions (threads ?w))" for t
      using that rec by (simp add: records_inv_def Let_def)
  qed
  moreover have "cell_id c \<noteq> ?i" if "c \<in> set (pre @ rest)" for c
  proof
    assume "cell_id c = ?i"
    moreover have "records w ! cell_id c = cell_data c" using that cs by (auto simp: cells_ok_def)
    ultimately have "cell_data c = cell_data x" using x(2) by simp
    then show False using that cs by (auto simp: cells_ok_def threads_rep_def separate_def image_iff)
  qed
  then have "cells_ok ?w (pre @ rest)" using cs rep by (auto simp: cells_ok_def lv)
  ultimately show ?thesis using sig pl by (auto simp: whole_inv_def)
qed

text \<open>The two loops that remove records, at the end of a connection and in the shutdown.\<close>

definition removing :: "(ptr \<Rightarrow> ptr \<Rightarrow> main_place) \<Rightarrow> bool" where
  "removing q \<longleftrightarrow> q = Cleaning \<or> (\<exists>b. q = (\<lambda>c p. Shutting c p b))"

lemma removing_intros [simp]: "removing Cleaning" "removing (\<lambda>c p. Shutting c p b)"
  by (auto simp: removing_def)

lemma removing_signal_inv:
  assumes "removing q" and "signal_inv s (q c p)" and "listMutex s' = Locked" "isError s' = isError s"
    and "listMutex s = Locked"
  shows "signal_inv s' (q c' p')"
proof -
  have "sound_place (q c p) \<Longrightarrow> sound_place (q c' p')" "handling (q c p) = handling (q c' p')"
    "in_list (q c' p')" "q c' p' \<noteq> Shut_lock None"
    using assms(1) by (auto simp: removing_def, case_tac b, auto)
  then show ?thesis using assms(2-) by (simp add: signal_inv_def)
qed

lemma removing_place_ok:
  "removing q \<Longrightarrow> walking s cs c p \<Longrightarrow> place_ok (w\<lparr>main_proc := s, main_at := q c p\<rparr>) cs"
  by (auto simp: removing_def place_ok_def)

lemma removing_walks: "removing q \<Longrightarrow> main_at w = q c p \<Longrightarrow> place_ok w cs \<Longrightarrow> walking (main_proc w) cs c p"
  by (auto simp: removing_def place_ok_def)

lemma removing_locked: "removing q \<Longrightarrow> main_at w = q c p \<Longrightarrow> whole_inv w \<Longrightarrow> listMutex (main_proc w) = Locked"
  by (auto simp: removing_def whole_inv_def signal_inv_def split: if_splits)

lemma remove_round:
  assumes inv: "whole_inv w" and q: "removing q"
    and pl: "main_at w = q c p" and c: "c \<noteq> NULL"
  obtains (round) c' p' s where "remove_step (joining env w) which c p (main_proc w) = Ret (c', p', s)"
      and "whole_inv (w\<lparr>main_proc := s, main_at := q c' p'\<rparr>)"
  | (waits) i t where "remove_step (joining env w) which c p (main_proc w) = Blocked"
      and "unjoined w i" and "place (sessions (threads w) ! i) \<noteq> Done"
      and "datas (main_proc w) (records w ! i) = Some t" and "which t"
proof -
  let ?s = "main_proc w"
  note lm = removing_locked [OF q pl inv]
  obtain cs where cs: "cells_ok w cs" "place_ok w cs" using inv lm by (auto simp: whole_inv_def)
  from removing_walks [OF q pl cs(2)] obtain pre rest' where csd: "cs = pre @ rest'" and pre: "lseg (nodes ?s) (datas ?s) (head ?s) pre c"
    and rest': "lseg (nodes ?s) (datas ?s) c rest' NULL" and p: "p = (if pre = [] then NULL else cell_node (last pre))"
    by (auto simp: walking_def)
  obtain x rest where r: "rest' = x # rest" and cx: "c = cell_node x" using rest' c by (cases rest') auto
  have x: "unjoined w (cell_id x)" "records w ! cell_id x = cell_data x" "datas ?s (cell_data x) = Some (cell_thread x)"
    using cs(1) rest' by (simp_all add: cells_ok_def csd r)
  have fr: "Joined (cell_id x) \<notin> set (trace ?s)" using x(1) by (simp add: unjoined_def)
  have sep: "separate (pre @ x # rest)" using cs(1) by (simp add: cells_ok_def threads_rep_def csd r)
  have "signal_inv ?s (q c p)" using inv pl by (simp add: whole_inv_def)
  note sig = removing_signal_inv [OF q this _ _ lm] and plc = removing_place_ok [OF q]
  from pre [unfolded cx] rest' [unfolded cx r] sep p fr show thesis
  proof (cases rule: remove_step_effect [where env = "joining env w" and which = which])
    case (kept r')
    have "whole_inv (w\<lparr>main_proc := ?s, main_at := q r' (cell_node x)\<rparr>)"
    proof (rule main_step_keeps [OF inv refl refl])
      show "finite (dom (nodes ?s))" using inv by (simp add: whole_inv_def records_inv_nodes)
      show "signal_inv ?s (q r' (cell_node x))" by (rule sig [OF lm refl])
      have "cells_ok (w\<lparr>main_proc := ?s, main_at := q r' (cell_node x)\<rparr>) cs"
        using cs(1) by (simp add: cells_ok_def unjoined_def)
      then show "\<exists>cs. cells_ok (w\<lparr>main_proc := ?s, main_at := q r' (cell_node x)\<rparr>) cs \<and>
          place_ok (w\<lparr>main_proc := ?s, main_at := q r' (cell_node x)\<rparr>) cs"
        using plc [OF kept(3)] unfolding csd r by blast
    qed
    then show thesis using round kept(2) by (simp add: cx)
  next
    case (joins r' s')
    have "ended w (cell_id x)" using joins(2) by simp
    moreover have "listMutex s' = Locked" "isError s' = isError ?s"
      using joins(6) lm by (simp_all add: removed_def)
    ultimately have "whole_inv (w\<lparr>main_proc := s', main_at := q r' p\<rparr>)"
      using join_inv [OF inv _ lm _ joins(6,7,5) sig plc [OF joins(4)]] cs(1) by (simp add: csd r)
    then show thesis using round joins(3) by (simp add: cx)
  next
    case waits
    have "place (sessions (threads w) ! cell_id x) \<noteq> Done"
      using waits(2) x(1) by (simp add: ended_def unjoined_def)
    then show thesis using that(2) [of "cell_id x" "cell_thread x"] waits x by (simp add: cx)
  qed
qed

text \<open>The end of a shutdown.\<close>

lemma finish_inv:
  assumes inv: "whole_inv w" and pl: "main_at w = Shutting NULL p r"
    and fin: "finish_main cenv r w = Ret w'"
  shows "whole_inv w'"
proof -
  let ?s = "main_proc w"
  have rec: "records_inv w" and sig: "signal_inv ?s (main_at w)" using inv by (simp_all add: whole_inv_def)
  have lm: "listMutex ?s = Locked" using sig pl by (auto simp: signal_inv_def split: if_splits)
  obtain b where b: "r = Some b" "sound_place b" "\<not> in_list b"
    using sig pl by (cases r) (simp_all add: signal_inv_def)
  obtain s1 where fs: "finish_shutdown (use_char_device Aesdsocket)
      (?s\<lparr>proc.fileMutex := file_lock (shared (threads w)), proc.file_fd := global_fd (shared (threads w))\<rparr>) = Ret s1"
    and w': "sessions (threads w') = sessions (threads w)" "records w' = records w" "main_proc w' = s1" "main_at w' = b"
    using fin b by (auto simp: finish_main_def Let_def obind_Ret_iff)
  have s1: "datas s1 = datas ?s" "nodes s1 = nodes ?s" "isError s1 = isError ?s" "listMutex s1 = Destroyed"
    "\<And>i. Joined i \<in> set (trace s1) \<longleftrightarrow> Joined i \<in> set (trace ?s)"
    using fs lm by (auto simp: finish_shutdown_def unlock_list_def Let_def obind_Ret_iff)
  have "records_inv w'"
    by (rule records_inv_cong [OF rec]) (simp_all add: w' s1 records_inv_nodes [OF rec])
  moreover have "isError ?s" using sig lm pl by (simp add: signal_inv_def)
  then have "signal_inv s1 b" using b s1 by (simp add: signal_inv_def)
  ultimately show ?thesis using w' s1 by (simp add: whole_inv_def)
qed

text \<open>A round of a walk as a step of the main thread.\<close>

lemma walk_step_inv:
  assumes inv: "whole_inv w" and q: "removing q"
    and pl: "main_at w = q c p" and c: "c \<noteq> NULL"
    and st: "obind (remove_step (joining env w) which c p (main_proc w)) (\<lambda>(c, p, s).
      Ret (w\<lparr>main_proc := s, main_at := q c p\<rparr>)) = Ret w'"
  shows "whole_inv w'"
  using inv q pl c by (cases rule: remove_round [where env = env and which = which]) (use st in auto)

lemma main_step_inv:
  assumes inv: "whole_inv w" and env: "env_ok env" and st: "main_step env cenv w = Some (Ret w')"
  shows "whole_inv w'"
proof (cases "main_at w")
  case Accepting
  then have w': "w' = w\<lparr>main_at := Shut_lock None\<rparr>" and "isError (main_proc w)"
    using st by (auto simp: main_step_def Let_def split: if_splits)
  then have "listMutex (main_proc w) = Destroyed"
    using inv Accepting by (auto simp: whole_inv_def signal_inv_def split: if_splits)
  moreover have rec: "records_inv w" using inv by (simp add: whole_inv_def)
  have "records_inv w'" by (rule records_inv_cong [OF rec]) (simp_all add: w' records_inv_nodes [OF rec])
  ultimately show ?thesis using inv Accepting by (simp add: whole_inv_def signal_inv_def w')
next
  case (Insert_lock d)
  then obtain a s where "insert_lock env d (main_proc w) = Ret (a, s)"
    and "w' = w\<lparr>main_proc := s, main_at := Insert_link a\<rparr>"
    using st by (auto simp: main_step_def Let_def obind_Ret_iff)
  then show ?thesis using insert_lock_inv [OF inv env Insert_lock] by simp
next
  case (Insert_link a)
  then show ?thesis using insert_link_inv [OF inv Insert_link] st by (auto simp: main_step_def Let_def)
next
  case Clean_lock
  then show ?thesis using list_lock_inv [OF inv] st by (auto simp: main_step_def Let_def obind_Ret_iff)
next
  case (Cleaning c p)
  then show ?thesis using list_unlock_inv [OF inv Cleaning] walk_step_inv [OF inv, of Cleaning c p env flagged w'] st
    by (cases "c = NULL") (auto simp: main_step_def Let_def)
next
  case (Shut_lock r)
  then show ?thesis using list_lock_inv [OF inv] st by (auto simp: main_step_def Let_def obind_Ret_iff)
next
  case (Shutting c p r)
  then show ?thesis using finish_inv [OF inv] st
      walk_step_inv [OF inv, of "\<lambda>c p. Shutting c p r" c p env "\<lambda>_. True" w']
    by (cases "c = NULL") (auto simp: main_step_def Let_def)
next
  case Finished
  then show ?thesis using st by (simp add: main_step_def)
qed

subsection \<open>Progress\<close>

text \<open>A thread that has set its flag and has not ended has one statement left.\<close>

lemma flagged_thread_ends:
  assumes rec: "records_inv w" and i: "unjoined w i" "place (sessions (threads w) ! i) \<noteq> Done"
    and t: "datas (main_proc w) (records w ! i) = Some t" "flagged t"
  shows "i < length (sessions (threads w)) \<and> place (sessions (threads w) ! i) = End_socket \<and>
    (\<exists>w'. handler_step cenv i w = Ret w' \<and> place (sessions (threads w') ! i) = Done)"
proof -
  have len: "i < length (sessions (threads w))" using i by (simp add: unjoined_def)
  have "complete (sessions (threads w) ! i) \<noteq> 0" using unjoined_record [OF rec i(1)] t by auto
  then have "place (sessions (threads w) ! i) = End_socket"
    using rec len i(2) by (auto simp: records_inv_def Let_def split: if_splits)
  then show ?thesis
    using t len by (simp add: handler_step_def Let_def session_step_def uses_record_def)
qed

lemma clean_progress:
  assumes inv: "whole_inv w" and pl: "main_at w = Cleaning c p"
  shows "(\<exists>w'. main_step env cenv w = Some (Ret w')) \<or>
    main_step env cenv w = Some Blocked \<and>
      (\<exists>i w'. i < length (sessions (threads w)) \<and> place (sessions (threads w) ! i) = End_socket \<and>
          handler_step cenv i w = Ret w' \<and> place (sessions (threads w') ! i) = Done)"
proof (cases "c = NULL")
  case True
  then show ?thesis using list_unlock_inv [OF inv pl] pl by (auto simp: main_step_def Let_def)
next
  case False
  have rec: "records_inv w" using inv by (simp add: whole_inv_def)
  from inv removing_intros(1) pl False show ?thesis
  proof (cases rule: remove_round [where env = env and which = flagged])
    case (round c' p' s')
    then show ?thesis using pl False by (simp add: main_step_def)
  next
    case (waits i t)
    then have "main_step env cenv w = Some Blocked" using pl False by (simp add: main_step_def)
    then show ?thesis using flagged_thread_ends [OF rec waits(2-5)] by blast
  qed
qed

text \<open>Without a signal, what the list mutex is at each place, and that the main thread goes on.\<close>

lemma unsignalled_place:
  assumes "whole_inv w" and "\<not> isError (main_proc w)"
  shows "\<not> handling (main_at w)" and "listMutex (main_proc w) = (if in_list (main_at w) then Locked else Unlocked)"
  using assms by (cases "listMutex (main_proc w)"; auto simp: whole_inv_def signal_inv_def)+

lemma main_progress:
  assumes inv: "whole_inv w" and env: "env_ok env" and quiet: "\<not> isError (main_proc w)"
  shows "(\<exists>w'. main_step env cenv w = Some (Ret w')) \<or>
    main_step env cenv w = Some Blocked \<and>
      (main_at w = Accepting \<or>
       (\<exists>i w'. i < length (sessions (threads w)) \<and> place (sessions (threads w) ! i) = End_socket \<and>
          handler_step cenv i w = Ret w' \<and> place (sessions (threads w') ! i) = Done))"
proof -
  have rec: "records_inv w" and snd: "sound_place (main_at w)"
    using inv by (auto simp: whole_inv_def signal_inv_def)
  note nh = unsignalled_place(1) [OF inv quiet] and lm = unsignalled_place(2) [OF inv quiet]
  show ?thesis
  proof (cases "main_at w")
    case Accepting
    then show ?thesis using quiet by (simp add: main_step_def)
  next
    case (Insert_lock d)
    have "malloc_node env (nodes (main_proc w)) \<noteq> NULL"
      using env records_inv_nodes [OF rec] by (simp add: env_ok_def)
    then show ?thesis using Insert_lock lm by (simp add: main_step_def insert_lock_def Let_def lock_list_def)
  next
    case (Insert_link a)
    then show ?thesis using insert_link_inv [OF inv Insert_link] by (auto simp: main_step_def Let_def)
  next
    case Clean_lock
    then show ?thesis using lm by (simp add: main_step_def Let_def lock_list_def)
  next
    case (Cleaning c p)
    then show ?thesis using clean_progress [OF inv Cleaning] by blast
  qed (use nh snd in simp_all)
qed

lemma whole_step_inv:
  assumes "whole_step env cenv w w'" and "env_ok env" and "whole_inv w"
  shows "whole_inv w'"
  using assms
proof (induction rule: whole_step.induct)
  case (statement_of_main w w')
  then show ?case using main_step_inv by blast
next
  case (statement_of_handler i w w')
  then show ?case using handler_step_inv by blast
next
  case (client w fd rs)
  then show ?case using client_inv by blast
next
  case (no_thread w fd)
  then show ?case using no_thread_inv by blast
next
  case (signal w)
  then show ?case using signal_step_inv by blast
qed

lemma whole_started_inv:
  assumes "main_setup net argv initial_proc = (None, s)"
  shows "whole_inv (started s f)"
proof -
  have inv: "loop_inv [] [] s" by (rule setup_inv [OF assms])
  then have "trace s = []"
    using assms by (auto simp: main_setup_def initial_proc_def Let_def split: if_splits)
  then have "records_inv (started s f)" and "cells_ok (started s f) []"
    using inv by (simp_all add: records_inv_def started_def idle_server_def unjoined_def loop_inv_def cells_ok_def)
  moreover have "signal_inv s Accepting" using inv by (simp add: signal_inv_def loop_inv_def)
  ultimately show ?thesis
    by (auto simp: whole_inv_def started_def place_ok_def)
qed

lemma reachable_inv:
  assumes start: "main_setup net argv initial_proc = (None, s)" and env: "env_ok env"
    and run: "(whole_step env cenv)\<^sup>*\<^sup>* (started s f) w"
  shows "whole_inv w"
  using run
proof (induction rule: rtranclp_induct)
  case base
  show ?case by (rule whole_started_inv [OF start])
next
  case (step w w')
  then show ?case using whole_step_inv [OF _ env] by blast
qed

end
