(* ===== verification/Whole_Runs.thy ===== *)
theory Whole_Runs
  imports Whole_Invariant Session_Runs Device_File
begin

text \<open>
  Runs of the whole server: the small steps of the main thread do what the functions of
  \<open>Thread_List\<close> say when nothing else moves, a handler runs beside a main thread that stands still, and
  one client after the other is accepted, served and joined.
\<close>

subsection \<open>The functions of the main thread\<close>

definition main_moves :: "thread_env \<Rightarrow> 'f client_env \<Rightarrow> 'f whole \<Rightarrow> 'f whole \<Rightarrow> bool" where
  "main_moves env cenv w w' \<longleftrightarrow> main_step env cenv w = Some (Ret w')"

lemma main_moves_whole: "(main_moves env cenv)\<^sup>*\<^sup>* w w' \<Longrightarrow> (whole_step env cenv)\<^sup>*\<^sup>* w w'"
  by (induction rule: rtranclp_induct) (auto simp: main_moves_def intro: rtranclp.rtrancl_into_rtrancl whole_step.statement_of_main)

lemma main_move: "main_step env cenv w = Some (Ret w') \<Longrightarrow> (main_moves env cenv)\<^sup>*\<^sup>* w' w'' \<Longrightarrow>
    (main_moves env cenv)\<^sup>*\<^sup>* w w''"
  by (simp add: converse_rtranclp_into_rtranclp main_moves_def)

lemma main_steps: "main_step env cenv w = Some (Ret w') \<Longrightarrow> (whole_step env cenv)\<^sup>*\<^sup>* w' w'' \<Longrightarrow>
    (whole_step env cenv)\<^sup>*\<^sup>* w w''"
  by (meson converse_rtranclp_into_rtranclp whole_step.statement_of_main)

lemma remove_loop_run:
  "remove_loop tenv which c p s = Some y \<Longrightarrow> y = Ret s' \<Longrightarrow> tenv = joining env w \<Longrightarrow>
     which = flagged \<Longrightarrow>
     \<exists>p'. (main_moves env cenv)\<^sup>*\<^sup>* (w\<lparr>main_proc := s, main_at := Cleaning c p\<rparr>)
       (w\<lparr>main_proc := s', main_at := Cleaning NULL p'\<rparr>)"
proof (induction tenv which c p s y rule: remove_loop.raw_induct [rotated, consumes 1, case_names step])
  case (step loop tenv which c p s y)
  let ?w = "w\<lparr>main_proc := s, main_at := Cleaning c p\<rparr>"
  have j: "joining env ?w = tenv" using step by (simp add: ended_def fun_eq_iff)
  show ?case
  proof (cases "c = NULL")
    case True
    then show ?thesis using step by auto
  next
    case False
    then obtain n t where n: "nodes s c = Some n" and t: "datas s (node_data n) = Some t"
      using step by (auto split: option.splits)
    show ?thesis
    proof (cases "which t")
      case True
      then obtain x where x: "remove_current tenv p c n t s = Ret x" and rest: "loop tenv which (fst x) p (snd x) = Some y"
        using step(2,3) False n t by (auto split: outcome.splits)
      have "remove_step tenv which c p s = Ret (fst x, p, snd x)"
        using n t True x by (simp add: remove_step_def split_def)
      then have "main_step env cenv ?w = Some (Ret (w\<lparr>main_proc := snd x, main_at := Cleaning (fst x) p\<rparr>))"
        using False j step(5) by (simp add: main_step_def)
      then show ?thesis using step.IH [OF rest step(3-5)] main_move by blast
    next
      case keep: False
      then have rest: "loop tenv which (node_next n) c s = Some y" using step(2) False n t by simp
      have "remove_step tenv which c p s = Ret (node_next n, c, s)"
        using n t keep by (simp add: remove_step_def)
      then have "main_step env cenv ?w = Some (Ret (w\<lparr>main_proc := s, main_at := Cleaning (node_next n) c\<rparr>))"
        using False j step(5) by (simp add: main_step_def)
      then show ?thesis using step.IH [OF rest step(3-5)] main_move by blast
    qed
  qed
qed

lemma clean_run:
  assumes "removeCompletedThreads (joining env w) (main_proc w) = Some (Ret s')" and "main_at w = Clean_lock"
  shows "(whole_step env cenv)\<^sup>*\<^sup>* w (w\<lparr>main_proc := s', main_at := Accepting\<rparr>)"
proof -
  obtain s1 s2 where s1: "lock_list (main_proc w) = Ret s1"
    and s2: "remove_loop (joining env w) flagged (head s1) NULL s1 = Some (Ret s2)"
    and s': "unlock_list s2 = Ret s'"
    using assms(1) by (auto simp: removeCompletedThreads_def obind_Ret_iff split: outcome.splits)
  have "main_step env cenv w = Some (Ret (w\<lparr>main_proc := s1, main_at := Cleaning (head s1) NULL\<rparr>))"
    using assms(2) s1 by (simp add: main_step_def)
  moreover obtain p where "(whole_step env cenv)\<^sup>*\<^sup>* (w\<lparr>main_proc := s1, main_at := Cleaning (head s1) NULL\<rparr>)
      (w\<lparr>main_proc := s2, main_at := Cleaning NULL p\<rparr>)"
    using remove_loop_run [OF s2 refl refl refl] main_moves_whole by blast
  moreover have "main_step env cenv (w\<lparr>main_proc := s2, main_at := Cleaning NULL p\<rparr>) =
      Some (Ret (w\<lparr>main_proc := s', main_at := Accepting\<rparr>))"
    using s' by (simp add: main_step_def)
  ultimately show ?thesis by (meson main_steps rtranclp.rtrancl_refl rtranclp_trans)
qed

lemma insert_run:
  assumes "insertNode env d (main_proc w) = Some (Ret s')" and "main_at w = Insert_lock d"
  shows "(whole_step env cenv)\<^sup>*\<^sup>* w (w\<lparr>main_proc := s', main_at := Clean_lock\<rparr>)"
proof -
  obtain a s where a: "insert_lock env d (main_proc w) = Ret (a, s)" "insert_link a s = Some (Ret s')"
    using assms(1) unfolding insertNode_steps by (cases "insert_lock env d (main_proc w)") auto
  have "main_step env cenv w = Some (Ret (w\<lparr>main_proc := s, main_at := Insert_link a\<rparr>))"
    using assms(2) a(1) by (simp add: main_step_def)
  moreover have "main_step env cenv (w\<lparr>main_proc := s, main_at := Insert_link a\<rparr>) =
      Some (Ret (w\<lparr>main_proc := s', main_at := Clean_lock\<rparr>))"
    using a(2) by (simp add: main_step_def)
  ultimately show ?thesis by (meson main_steps rtranclp.rtrancl_refl)
qed

text \<open>A round of the accept loop: the thread could not be created, or it could.\<close>

lemma no_thread_run:
  assumes acc: "accepts env w" and s1: "start_thread (joining env w) i (main_proc w) = Some (Ret s1)"
    and none: "created i = None" and s2: "removeCompletedThreads (joining env w) s1 = Some (Ret s')"
  shows "(whole_step env cenv)\<^sup>*\<^sup>* w (w\<lparr>main_proc := s', main_at := Accepting\<rparr>)"
proof -
  let ?w = "failed_session env (accepted_fd i) w"
  have w: "?w = w\<lparr>main_proc := s1, main_at := Clean_lock\<rparr>"
    using s1 none acc by (simp add: accepts_def failed_session_def new_record_def start_thread_def Let_def)
  have "joining env ?w = joining env w" by (simp add: w ended_def fun_eq_iff)
  then have "(whole_step env cenv)\<^sup>*\<^sup>* ?w (?w\<lparr>main_proc := s', main_at := Accepting\<rparr>)"
    using s2 by (intro clean_run) (simp_all add: w)
  then show ?thesis using whole_step.no_thread [OF acc, of cenv "accepted_fd i"]
    by (simp add: w converse_rtranclp_into_rtranclp)
qed

lemma client_run:
  assumes acc: "accepts env w" and s1: "start_thread (joining env w) i (main_proc w) = Some (Ret s1)"
    and tid: "created i = Some (length (sessions (threads w)))"
    and s2: "removeCompletedThreads (joining env w) s1 = Some (Ret s')"
  shows "\<exists>w'. (whole_step env cenv)\<^sup>*\<^sup>* w w' \<and> main_proc w' = s' \<and> main_at w' = Accepting \<and>
    shared (threads w') = shared (threads w) \<and> sessions (threads w') = sessions (threads w) @ [new_session cenv rs]"
proof -
  let ?w = "start_session env cenv (accepted_fd i) rs w" and ?d = "malloc_data env (datas (main_proc w))"
  let ?w1 = "?w\<lparr>main_proc := s1, main_at := Clean_lock\<rparr>"
  have "insertNode (joining env w) ?d (main_proc ?w) = Some (Ret s1)"
    using s1 tid acc by (simp add: accepts_def start_session_simps start_thread_def Let_def)
  then have "insertNode env ?d (main_proc ?w) = Some (Ret s1)" by (simp add: insertNode_def)
  then have "(whole_step env cenv)\<^sup>*\<^sup>* ?w ?w1" by (rule insert_run) (simp add: start_session_simps)
  moreover have "ended ?w1 = ended w"
    by (auto simp: ended_def start_session_simps fun_eq_iff nth_append less_Suc_eq new_session_def)
  then have "(whole_step env cenv)\<^sup>*\<^sup>* ?w1 (?w1\<lparr>main_proc := s', main_at := Accepting\<rparr>)"
    using s2 by (intro clean_run) simp_all
  ultimately have "(whole_step env cenv)\<^sup>*\<^sup>* w (?w1\<lparr>main_proc := s', main_at := Accepting\<rparr>)"
    using whole_step.client [OF acc] by (meson converse_rtranclp_into_rtranclp rtranclp_trans)
  then show ?thesis
    by (intro exI [of _ "?w1\<lparr>main_proc := s', main_at := Accepting\<rparr>"]) (simp add: start_session_simps)
qed

subsection \<open>A handler beside the main thread\<close>

lemma set_complete_twice [simp]: "set_complete d (set_complete d s) = set_complete d s"
  by (cases "datas s d") (simp_all add: set_complete_def)

text \<open>All that a handler does to the state of the main thread is to set its flag.\<close>

definition may_complete :: "ptr \<Rightarrow> proc \<Rightarrow> proc \<Rightarrow> bool" where
  "may_complete d s p \<longleftrightarrow> p = s \<or> p = set_complete d s"

lemma handler_run:
  "session_run cenv n (sessions (threads w) ! i) (shared (threads w)) = Ret (t, s) \<Longrightarrow>
     whole_inv w \<Longrightarrow> unjoined w i \<Longrightarrow>
     \<exists>p. (whole_step env cenv)\<^sup>*\<^sup>* w (w\<lparr>main_proc := p,
           threads := (threads w)\<lparr>shared := s, sessions := (sessions (threads w))[i := t]\<rparr>\<rparr>) \<and>
       whole_inv (w\<lparr>main_proc := p,
           threads := (threads w)\<lparr>shared := s, sessions := (sessions (threads w))[i := t]\<rparr>\<rparr>) \<and>
       may_complete (records w ! i) (main_proc w) p"
proof (induction n arbitrary: w)
  case 0
  have "(sessions (threads w))[i := t] = sessions (threads w)" "s = shared (threads w)"
    using 0 by (simp_all add: list_update_id) auto
  then have "w\<lparr>main_proc := main_proc w, threads := (threads w)\<lparr>shared := s,
      sessions := (sessions (threads w))[i := t]\<rparr>\<rparr> = w" by simp
  then show ?case using 0 by (intro exI [of _ "main_proc w"]) (simp add: may_complete_def)
next
  case (Suc n)
  let ?d = "records w ! i" and ?t = "sessions (threads w) ! i"
  obtain t1 s1 where st: "session_step cenv ?t (shared (threads w)) = Ret (t1, s1)"
    and run: "session_run cenv n t1 s1 = Ret (t, s)"
    using Suc.prems(1) by (auto simp: obind_Ret_iff)
  let ?p = "if place ?t = End_complete then set_complete ?d (main_proc w) else main_proc w"
  let ?w = "w\<lparr>threads := (threads w)\<lparr>shared := s1, sessions := (sessions (threads w))[i := t1]\<rparr>, main_proc := ?p\<rparr>"
  have i: "i < length (sessions (threads w))" using Suc.prems(3) by (simp add: unjoined_def)
  have "datas (main_proc w) ?d \<noteq> None"
    using unjoined_record [OF _ Suc.prems(3)] Suc.prems(2) by (auto simp: whole_inv_def)
  then have h: "handler_step cenv i w = Ret ?w" using st by (simp add: handler_step_def Let_def)
  have inv: "whole_inv ?w" by (rule handler_step_inv [OF Suc.prems(2) i h])
  have lv: "unjoined ?w i" using Suc.prems(3) by (simp add: unjoined_def)
  have run': "session_run cenv n (sessions (threads ?w) ! i) (shared (threads ?w)) = Ret (t, s)"
    using run i by simp
  from Suc.IH [OF run' inv lv] obtain q where q: "(whole_step env cenv)\<^sup>*\<^sup>* ?w (?w\<lparr>main_proc := q,
      threads := (threads ?w)\<lparr>shared := s, sessions := (sessions (threads ?w))[i := t]\<rparr>\<rparr>)"
    "whole_inv (?w\<lparr>main_proc := q,
      threads := (threads ?w)\<lparr>shared := s, sessions := (sessions (threads ?w))[i := t]\<rparr>\<rparr>)"
    "may_complete (records ?w ! i) (main_proc ?w) q"
    by blast
  have "whole_step env cenv w ?w" using i h by (rule whole_step.statement_of_handler)
  moreover have "may_complete ?d (main_proc w) q" using q(3) by (auto simp: may_complete_def split: if_splits)
  ultimately show ?case using q(1,2) by (intro exI [of _ q]) (simp add: converse_rtranclp_into_rtranclp)
qed

subsection \<open>One client after the other\<close>

text \<open>All clients have been served and joined, and the server waits for the next.\<close>

definition quiet :: "'f whole \<Rightarrow> bool" where
  "quiet w \<longleftrightarrow> whole_inv w \<and> main_at w = Accepting \<and> \<not> isError (main_proc w) \<and>
     nodes (main_proc w) = Map.empty \<and> datas (main_proc w) = Map.empty"

lemma quiet_list:
  assumes "quiet w"
  shows "threads_rep (main_proc w) []" and "listMutex (main_proc w) = Unlocked"
proof -
  have inv: "whole_inv w" and em: "nodes (main_proc w) = Map.empty"
    and er: "main_at w = Accepting" "\<not> isError (main_proc w)"
    using assms by (simp_all add: quiet_def)
  then show lm: "listMutex (main_proc w) = Unlocked"
    by (cases "listMutex (main_proc w)") (auto simp: whole_inv_def signal_inv_def)
  then obtain cs where "cells_ok w cs" using inv by (auto simp: whole_inv_def)
  moreover from this em have "cs = []" by (cases cs) (auto simp: cells_ok_def threads_rep_def)
  ultimately show "threads_rep (main_proc w) []" by (simp add: cells_ok_def)
qed

lemma run_inv: "(whole_step env cenv)\<^sup>*\<^sup>* w w' \<Longrightarrow> env_ok env \<Longrightarrow> whole_inv w \<Longrightarrow> whole_inv w'"
  by (induction rule: rtranclp_induct) (auto intro: whole_step_inv)

text \<open>Accepting a client, up to the cleaning of the list.\<close>

lemma accept_run:
  assumes q: "quiet w" and env: "env_ok env"
  shows "\<exists>w1 s a d t. (whole_step env cenv)\<^sup>*\<^sup>* w w1 \<and>
    w1 = w\<lparr>main_proc := s, records := records w @ [d], main_at := Clean_lock,
      threads := (threads w)\<lparr>sessions := sessions (threads w) @ [new_session cenv rs]\<rparr>\<rparr> \<and>
    threads_rep s [(a, d, t)] \<and> listMutex s = Unlocked \<and> \<not> isError s \<and> trace s = trace (main_proc w) \<and>
    threadId t = length (sessions (threads w)) \<and> dom (nodes s) = {a} \<and> dom (datas s) = {d}"
proof -
  let ?s = "main_proc w" and ?n = "length (sessions (threads w))"
  let ?w = "start_session env cenv 4 rs w"
  let ?d = "malloc_data env (datas ?s)" and ?a = "malloc_node env (nodes ?s)"
  let ?t = "\<lparr>threadId = ?n, client_fd = 4, thread_data_t.isComplete = 0\<rparr>"
  let ?s1 = "?s\<lparr>datas := (datas ?s)(?d \<mapsto> ?t)\<rparr>"
  have em: "nodes ?s = Map.empty" "datas ?s = Map.empty" using q by (simp_all add: quiet_def)
  have new: "?d \<noteq> NULL" "?a \<noteq> NULL" "nodes ?s ?a = None"
    using env em by (simp_all add: env_ok_def)
  have w: "?w = w\<lparr>main_proc := ?s1, records := records w @ [?d], main_at := Insert_lock ?d,
      threads := (threads w)\<lparr>sessions := sessions (threads w) @ [new_session cenv rs]\<rparr>\<rparr>"
    by (simp add: start_session_def new_record_def Let_def)
  have rep: "threads_rep ?s1 []" and unl: "listMutex ?s1 = Unlocked"
    using quiet_list [OF q] by (simp_all add: threads_rep_def)
  have al: "malloc_node env (nodes ?s1) = ?a" "nodes ?s1 ?a = None" "datas ?s1 ?d = Some ?t"
    using new by simp_all
  have none: "?d \<notin> cell_data ` set []" by simp
  obtain s where s: "insertNode env ?d ?s1 = Some (Ret s)" "threads_rep s ([] @ [(?a, ?d, ?t)])"
    "listMutex s = Unlocked" "trace s = trace ?s1" "datas s = datas ?s1" "isError s = isError ?s1"
    "dom (nodes s) = insert ?a (dom (nodes ?s1))"
    using insertNode_effect [OF rep unl al(1) new(2) al(2,3) none] by (elim exE conjE) (rule that; assumption)
  have "whole_step env cenv w ?w" using q new by (intro whole_step.client) (simp add: accepts_def quiet_def)
  moreover have "(whole_step env cenv)\<^sup>*\<^sup>* ?w (?w\<lparr>main_proc := s, main_at := Clean_lock\<rparr>)"
    using s(1) by (intro insert_run [where d = ?d]) (simp_all add: w)
  ultimately have "(whole_step env cenv)\<^sup>*\<^sup>* w (?w\<lparr>main_proc := s, main_at := Clean_lock\<rparr>)"
    by (rule converse_rtranclp_into_rtranclp)
  then show ?thesis using s q em
    by (intro exI [of _ "?w\<lparr>main_proc := s, main_at := Clean_lock\<rparr>"] exI [of _ s] exI [of _ ?a]
        exI [of _ ?d] exI [of _ ?t]) (simp add: w quiet_def)
qed

text \<open>Joining the only thread of the list, which has ended.\<close>

lemma clean_one_run:
  assumes inv: "whole_inv w" and pl: "main_at w = Clean_lock" and err: "\<not> isError (main_proc w)"
    and rep: "threads_rep (main_proc w) [(a, d, t)]" and unl: "listMutex (main_proc w) = Unlocked"
    and t: "threadId t = i" "unjoined w i" "records w ! i = d" "place (sessions (threads w) ! i) = Done"
    and dom: "dom (nodes (main_proc w)) = {a}" "dom (datas (main_proc w)) = {d}"
  shows "\<exists>s. (whole_step env cenv)\<^sup>*\<^sup>* w (w\<lparr>main_proc := s, main_at := Accepting\<rparr>) \<and>
    \<not> isError s \<and> nodes s = Map.empty \<and> datas s = Map.empty"
proof -
  let ?s = "main_proc w"
  have rec: "records_inv w" using inv by (simp add: whole_inv_def)
  have "datas ?s d = Some t" using rep by (simp add: threads_rep_def)
  moreover have "complete (sessions (threads w) ! i) = 1"
    using rec t by (simp add: records_inv_def Let_def unjoined_def)
  ultimately have fl: "flagged t" using unjoined_record [OF rec t(2)] t(3) by simp
  have en: "\<forall>c \<in> set [(a, d, t)]. flagged (cell_thread c) \<longrightarrow> ends (joining env w) (cell_id c)"
    using t by (simp add: ended_def unjoined_def)
  have fr: "set (joins [(a, d, t)]) \<inter> set (trace ?s) = {}" using t by (simp add: joins_def unjoined_def)
  obtain s where s: "removeCompletedThreads (joining env w) ?s = Some (Ret s)"
    "removed flagged [(a, d, t)] ?s s"
    using removeCompletedThreads_effect [OF rep unl en _ fr] by auto
  have "{c \<in> set [(a, d, t)]. flagged (cell_thread c)} = {(a, d, t)}" using fl by auto
  then have "isError s = isError ?s" "dom (nodes s) = {}" "dom (datas s) = {}"
    using s(2) dom unfolding removed_def by simp_all
  then show ?thesis using clean_run [OF s(1) pl] err by auto
qed

text \<open>A session that runs from its start to its end, while the main thread stands still.\<close>

lemma session_run_whole:
  assumes inv: "whole_inv w" and lv: "unjoined w n" and new: "sessions (threads w) ! n = new_session cenv rs"
    and run: "client_handler cenv rs h = Some (Ret h')"
    and fresh: "sent h = []" "handler.isComplete h = 0" "client_open h"
    and same: "data_store (shared (threads w)) = store h" "global_fd (shared (threads w)) = handler.file_fd h"
      "file_lock (shared (threads w)) = handler.fileMutex h"
  obtains u sh p where "agrees h' u sh" and "place u = Done" and "may_complete (records w ! n) (main_proc w) p"
    and "(whole_step env cenv)\<^sup>*\<^sup>* w (w\<lparr>main_proc := p,
      threads := (threads w)\<lparr>shared := sh, sessions := (sessions (threads w))[n := u]\<rparr>\<rparr>)"
proof -
  have "agrees h (new_session cenv rs) (shared (threads w))" using fresh same by (simp add: agrees_def new_session_def)
  from client_handler_run [OF run this] obtain u sh
    where "reaches cenv (new_session cenv rs, shared (threads w)) (u, sh)" and u: "agrees h' u sh" "place u = Done"
    by (auto simp: new_session_def)
  then obtain m where "session_run cenv m (sessions (threads w) ! n) (shared (threads w)) = Ret (u, sh)"
    by (auto simp: reaches_def new)
  from handler_run [OF this inv lv] obtain p where "may_complete (records w ! n) (main_proc w) p"
    "(whole_step env cenv)\<^sup>*\<^sup>* w (w\<lparr>main_proc := p,
      threads := (threads w)\<lparr>shared := sh, sessions := (sessions (threads w))[n := u]\<rparr>\<rparr>)"
    by blast
  with u show thesis by (rule that)
qed

lemma serve_client:
  assumes q: "quiet w" and env: "env_ok env"
    and run: "client_handler cenv rs h = Some (Ret h')"
    and fresh: "sent h = []" "handler.isComplete h = 0" "client_open h"
    and same: "data_store (shared (threads w)) = store h" "global_fd (shared (threads w)) = handler.file_fd h"
      "file_lock (shared (threads w)) = handler.fileMutex h"
  shows "\<exists>w' t. (whole_step env cenv)\<^sup>*\<^sup>* w w' \<and> quiet w' \<and>
    sessions (threads w') = sessions (threads w) @ [t] \<and> place t = Done \<and> outbox t = sent h' \<and>
    data_store (shared (threads w')) = store h' \<and> file_lock (shared (threads w')) = handler.fileMutex h'"
proof -
  let ?n = "length (sessions (threads w))" and ?new = "new_session cenv rs"
  obtain w1 s a d t where w1: "(whole_step env cenv)\<^sup>*\<^sup>* w w1"
    "w1 = w\<lparr>main_proc := s, records := records w @ [d], main_at := Clean_lock,
      threads := (threads w)\<lparr>sessions := sessions (threads w) @ [?new]\<rparr>\<rparr>"
    and s: "threads_rep s [(a, d, t)]" "listMutex s = Unlocked" "\<not> isError s" "trace s = trace (main_proc w)"
      "threadId t = ?n" "dom (nodes s) = {a}" "dom (datas s) = {d}"
    using accept_run [OF q env, of cenv rs] by blast
  have inv: "whole_inv w" using q by (simp add: quiet_def)
  have inv1: "whole_inv w1" by (rule run_inv [OF w1(1) env inv])
  have len: "length (records w) = ?n" using inv by (simp add: whole_inv_def records_inv_def Let_def)
  have "Joined ?n \<notin> set (trace (main_proc w))" using inv by (auto simp: whole_inv_def records_inv_def Let_def)
  then have lv: "unjoined w1 ?n" by (simp add: unjoined_def w1(2) s(4))
  have rd: "records w1 ! ?n = d" using len by (simp add: w1(2) nth_append)
  have "sessions (threads w1) ! ?n = ?new" "shared (threads w1) = shared (threads w)"
    by (simp_all add: w1(2) nth_append)
  then obtain u sh p where u: "agrees h' u sh" "place u = Done"
    and p: "may_complete (records w1 ! ?n) (main_proc w1) p" "(whole_step env cenv)\<^sup>*\<^sup>* w1 (w1\<lparr>main_proc := p,
      threads := (threads w1)\<lparr>shared := sh, sessions := (sessions (threads w1))[?n := u]\<rparr>\<rparr>)"
    using session_run_whole [OF inv1 lv _ run fresh, of env] same by auto
  let ?w2 = "w1\<lparr>main_proc := p, threads := (threads w1)\<lparr>shared := sh, sessions := (sessions (threads w1))[?n := u]\<rparr>\<rparr>"
  have inv2: "whole_inv ?w2" by (rule run_inv [OF p(2) env inv1])
  have ps: "p = s \<or> p = set_complete d s" using p(1) rd by (simp add: may_complete_def w1(2))
  have "\<exists>t. threads_rep p [(a, d, t)] \<and> threadId t = ?n"
    using ps s(1,5) recell_rep [OF s(1), of d] by (elim disjE) (auto simp: recell_def)
  then obtain t2 where t2: "threads_rep p [(a, d, t2)]" "threadId t2 = ?n" by blast
  have sp: "listMutex p = Unlocked" "\<not> isError p" "trace p = trace s" "dom (nodes p) = {a}" "dom (datas p) = {d}"
    using ps s by (elim disjE; simp)+
  have lv2: "unjoined ?w2 ?n" using lv sp(3) by (simp add: unjoined_def w1(2))
  have at2: "main_at ?w2 = Clean_lock" "\<not> isError (main_proc ?w2)" "threads_rep (main_proc ?w2) [(a, d, t2)]"
    "listMutex (main_proc ?w2) = Unlocked" "records ?w2 ! ?n = d" "place (sessions (threads ?w2) ! ?n) = Done"
    "dom (nodes (main_proc ?w2)) = {a}" "dom (datas (main_proc ?w2)) = {d}"
    using t2 sp rd u(2) by (simp_all add: w1(2))
  obtain s3 where s3: "(whole_step env cenv)\<^sup>*\<^sup>* ?w2 (?w2\<lparr>main_proc := s3, main_at := Accepting\<rparr>)"
    "\<not> isError s3" "nodes s3 = Map.empty" "datas s3 = Map.empty"
    using clean_one_run [OF inv2 at2(1-4) t2(2) lv2 at2(5-8), of env cenv] by blast
  have "whole_inv (?w2\<lparr>main_proc := s3, main_at := Accepting\<rparr>)" by (rule run_inv [OF s3(1) env inv2])
  then have "quiet (?w2\<lparr>main_proc := s3, main_at := Accepting\<rparr>)" using s3(2-4) by (simp add: quiet_def)
  moreover have "(whole_step env cenv)\<^sup>*\<^sup>* w (?w2\<lparr>main_proc := s3, main_at := Accepting\<rparr>)"
    using w1(1) p(2) s3(1) by (meson rtranclp_trans)
  ultimately show ?thesis using u
    by (intro exI [of _ "?w2\<lparr>main_proc := s3, main_at := Accepting\<rparr>"] exI [of _ u])
      (simp add: w1(2) agrees_def)
qed

text \<open>
  What clients served in turn have got: each has all that is in the file after its own messages.
\<close>

fun in_turn ::
  "(byte list \<Rightarrow> 'a \<Rightarrow> int \<Rightarrow> 'a \<Rightarrow> bool) \<Rightarrow> ('a \<Rightarrow> byte list) \<Rightarrow> 'a \<Rightarrow> recv_result list list
     \<Rightarrow> session list \<Rightarrow> 'a \<Rightarrow> bool"
where
  "in_turn wr bytes a [] [] c \<longleftrightarrow> a = c"
| "in_turn wr bytes a (rs # rss) (t # ts) c \<longleftrightarrow>
     (\<exists>b. written_all wr (chunks rs) a b \<and> place t = Done \<and> outbox t = bytes b \<and> in_turn wr bytes b rss ts c)"
| "in_turn wr bytes a _ _ c \<longleftrightarrow> False"

context data_file
begin

lemma serve_all:
  assumes env: "env_ok env" and cenv: "api cenv = dfile" "sends_all cenv"
    and reads: "\<forall>a. \<not> read_failed dfile placed a"
  shows "quiet w \<Longrightarrow> rep (data_store (shared (threads w))) a \<Longrightarrow> file_lock (shared (threads w)) = Unlocked \<Longrightarrow>
    \<forall>rs \<in> set rss. (\<forall>bs \<in> set (chunks rs). length bs \<le> BUF_LEN) \<and> no_seek cenv rs (replicate BUF_LEN 0) \<Longrightarrow>
    \<exists>w' ts c. (whole_step env cenv)\<^sup>*\<^sup>* w w' \<and> quiet w' \<and> sessions (threads w') = sessions (threads w) @ ts \<and>
      in_turn written bytes a rss ts c \<and> rep (data_store (shared (threads w'))) c \<and>
      file_lock (shared (threads w')) = Unlocked"
proof (induction rss arbitrary: w a)
  case Nil
  then show ?case by (intro exI [of _ w] exI [of _ "[]"] exI [of _ a]) simp
next
  case (Cons rs rss)
  let ?s = "shared (threads w)"
  let ?h = "\<lparr>store = data_store ?s, handler.file_fd = global_fd ?s, handler.fileMutex = file_lock ?s,
    sent = [], stray_unlocks = 0, handler.isComplete = 0, client_open = True\<rparr>"
  have "rep (store ?h) a" "handler.fileMutex ?h = Unlocked" "\<forall>bs \<in> set (chunks rs). length bs \<le> BUF_LEN"
    "no_seek cenv rs (replicate BUF_LEN 0)"
    using Cons.prems by simp_all
  from client_handler_effect [OF cenv this] obtain h' b where h': "client_handler cenv rs ?h = Some (Ret h')"
    and b: "written_all written (chunks rs) a b" and "served (read_failed dfile placed b) rep bytes ?h 0 b h'"
    by blast
  then have sv: "rep (store h') b" "handler.fileMutex h' = Unlocked" "sent h' = bytes b"
    using reads by (auto simp: served_def)
  obtain w1 t where w1: "(whole_step env cenv)\<^sup>*\<^sup>* w w1" "quiet w1"
    "sessions (threads w1) = sessions (threads w) @ [t]" "place t = Done" "outbox t = sent h'"
    "data_store (shared (threads w1)) = store h'" "file_lock (shared (threads w1)) = handler.fileMutex h'"
    using serve_client [OF Cons.prems(1) env h'] by auto
  have "rep (data_store (shared (threads w1))) b" "file_lock (shared (threads w1)) = Unlocked"
    using w1 sv by simp_all
  from Cons.IH [OF w1(2) this] Cons.prems(4) obtain w2 ts c where
    w2: "(whole_step env cenv)\<^sup>*\<^sup>* w1 w2" "quiet w2" "sessions (threads w2) = sessions (threads w1) @ ts"
    "in_turn written bytes b rss ts c" "rep (data_store (shared (threads w2))) c"
    "file_lock (shared (threads w2)) = Unlocked" by auto
  then show ?case using w1 sv b
    by (intro exI [of _ w2] exI [of _ "t # ts"] exI [of _ c]) (auto intro: rtranclp_trans)
qed

end

end
