(* ===== verification/Whole_Properties.thy ===== *)
theory Whole_Properties
  imports Whole_Runs Thread_Properties Server_Properties
begin

text \<open>
  The properties of the whole of \<^verbatim>\<open>server/aesdsocket.c\<close>: the accept loop, the handlers and signals at
  every place.
\<close>

subsection \<open>The records of the threads\<close>


lemma example_client:
  assumes "main_setup good_net [''aesdsocket''] initial_proc = (None, s)"
  shows "whole_step easy_env cenv (started s f) (start_session easy_env cenv 4 rs (started s f))"
proof -
  have inv: "loop_inv [] [] s" by (rule setup_inv [OF assms])
  then have "finite (dom (datas s))" by (simp add: loop_inv_def)
  then have "malloc_data easy_env (datas s) \<noteq> NULL" using easy_env_ok by (simp add: env_ok_def)
  then have "accepts easy_env (started s f)" using inv by (simp add: accepts_def started_def loop_inv_def)
  then show ?thesis by (rule whole_step.client)
qed


subsection \<open>Progress of the main thread\<close>



subsection \<open>Signals\<close>

text \<open>C14: whatever happens, the server never reaches the end of \<open>main\<close>: once its signal handler has shut
  it down, the main thread is at most two statements away from locking the destroyed list mutex,
  wherever the signal has interrupted it.\<close>

theorem server_never_ends:
  assumes start: "main_setup net argv initial_proc = (None, s)" and env: "env_ok env"
    and run: "(whole_step env cenv)\<^sup>*\<^sup>* (started s f) w"
  shows "main_at w \<noteq> Finished \<and>
    (listMutex (main_proc w) = Destroyed \<longrightarrow>
      main_step env cenv w = Some Undef \<or>
      (\<exists>w'. main_step env cenv w = Some (Ret w') \<and> main_step env cenv w' = Some Undef))"
proof -
  have inv: "whole_inv w" by (rule reachable_inv [OF start env run])
  then have snd: "sound_place (main_at w)"
    and d: "listMutex (main_proc w) = Destroyed \<Longrightarrow> isError (main_proc w) \<and> \<not> in_list (main_at w)"
    by (auto simp: whole_inv_def signal_inv_def)
  have "main_step env cenv w = Some Undef \<or>
      (\<exists>w'. main_step env cenv w = Some (Ret w') \<and> main_step env cenv w' = Some Undef)"
    if lm: "listMutex (main_proc w) = Destroyed"
    using d [OF lm] snd lm
    by (cases "main_at w") (simp_all add: main_step_def insert_lock_def Let_def lock_list_def)
  then show ?thesis using snd by auto
qed

theorem server_never_ends_witness:
  "\<exists>s. main_at (interrupted (started s two_system)) \<noteq> Finished \<and>
     (whole_step easy_env example_env)\<^sup>*\<^sup>* (started s two_system) (interrupted (started s two_system))"
proof -
  obtain s where s: "main_setup good_net [''aesdsocket''] initial_proc = (None, s)" using good_setup ..
  have "whole_step easy_env example_env (started s two_system) (interrupted (started s two_system))"
    by (rule whole_step.signal) (simp add: started_def)
  then have "(whole_step easy_env example_env)\<^sup>*\<^sup>* (started s two_system) (interrupted (started s two_system))"
    by (rule r_into_rtranclp)
  from server_never_ends [OF s easy_env_ok this] this show ?thesis by blast
qed

text \<open>C15: a signal that comes while the main thread has the list locked, to insert a thread or to clean
  the list, stops the main thread for ever: its handler waits for the list mutex that the
  interrupted code holds, whatever the client threads do and whatever other signals come.\<close>

theorem signal_in_list_deadlocks:
  assumes start: "main_setup net argv initial_proc = (None, s)" and env: "env_ok env"
    and run: "(whole_step env cenv)\<^sup>*\<^sup>* (started s f) w" and at: "in_list (main_at w)" 
    and after: "(whole_step env cenv)\<^sup>*\<^sup>* (interrupted w) w'"
  shows "main_step env cenv w' = Some Blocked"
proof -
  have inv: "whole_inv w" by (rule reachable_inv [OF start env run])
  have stuck: "main_step env cenv v = Some Blocked" if "whole_inv v" "main_at v = Shut_lock (Some p)" "in_list p" for v p
    using that by (auto simp: whole_inv_def signal_inv_def main_step_def lock_list_def split: if_splits)
  from after have "whole_inv w' \<and> (\<exists>p. main_at w' = Shut_lock (Some p) \<and> in_list p)"
  proof (induction rule: rtranclp_induct)
    case base
    show ?case using signal_step_inv [OF inv] at by (simp add: interrupted_def)
  next
    case (step v v')
    then obtain p where p: "whole_inv v" "main_at v = Shut_lock (Some p)" "in_list p" by blast
    have "whole_inv v'" using whole_step_inv [OF step(2) env p(1)] .
    moreover from step(2) p have "\<exists>p. main_at v' = Shut_lock (Some p) \<and> in_list p"
      by cases (use stuck [OF p] in \<open>auto simp: handler_step_def Let_def obind_Ret_iff accepts_def
          interrupted_def split: if_splits\<close>)
    ultimately show ?case ..
  qed
  then show ?thesis using stuck by blast
qed

theorem signal_in_list_deadlocks_witness:
  "\<exists>s w. (whole_step easy_env example_env)\<^sup>*\<^sup>* (started s two_system) w \<and> in_list (main_at w) \<and>
     main_step easy_env example_env (interrupted w) = Some Blocked"
proof -
  obtain s where s: "main_setup good_net [''aesdsocket''] initial_proc = (None, s)" using good_setup ..
  let ?w = "start_session easy_env example_env 4 [] (started s two_system)"
  have inv: "loop_inv [] [] s" by (rule setup_inv [OF s])
  then have fin: "finite (dom (nodes s))" by (simp add: loop_inv_def)
  have "malloc_node easy_env (nodes s) \<noteq> NULL" using easy_env_ok fin by (simp add: env_ok_def)
  then obtain a w where w: "main_step easy_env example_env ?w = Some (Ret w)" "main_at w = Insert_link a"
    using inv by (auto simp: main_step_def start_session_def new_record_def Let_def started_def insert_lock_def
        lock_list_def loop_inv_def)
  have "whole_step easy_env example_env (started s two_system) ?w" by (rule example_client [OF s])
  moreover have "whole_step easy_env example_env ?w w" using w(1) by (rule whole_step.statement_of_main)
  ultimately have run: "(whole_step easy_env example_env)\<^sup>*\<^sup>* (started s two_system) w"
    by (meson converse_rtranclp_into_rtranclp r_into_rtranclp)
  have at: "in_list (main_at w)" using w(2) by simp
  from signal_in_list_deadlocks [OF s easy_env_ok run at rtranclp.rtrancl_refl] run at show ?thesis by blast
qed

subsection \<open>One round\<close>



subsection \<open>Clients served in turn\<close>



end
