(* ===== verification/Motion_Detector.thy ===== *)
theory Motion_Detector
  imports Complex_Main Prelude
begin

text \<open>
  The motion detector, \<open>main\<close> of \<^verbatim>\<open>capture/DisplayImage.cpp\<close>. The functions of OpenCV are parameters:
  images and contours are values the program only hands on, the camera and the keyboard are a world
  that answers \<open>read\<close> and \<open>waitKey\<close>. \<open>cvtColor\<close> may throw (\<open>None\<close>), which nothing in the program catches.
  The loop is a partial function: \<open>None\<close> means that it goes on for ever.
\<close>

record ('w, 'm, 'c) vision =
  cam_set :: "int \<Rightarrow> int \<Rightarrow> 'w \<Rightarrow> 'w"
  cam_read :: "'w \<Rightarrow> bool \<times> 'm \<times> 'w"
  wait_key :: "'w \<Rightarrow> int \<times> 'w"
  to_gray :: "'m \<Rightarrow> 'm option"
  blur :: "'m \<Rightarrow> 'm"
  absdiff :: "'m \<Rightarrow> 'm \<Rightarrow> 'm"
  threshold :: "'m \<Rightarrow> 'm"
  dilate :: "'m \<Rightarrow> 'm"
  findContours :: "'m \<Rightarrow> 'c list"
  contourArea :: "'c \<Rightarrow> real"
  putText :: "'m \<Rightarrow> 'm"

datatype detector_exit = Returns int | Throws

text \<open>The contours of the difference between a frame and the first one.\<close>

definition changes :: "('w, 'm, 'c) vision \<Rightarrow> 'm \<Rightarrow> 'm \<Rightarrow> 'c list option" where
  "changes cv firstFrame frame =
     (case to_gray cv frame of
        None \<Rightarrow> None
      | Some gray \<Rightarrow>
          (let frameDelta = absdiff cv firstFrame (blur cv gray);
               thresh = dilate cv (threshold cv frameDelta)
           in Some (findContours cv thresh)))"

fun mark_motion :: "('w, 'm, 'c) vision \<Rightarrow> 'c list \<Rightarrow> 'm \<Rightarrow> 'm" where
  "mark_motion cv [] frame = frame"
| "mark_motion cv (c # cnts) frame =
     (if contourArea cv c < 500 then mark_motion cv cnts frame
      else mark_motion cv cnts (putText cv frame))"

text \<open>The loop; \<open>shown\<close> are the images in the window so far.\<close>

partial_function (option) watch ::
  "('w, 'm, 'c) vision \<Rightarrow> 'm \<Rightarrow> 'm list \<Rightarrow> 'w \<Rightarrow> ('m list \<times> detector_exit) option"
where
  "watch cv firstFrame shown w =
     (let r = cam_read cv w; frame = fst (snd r); w = snd (snd r) in
      if \<not> fst r then Some (shown, Returns 0)
      else case changes cv firstFrame frame of
        None \<Rightarrow> Some (shown, Throws)
      | Some cnts \<Rightarrow>
          (let shown = shown @ [mark_motion cv cnts frame]; k = wait_key cv w in
           if fst k = 27 then Some (shown, Returns 0)
           else watch cv firstFrame shown (snd k)))"

definition detector :: "('w, 'm, 'c) vision \<Rightarrow> 'w \<Rightarrow> ('m list \<times> detector_exit) option" where
  "detector cv w =
     (let w = cam_set cv 4 288 (cam_set cv 3 512 w);
          (ok, frame, w) = cam_read cv w
      in case to_gray cv frame of
           None \<Rightarrow> Some ([], Throws)
         | Some g \<Rightarrow> watch cv (blur cv g) [] w)"

subsection \<open>The text\<close>

lemma mark_motion_counts:
  "mark_motion cv cnts frame = (putText cv ^^ length (filter (\<lambda>c. 500 \<le> contourArea cv c) cnts)) frame"
  by (induction cnts arbitrary: frame) (simp_all add: funpow_swap1)

subsection \<open>The rounds of the loop\<close>

text \<open>The world before round \<open>i\<close>, what the camera gives in it, and the key after it.\<close>

definition world_at :: "('w, 'm, 'c) vision \<Rightarrow> 'w \<Rightarrow> nat \<Rightarrow> 'w" where
  "world_at cv w i = ((\<lambda>w. snd (wait_key cv (snd (snd (cam_read cv w))))) ^^ i) w"

definition frame_ok :: "('w, 'm, 'c) vision \<Rightarrow> 'w \<Rightarrow> nat \<Rightarrow> bool" where
  "frame_ok cv w i \<longleftrightarrow> fst (cam_read cv (world_at cv w i))"

definition frame_at :: "('w, 'm, 'c) vision \<Rightarrow> 'w \<Rightarrow> nat \<Rightarrow> 'm" where
  "frame_at cv w i = fst (snd (cam_read cv (world_at cv w i)))"

definition key_at :: "('w, 'm, 'c) vision \<Rightarrow> 'w \<Rightarrow> nat \<Rightarrow> int" where
  "key_at cv w i = fst (wait_key cv (snd (snd (cam_read cv (world_at cv w i)))))"

lemma world_at_Suc: "world_at cv w (Suc i) = world_at cv (snd (wait_key cv (snd (snd (cam_read cv w))))) i"
  by (simp add: world_at_def funpow_Suc_right del: funpow.simps)

definition displayed :: "('w, 'm, 'c) vision \<Rightarrow> 'm \<Rightarrow> 'w \<Rightarrow> nat \<Rightarrow> 'm" where
  "displayed cv firstFrame w i =
     (case changes cv firstFrame (frame_at cv w i) of
        None \<Rightarrow> frame_at cv w i | Some cnts \<Rightarrow> mark_motion cv cnts (frame_at cv w i))"

lemma watch_rounds:
  "\<forall>i < n. frame_ok cv w i \<and> changes cv firstFrame (frame_at cv w i) \<noteq> None \<and> key_at cv w i \<noteq> 27 \<Longrightarrow>
     watch cv firstFrame shown w =
     watch cv firstFrame (shown @ map (displayed cv firstFrame w) [0..<n]) (world_at cv w n)"
proof (induction n arbitrary: shown w)
  case 0
  then show ?case by (simp add: world_at_def)
next
  case (Suc n)
  let ?w = "snd (wait_key cv (snd (snd (cam_read cv w))))"
  have z: "frame_ok cv w 0" "changes cv firstFrame (frame_at cv w 0) \<noteq> None" "key_at cv w 0 \<noteq> 27"
    using Suc.prems by auto
  have sh: "frame_ok cv w (Suc i) = frame_ok cv ?w i" "frame_at cv w (Suc i) = frame_at cv ?w i"
    "key_at cv w (Suc i) = key_at cv ?w i" for i
    by (simp_all add: frame_ok_def frame_at_def key_at_def world_at_Suc)
  have dis: "displayed cv firstFrame w (Suc i) = displayed cv firstFrame ?w i" for i
    unfolding displayed_def sh ..
  have "\<forall>i < n. frame_ok cv ?w i \<and> changes cv firstFrame (frame_at cv ?w i) \<noteq> None \<and> key_at cv ?w i \<noteq> 27"
    using Suc.prems by (auto simp flip: sh)
  note IH = Suc.IH [OF this]
  have "watch cv firstFrame shown w = watch cv firstFrame (shown @ [displayed cv firstFrame w 0]) ?w"
    using z by (subst watch.simps)
      (auto simp: Let_def frame_ok_def frame_at_def key_at_def world_at_def displayed_def split: option.split)
  moreover have "map (displayed cv firstFrame w) [0..<Suc n] = displayed cv firstFrame w 0 # map (displayed cv firstFrame ?w) [0..<n]"
    by (simp add: upt_conv_Cons map_Suc_upt [symmetric] dis del: upt_Suc)
  ultimately show ?case using IH [of "shown @ [displayed cv firstFrame w 0]"]
    by (simp add: world_at_Suc del: upt_Suc)
qed

lemma watch_stops:
  assumes "\<not> frame_ok cv w n \<or>
      frame_ok cv w n \<and> changes cv firstFrame (frame_at cv w n) \<noteq> None \<and> key_at cv w n = 27"
  shows "watch cv firstFrame shown (world_at cv w n) =
    Some (shown @ (if frame_ok cv w n then [displayed cv firstFrame w n] else []), Returns 0)"
  using assms
  by (subst watch.simps) (auto simp: Let_def frame_ok_def frame_at_def key_at_def displayed_def)

text \<open>C27: when the first frame can be converted, the motion detector shows every frame up to the one
  after which ESC is pressed or before which the camera fails, in order, and returns 0; each frame
  carries the text once for every contour of an area of at least 500 that the difference to the
  blurred first frame has, so it is unchanged exactly when there is none.\<close>

theorem detector_shows_frames:
  assumes first: "cam_read cv (cam_set cv 4 288 (cam_set cv 3 512 w0)) = (ok, f, w)" "to_gray cv f = Some g"
    and rounds: "\<forall>i < n. frame_ok cv w i \<and> changes cv (blur cv g) (frame_at cv w i) \<noteq> None \<and> key_at cv w i \<noteq> 27"
    and stop: "\<not> frame_ok cv w n \<or>
      frame_ok cv w n \<and> changes cv (blur cv g) (frame_at cv w n) \<noteq> None \<and> key_at cv w n = 27"
  shows "\<exists>shown. detector cv w0 = Some (shown, Returns 0) \<and>
    length shown = (if frame_ok cv w n then Suc n else n) \<and>
    (\<forall>i < length shown. \<exists>cnts. changes cv (blur cv g) (frame_at cv w i) = Some cnts \<and>
      shown ! i = (putText cv ^^ length (filter (\<lambda>c. 500 \<le> contourArea cv c) cnts)) (frame_at cv w i))"
proof -
  let ?first = "blur cv g"
  let ?shown = "map (displayed cv ?first w) [0..<(if frame_ok cv w n then Suc n else n)]"
  have "detector cv w0 = watch cv ?first [] w" using first by (simp add: detector_def Let_def)
  also have "\<dots> = watch cv ?first (map (displayed cv ?first w) [0..<n]) (world_at cv w n)"
    using watch_rounds [OF rounds, of "[]"] by simp
  also have "\<dots> = Some (?shown, Returns 0)" using watch_stops [OF stop] by simp
  finally have "detector cv w0 = Some (?shown, Returns 0)" .
  moreover have "\<exists>cnts. changes cv ?first (frame_at cv w i) = Some cnts \<and>
      ?shown ! i = (putText cv ^^ length (filter (\<lambda>c. 500 \<le> contourArea cv c) cnts)) (frame_at cv w i)"
    if i: "i < length ?shown" for i
  proof -
    have lt: "i < (if frame_ok cv w n then Suc n else n)" using i by simp
    then have "i < n \<or> i = n \<and> frame_ok cv w n" by (auto split: if_splits)
    then have "changes cv ?first (frame_at cv w i) \<noteq> None" using rounds stop by auto
    then obtain cnts where c: "changes cv ?first (frame_at cv w i) = Some cnts" by blast
    have "?shown ! i = displayed cv ?first w i" using lt by (simp del: upt_Suc)
    then show ?thesis using c by (simp add: displayed_def mark_motion_counts)
  qed
  ultimately show ?thesis by (intro exI [of _ ?shown]) (simp del: upt_Suc)
qed

text \<open>A camera of three frames, of which the last differs.\<close>

definition example_vision :: "(nat list, nat, real) vision" where
  "example_vision = \<lparr>cam_set = (\<lambda>p v w. w),
     cam_read = (\<lambda>w. case w of [] \<Rightarrow> (False, 0, []) | x # xs \<Rightarrow> (True, x, xs)),
     wait_key = (\<lambda>w. (if length w = 1 then 1 else if w = [] then 27 else -1, w)),
     to_gray = (\<lambda>m. Some m), blur = (\<lambda>m. m), absdiff = (\<lambda>a b. if a = b then 0 else 1),
     threshold = (\<lambda>m. m), dilate = (\<lambda>m. m), findContours = (\<lambda>m. if m = 0 then [100] else [600, 700]),
     contourArea = (\<lambda>c. c), putText = (\<lambda>m. m + 1000)\<rparr>"

theorem detector_shows_frames_witness:
  "\<exists>shown. detector example_vision [5, 5, 7] = Some (shown, Returns 0) \<and> length shown = 2 \<and> shown ! 1 = 2007"
proof -
  have w: "world_at example_vision [5, 7] 0 = [5, 7]" "world_at example_vision [5, 7] 1 = [7]"
    by (simp_all add: world_at_def example_vision_def)
  have ok: "frame_ok example_vision [5, 7] 0" "frame_ok example_vision [5, 7] 1"
    and fr: "frame_at example_vision [5, 7] 0 = 5" "frame_at example_vision [5, 7] 1 = 7"
    and key: "key_at example_vision [5, 7] 0 = 1" "key_at example_vision [5, 7] 1 = 27"
    unfolding frame_ok_def frame_at_def key_at_def w by (simp_all add: example_vision_def)
  have ch: "changes example_vision 5 5 = Some [100]" "changes example_vision 5 7 = Some [600, 700]"
    by (simp_all add: changes_def example_vision_def Let_def)
  have first: "cam_read example_vision (cam_set example_vision 4 288 (cam_set example_vision 3 512 [5, 5, 7]))
      = (True, 5, [5, 7])" "to_gray example_vision 5 = Some 5" "blur example_vision 5 = 5"
    by (simp_all add: example_vision_def)
  from detector_shows_frames [OF first(1,2), of 1] obtain shown where
    s: "detector example_vision [5, 5, 7] = Some (shown, Returns 0)" "length shown = 2"
    "\<forall>i < length shown. \<exists>cnts. changes example_vision 5 (frame_at example_vision [5, 7] i) = Some cnts \<and>
      shown ! i = (putText example_vision ^^ length (filter (\<lambda>c. 500 \<le> contourArea example_vision c) cnts))
        (frame_at example_vision [5, 7] i)"
    using ok fr key ch first(3) by auto
  have "(1 :: nat) < length shown" using s(2) by simp
  from s(3) [rule_format, OF this, unfolded fr ch] have "shown ! 1 = 2007"
    by (auto simp: example_vision_def numeral_2_eq_2)
  then show ?thesis using s(1,2) by blast
qed

text \<open>The first frame is used whether the camera has given one or not.\<close>

lemma detector_without_camera:
  assumes "cam_read cv (cam_set cv 4 288 (cam_set cv 3 512 w0)) = (False, f, w)" and "to_gray cv f = None"
  shows "detector cv w0 = Some ([], Throws)"
  using assms by (simp add: detector_def Let_def)

end
