(* ===== verification/Place_Order.thy ===== *)
theory Place_Order
  imports Server_Interleaving Data_File "HOL-Library.Sublist"
begin

text \<open>
  The places of a handler in the order of the text of \<open>client_handler\<close>, as a linear order: a session
  only goes back at the two loops. Intervals of places are the phases of a session, and say which of
  its messages are still to be written.
\<close>

subsection \<open>The order of the text\<close>

definition all_places :: "place list" where
  "all_places = [Receive, Seek_lock, Seek_open, Seek_ioctl, Write_lock, Write_open, Write_data, Write_close,
     Write_unlock, Check_newline, After_loop, Read_lock, Read_open, Send_lseek, Send_read, Send_unlock,
     Send_data, End_close, End_unlock, End_complete, End_socket, Done]"

fun place_no :: "place \<Rightarrow> nat" where
  "place_no Receive = 0"
| "place_no Seek_lock = 1"
| "place_no Seek_open = 2"
| "place_no Seek_ioctl = 3"
| "place_no Write_lock = 4"
| "place_no Write_open = 5"
| "place_no Write_data = 6"
| "place_no Write_close = 7"
| "place_no Write_unlock = 8"
| "place_no Check_newline = 9"
| "place_no After_loop = 10"
| "place_no Read_lock = 11"
| "place_no Read_open = 12"
| "place_no Send_lseek = 13"
| "place_no Send_read = 14"
| "place_no Send_unlock = 15"
| "place_no Send_data = 16"
| "place_no End_close = 17"
| "place_no End_unlock = 18"
| "place_no End_complete = 19"
| "place_no End_socket = 20"
| "place_no Done = 21"

lemma place_no_nth: "all_places ! place_no p = p"
  by (cases p) (simp_all add: all_places_def)

lemma place_no_inject [simp]: "place_no p = place_no q \<longleftrightarrow> p = q"
  by (metis place_no_nth)

instantiation place :: linorder
begin

definition less_eq_place :: "place \<Rightarrow> place \<Rightarrow> bool" where
  "p \<le> q \<longleftrightarrow> place_no p \<le> place_no q"

definition less_place :: "place \<Rightarrow> place \<Rightarrow> bool" where
  "p < q \<longleftrightarrow> place_no p < place_no q"

instance
  by standard (auto simp: less_eq_place_def less_place_def)

end

lemmas place_order = less_eq_place_def less_place_def

text \<open>Once the receive loop is left there is no way back into it.\<close>

lemma session_step_phase:
  assumes "session_step env t s = Ret (t', s')" and "After_loop \<le> place t"
  shows "After_loop \<le> place t'"
  using assms
  by (cases "place t")
    (auto simp: session_step_def place_order obind_Ret_iff take_lock_def give_lock_def split: if_splits)

end
