(* ===== verification/Message_Order.thy ===== *)
theory Message_Order
  imports Place_Order
begin

text \<open>
  What the data file can hold when handlers of \<^verbatim>\<open>server/aesdsocket.c\<close> run in any order, on any
  descriptor, open or not: whole messages, each at most once, those of one client in their order. The
  contract asks only that no call but \<open>write\<close> changes what the file represents.
\<close>

subsection \<open>The messages a session has still to write\<close>

definition unread :: "session \<Rightarrow> byte list list" where
  "unread t =
     (if place t = Receive then chunks (inbox t)
      else if place t \<le> Check_newline then
        (if Write_lock \<le> place t \<and> place t \<le> Write_data then [received t] else []) @
        (if last (received t) = newline then [] else chunks (inbox t))
      else [])"

lemma unread_new [simp]: "unread (new_session env rs) = chunks rs"
  by (simp add: unread_def new_session_def)

lemma chunks_nonempty: "bs \<in> set (chunks rs) \<Longrightarrow> bs \<noteq> []"
  by (induction rs rule: chunks.induct) (auto split: if_splits)

lemma receive_unread:
  assumes "place t = Receive"
  shows "subseq (unread (receive env t)) (unread t)"
proof (cases "inbox t")
  case (Cons r rs)
  then show ?thesis using assms
    by (cases r) (auto simp: receive_def unread_def Let_def place_order intro: list_emb_Cons)
qed (use assms in \<open>simp add: receive_def unread_def place_order\<close>)

lemma unread_writing: "place t \<in> {Seek_lock, Seek_open, Seek_ioctl, Write_close, Write_unlock, Check_newline} \<Longrightarrow>
   unread t = (if last (received t) = newline then [] else chunks (inbox t))"
  by (auto simp: unread_def place_order)

lemma unread_to_write: "place t \<in> {Write_lock, Write_open, Write_data} \<Longrightarrow>
   unread t = received t # (if last (received t) = newline then [] else chunks (inbox t))"
  by (auto simp: unread_def place_order)

lemma unread_done: "After_loop \<le> place t \<Longrightarrow> unread t = []"
  by (auto simp: unread_def place_order)

lemma statement_unread:
  assumes st: "session_step env t s = Ret (t', s')" and pl: "place t \<noteq> Write_data"
  shows "subseq (unread t') (unread t)"
proof (cases "After_loop \<le> place t")
  case True
  then show ?thesis using unread_done session_step_phase [OF st True] by simp
next
  case early: False
  show ?thesis
  proof (cases "place t")
    case Receive
    then show ?thesis using st receive_unread by (auto simp: session_step_def)
  next
    case Check_newline
    then show ?thesis using st by (auto simp: session_step_def unread_def place_order)
  qed (use st pl early in \<open>auto simp: session_step_def unread_writing unread_to_write place_order obind_Ret_iff take_lock_def
        give_lock_def\<close>)
qed

text \<open>The messages of one session in a history of writes.\<close>

definition sent_by :: "nat \<Rightarrow> (nat \<times> byte list) list \<Rightarrow> byte list list" where
  "sent_by i ms = map snd (filter (\<lambda>m. fst m = i) ms)"

lemma sent_by_simps [simp]:
  "sent_by i [] = []" "sent_by i (m # ms) = (if fst m = i then snd m # sent_by i ms else sent_by i ms)"
  by (simp_all add: sent_by_def)

lemma sent_by_append: "sent_by i (ms @ ns) = sent_by i ms @ sent_by i ns"
  by (simp add: sent_by_def)

lemma written_all_append: "written_all wr (xs @ ys) a c \<longleftrightarrow> (\<exists>b. written_all wr xs a b \<and> written_all wr ys b c)"
  by (induction xs arbitrary: a) auto

subsection \<open>The contract\<close>

locale data_calls =
  fixes dfile :: "'f file_api" and rep :: "'f \<Rightarrow> 'a \<Rightarrow> bool"
    and written :: "byte list \<Rightarrow> 'a \<Rightarrow> int \<Rightarrow> 'a \<Rightarrow> bool"
  assumes open_keeps: "rep f a \<Longrightarrow> rep (snd (api_open dfile m f)) a"
    and close_keeps: "rep f a \<Longrightarrow> rep (snd (api_close dfile fd f)) a"
    and lseek_keeps: "rep f a \<Longrightarrow> api_lseek dfile fd f = Ret (r, f') \<Longrightarrow> rep f' a"
    and read_keeps: "rep f a \<Longrightarrow> api_read dfile fd BUF_LEN f = Ret (r, bs, f') \<Longrightarrow> rep f' a"
    and ioctl_keeps: "rep f a \<Longrightarrow> api_ioctl dfile fd st f = Ret (r, f') \<Longrightarrow> rep f' a"
    and write_keeps: "rep f a \<Longrightarrow> bs \<noteq> [] \<Longrightarrow> length bs \<le> BUF_LEN \<Longrightarrow> api_write dfile fd bs f = Ret (r, f') \<Longrightarrow>
      rep f' a \<or> (\<exists>a'. rep f' a' \<and> written bs a r a')"
begin

text \<open>A statement writes the next message of its session, or nothing.\<close>

lemma other_statement:
  assumes env: "api env = dfile" and rep: "rep (data_store s) a"
    and st: "session_step env t s = Ret (t', s')" and pl: "place t \<noteq> Write_data"
  shows "rep (data_store s') a"
proof (cases "place t")
  case Seek_ioctl
  then show ?thesis using st rep env ioctl_keeps by (auto simp: session_step_def obind_Ret_iff)
next
  case Send_lseek
  then show ?thesis using st rep env lseek_keeps by (auto simp: session_step_def obind_Ret_iff)
next
  case Send_read
  then show ?thesis using st rep env read_keeps by (auto simp: session_step_def obind_Ret_iff)
qed (use st rep pl in \<open>auto simp: session_step_def obind_Ret_iff take_lock_def give_lock_def
      open_data_def close_data_def env split_beta intro: open_keeps close_keeps\<close>)

lemma statement_writes:
  assumes env: "api env = dfile" and rep: "rep (data_store s) a"
    and small: "\<forall>bs \<in> set (unread t). bs \<noteq> [] \<and> length bs \<le> BUF_LEN"
    and st: "session_step env t s = Ret (t', s')"
  shows "rep (data_store s') a \<and> subseq (unread t') (unread t) \<or>
    (\<exists>bs r a'. unread t = bs # unread t' \<and> rep (data_store s') a' \<and> written bs a r a')"
proof (cases "place t = Write_data")
  case True
  let ?rest = "if last (received t) = newline then [] else chunks (inbox t)"
  have un: "unread t = received t # ?rest" using True by (simp add: unread_def place_order)
  then have bs: "received t \<noteq> []" "length (received t) \<le> BUF_LEN" using small by simp_all
  obtain r f where w: "api_write dfile (global_fd s) (received t) (data_store s) = Ret (r, f)"
    and t': "t' = t\<lparr>place := Write_close\<rparr>" "s' = s\<lparr>data_store := f\<rparr>"
    using st True env by (auto simp: session_step_def obind_Ret_iff)
  have "unread t' = ?rest" by (simp add: t' unread_def place_order)
  then show ?thesis using write_keeps [OF rep bs w] un t'(2) by auto
next
  case False
  then show ?thesis using other_statement [OF env rep st] statement_unread [OF st] by simp
qed

text \<open>Any schedule writes whole messages of the sessions, those of each session in order.\<close>

lemma schedule_writes:
  assumes env: "api env = dfile"
  shows "run_schedule env is w = Ret w' \<Longrightarrow> rep (data_store (shared w)) a \<Longrightarrow>
    \<forall>t \<in> set (sessions w). \<forall>bs \<in> set (unread t). bs \<noteq> [] \<and> length bs \<le> BUF_LEN \<Longrightarrow>
    \<exists>ms a'. rep (data_store (shared w')) a' \<and> written_all written (map snd ms) a a' \<and>
      length (sessions w') = length (sessions w) \<and> fst ` set ms \<subseteq> {..<length (sessions w)} \<and>
      (\<forall>i < length (sessions w). subseq (sent_by i ms @ unread (sessions w' ! i)) (unread (sessions w ! i)))"
proof (induction "is" arbitrary: w a)
  case Nil
  then show ?case by (auto intro!: exI [of _ "[]"])
next
  case (Cons i "is")
  from Cons.prems(1) obtain t s where i: "i < length (sessions w)"
    and st: "session_step env (sessions w ! i) (shared w) = Ret (t, s)"
    and rest: "run_schedule env is (w\<lparr>shared := s, sessions := (sessions w)[i := t]\<rparr>) = Ret w'"
    by (auto simp: obind_Ret_iff split: if_splits)
  let ?w = "w\<lparr>shared := s, sessions := (sessions w)[i := t]\<rparr>" and ?t = "sessions w ! i"
  have small: "\<forall>bs \<in> set (unread ?t). bs \<noteq> [] \<and> length bs \<le> BUF_LEN" using Cons.prems(3) nth_mem [OF i] by blast
  obtain ns b where one: "rep (data_store s) b" "subseq (map snd ns @ unread t) (unread ?t)"
    "written_all written (map snd ns) a b" "fst ` set ns \<subseteq> {i}"
    using statement_writes [OF env Cons.prems(2) small st]
  proof (elim disjE exE conjE)
    assume "rep (data_store s) a" "subseq (unread t) (unread ?t)"
    then show thesis using that [of a "[]"] by simp
  next
    fix bs r b
    assume "unread ?t = bs # unread t" "rep (data_store s) b" "written bs a r b"
    then show thesis using that [of b "[(i, bs)]"] by auto
  qed
  have "set (unread t) \<subseteq> set (unread ?t)" using one(2) by (auto dest: list_emb_set)
  then have "\<forall>t \<in> set (sessions ?w). \<forall>bs \<in> set (unread t). bs \<noteq> [] \<and> length bs \<le> BUF_LEN"
    using Cons.prems(3) small set_update_subset_insert [of "sessions w" i t] by auto
  from Cons.IH [OF rest _ this, of b] one(1) obtain ms a' where
    ms: "rep (data_store (shared w')) a'" "written_all written (map snd ms) b a'"
    "length (sessions w') = length (sessions w)" "fst ` set ms \<subseteq> {..<length (sessions w)}"
    "\<And>j. j < length (sessions w) \<Longrightarrow> subseq (sent_by j ms @ unread (sessions w' ! j)) (unread ((sessions w)[i := t] ! j))"
    by auto
  have "subseq (sent_by j (ns @ ms) @ unread (sessions w' ! j)) (unread (sessions w ! j))" if "j < length (sessions w)" for j
  proof (cases "j = i")
    case True
    have "sent_by i ns = map snd ns" using one(4) by (induction ns) auto
    moreover have "subseq (map snd ns @ sent_by i ms @ unread (sessions w' ! i)) (map snd ns @ unread t)"
      using ms(5) [OF i] i by (simp add: subseq_append')
    ultimately show ?thesis using True one(2) by (auto simp: sent_by_append intro: subseq_order.trans)
  next
    case False
    then have "sent_by j ns = []" using one(4) by (auto simp: sent_by_def filter_empty_conv)
    then show ?thesis using False ms(5) [OF that] by (simp add: sent_by_append)
  qed
  moreover have "written_all written (map snd (ns @ ms)) a a'" using one(3) ms(2) by (auto simp: written_all_append)
  moreover have "fst ` set (ns @ ms) \<subseteq> {..<length (sessions w)}" using one(4) ms(4) i by auto
  ultimately show ?case using ms(1,3) by blast
qed

end

end
