(* ===== verification/Any_Descriptor.thy ===== *)
theory Any_Descriptor
  imports Message_Order Device_File Plain_File
begin

text \<open>
  The device and the regular file keep the contract of \<open>Message_Order\<close>: whatever descriptor a call
  is made on, and whether or not another user has left the device locked.
\<close>

definition dev_log :: "kernel \<Rightarrow> system \<Rightarrow> log \<Rightarrow> bool" where
  "dev_log k s a \<longleftrightarrow> kernel_ok k \<and> log_abs k s a"

lemma dev_log_user [simp]: "dev_log k (s\<lparr>sworld := (sworld s)\<lparr>user := m\<rparr>\<rparr>) a \<longleftrightarrow> dev_log k s a"
  by (cases a) (simp add: dev_log_def log_abs_def)

lemma dev_log_call:
  assumes "dev_log k s a" and "sys_call (aesd_fops k oob oobe) c s = Ret (r, s')" and "\<And>fd buf n. c \<noteq> Write fd buf n"
  shows "dev_log k s' a"
  using call_same_log [of k s a c oob oobe] assms by (auto simp: dev_log_def same_log_def)

lemma dev_log_write:
  assumes log: "dev_log k s a" and len: "length bs \<le> BUF_LEN"
    and wr: "api_write (dev_api k oob oobe new_fd) fd bs s = Ret (r, s')"
  shows "dev_log k s' a \<or> (\<exists>a'. dev_log k s' a' \<and> dev_written bs a r a')"
proof (cases "\<exists>filp. files s (nat fd) = Some filp \<and> can_write filp")
  case False
  then show ?thesis using wr log
    by (cases "files s (nat fd)") (auto simp: dev_api_def Let_def with_file_def)
next
  case True
  then obtain filp where Some: "files s (nat fd) = Some filp" "can_write filp" by blast
  have kok: "kernel_ok k" and abs: "log_abs k s a" using log by (simp_all add: dev_log_def)
  show ?thesis
  proof (cases "lock (device (sworld s))")
    case False
    then have "dev_writable k s fd a" using log Some by (simp add: dev_writable_def dev_free_def dev_log_def)
    from dev_write [OF this len, of oob oobe new_fd] show ?thesis using wr
      by (auto simp: dev_writable_def dev_free_def dev_log_def)
  next
    case True
    obtain xs p where a: "a = (xs, p)" by (cases a)
    let ?s = "s\<lparr>sworld := (sworld s)\<lparr>user := put_user (user (sworld s)) user_buf bs\<rparr>\<rparr>"
    have "dev_log k ?s a" using log by simp
    then have abs': "log_abs k ?s a" by (simp only: dev_log_def)
    then obtain pend where st: "dev_state k (sworld ?s) xs pend"
      unfolding log_abs_def a by (blast elim: world_log_state)
    have "lock (device (sworld ?s))" using True by simp
    from aesd_write_held [OF kok st log_abs_files [OF abs Some(1)] this, of oob user_buf "of_nat (length bs)" "f_pos filp"]
    have "s' = put_file (nat fd) filp (sworld ?s) ?s"
      using wr Some by (auto simp: dev_api_def Let_def with_file_def aesd_fops_def obind_Ret_iff)
    moreover have "world_log k (sworld ?s) a" using abs' by (simp add: log_abs_def a)
    ultimately have "dev_log k s' a"
      using log_abs_put_file [OF abs' log_abs_files [OF abs Some(1)]] kok by (simp add: dev_log_def)
    then show ?thesis ..
  qed
qed

interpretation dev_any: data_calls "dev_api k oob oobe new_fd" "dev_log k" dev_written for k oob oobe new_fd
proof
  note [simp del] = sys_call.simps
  fix s a m fd r s' bs st
  assume log: "dev_log k s a"
  let ?dev = "dev_api k oob oobe new_fd"
  show "dev_log k (snd (api_open ?dev m s)) a"
    using dev_log_call [OF log] log by (auto simp: dev_api_def Let_def split: outcome.split)
  show "dev_log k (snd (api_close ?dev fd s)) a"
    using dev_log_call [OF log] log by (auto simp: dev_api_def Let_def split: outcome.split)
  show "dev_log k s' a" if "api_lseek ?dev fd s = Ret (r, s')"
    using that dev_log_call [OF log] by (auto simp: dev_api_def Let_def obind_Ret_iff)
  show "dev_log k s' a" if "api_read ?dev fd BUF_LEN s = Ret (r, bs, s')"
    using that dev_log_call [OF log] by (auto simp: dev_api_def Let_def obind_Ret_iff)
  show "dev_log k s' a" if "api_ioctl ?dev fd st s = Ret (r, s')"
  proof -
    obtain x s1 y where store: "sys_call (aesd_fops k oob oobe) (Store user_buf (seekto_bytes st)) s = Ret (x, s1)"
      and seek: "sys_call (aesd_fops k oob oobe) (Ioctl (nat fd) (AESDCHAR_IOCSEEKTO k) user_buf) s1 = Ret (y, s')"
      using \<open>api_ioctl ?dev fd st s = Ret (r, s')\<close> by (auto simp: dev_api_def Let_def obind_Ret_iff)
    have "dev_log k s1 a" using dev_log_call [OF log store] by simp
    from dev_log_call [OF this seek] show ?thesis by simp
  qed
  show "dev_log k s' a \<or> (\<exists>a'. dev_log k s' a' \<and> dev_written bs a r a')"
    if "bs \<noteq> []" "length bs \<le> BUF_LEN" "api_write ?dev fd bs s = Ret (r, s')"
    using that(2,3) by (rule dev_log_write [OF log])
qed

interpretation plain_any: data_calls "plain_api new_fd" plain_rep appended for new_fd
  by unfold_locales
    (auto simp: plain_api_def plain_rep_def appended_def Let_def split: option.splits if_splits)

end
