(* ===== verification/Session_Progress.thy ===== *)
theory Session_Progress
  imports Message_Order Simple_Interleaving
begin

lemma step_data_only:
  assumes d: "data_only env t" and st: "session_step env t s = Ret (t', s')"
  shows "data_only env t'"
proof (cases "place t")
  case Receive
  then show ?thesis using receive_data_only [OF d Receive] st by (auto simp: session_step_def)
next
  case Send_read
  then obtain r bs f where "api_read (api env) (global_fd s) BUF_LEN (data_store s) = Ret (r, bs, f)"
    using st by (auto simp: session_step_def obind_Ret_iff)
  then show ?thesis using st d Send_read
    by (cases "r = -1 \<or> r = 0") (auto simp: session_step_def data_only_def)
next
  case Check_newline
  then show ?thesis using st d
    by (cases "last (received t) = newline") (auto simp: session_step_def data_only_def)
qed (use st d in \<open>auto simp: session_step_def data_only_def obind_Ret_iff take_lock_def give_lock_def\<close>)

definition holding :: "place \<Rightarrow> bool" where
  "holding p \<longleftrightarrow> Write_lock < p \<and> p \<le> Write_unlock \<or> Read_lock < p \<and> p \<noteq> Send_data \<and> p \<le> End_unlock"

definition session_ok :: "'f client_env \<Rightarrow> session \<Rightarrow> bool" where
  "session_ok env t \<longleftrightarrow> data_only env t \<and> (holds t \<longrightarrow> holding (place t)) \<and> (guarded (place t) \<longrightarrow> holds t) \<and>
     (End_socket \<le> place t \<longrightarrow> complete t = 1) \<and> (\<forall>bs \<in> set (unread t). bs \<noteq> [] \<and> length bs \<le> BUF_LEN)"

lemma session_okD:
  assumes "session_ok env t"
  shows "data_only env t" and "holds t \<Longrightarrow> holding (place t)" and "guarded (place t) \<Longrightarrow> holds t"
    and "End_socket \<le> place t \<Longrightarrow> complete t = 1"
    and "bs \<in> set (unread t) \<Longrightarrow> bs \<noteq> []" and "bs \<in> set (unread t) \<Longrightarrow> length bs \<le> BUF_LEN"
  using assms by (simp_all add: session_ok_def)

lemma not_holding [simp]:
  "\<not> holding Done" "\<not> holding Seek_lock" "\<not> holding Write_lock" "\<not> holding Read_lock"
  by (simp_all add: holding_def place_order)

definition to_write :: "session \<Rightarrow> nat" where
  "to_write t = sum_list (map length (unread t))"

lemma subseq_sum: "subseq xs ys \<Longrightarrow> sum_list (map length xs) \<le> sum_list (map length ys)"
  by (induction rule: list_emb.induct) auto

lemma write_unread:
  assumes "place t = Write_data" and "session_step env t s = Ret (t', s')"
  shows "unread t = received t # unread t'"
proof -
  have "t' = t\<lparr>place := Write_close\<rparr>" using assms by (auto simp: session_step_def obind_Ret_iff)
  then show ?thesis using assms(1) by (simp add: unread_def place_order)
qed

lemma step_to_write:
  assumes "session_step env t s = Ret (t', s')"
  shows "to_write t' + (if place t = Write_data then length (received t) else 0) \<le> to_write t"
    and "set (unread t') \<subseteq> set (unread t)"
proof (atomize (full), cases "place t = Write_data")
  case True
  then show "to_write t' + (if place t = Write_data then length (received t) else 0) \<le> to_write t \<and>
      set (unread t') \<subseteq> set (unread t)"
    using write_unread [OF _ assms] by (auto simp: to_write_def)
next
  case False
  then have "subseq (unread t') (unread t)" by (rule statement_unread [OF assms])
  then show "to_write t' + (if place t = Write_data then length (received t) else 0) \<le> to_write t \<and>
      set (unread t') \<subseteq> set (unread t)"
    using False subseq_sum by (auto simp: to_write_def dest: list_emb_set)
qed

lemma step_holding:
  assumes st: "session_step env t s = Ret (t', s')" and d: "data_only env t" and h: "holds t \<longrightarrow> holding (place t)"
  shows "holds t' \<longrightarrow> holding (place t')"
proof (cases "place t")
  case Receive
  then show ?thesis using st h by (auto simp: session_step_def holding_def place_order receive_frame)
next
  case Send_read
  then obtain r bs f where "api_read (api env) (global_fd s) BUF_LEN (data_store s) = Ret (r, bs, f)"
    using st by (auto simp: session_step_def obind_Ret_iff)
  then show ?thesis using st h Send_read
    by (cases "r = -1 \<or> r = 0") (auto simp: session_step_def holding_def place_order)
next
  case After_loop
  then show ?thesis using st h by (auto simp: session_step_def holding_def place_order)
qed (use st h d in \<open>auto simp: session_step_def holding_def place_order obind_Ret_iff take_lock_def give_lock_def
    data_only_def\<close>)

lemma step_complete:
  assumes "session_step env t s = Ret (t', s')" and "End_socket \<le> place t \<longrightarrow> complete t = 1"
  shows "End_socket \<le> place t' \<longrightarrow> complete t' = 1"
  using assms
  by (cases "place t") (auto simp: session_step_def place_order receive_def Let_def obind_Ret_iff take_lock_def
      give_lock_def split: list.splits recv_result.splits if_splits)

lemma step_session_ok:
  assumes st: "session_step env t s = Ret (t', s')" and ok: "session_ok env t"
  shows "session_ok env t'"
  unfolding session_ok_def
proof (intro conjI)
  have d: "data_only env t" and h: "holds t \<longrightarrow> holding (place t)" and g: "guarded (place t) \<longrightarrow> holds t"
    and c: "End_socket \<le> place t \<longrightarrow> complete t = 1" and u: "\<forall>bs \<in> set (unread t). bs \<noteq> [] \<and> length bs \<le> BUF_LEN"
    using ok by (simp_all add: session_ok_def)
  show "data_only env t'" by (rule step_data_only [OF d st])
  show "holds t' \<longrightarrow> holding (place t')" by (rule step_holding [OF st d h])
  show "guarded (place t') \<longrightarrow> holds t'" using session_step_effect [OF st g] by simp
  show "End_socket \<le> place t' \<longrightarrow> complete t' = 1" by (rule step_complete [OF st c])
  show "\<forall>bs \<in> set (unread t'). bs \<noteq> [] \<and> length bs \<le> BUF_LEN"
    using u subsetD [OF step_to_write(2) [OF st]] by fast
qed

lemma step_lock:
  assumes st: "session_step env t s = Ret (t', s')" and ok: "session_ok env t" and lk: "file_lock s \<noteq> Destroyed"
  shows "file_lock s' \<noteq> Destroyed"
    and "holds t' \<or> file_lock s' = Unlocked \<or> holds t = holds t' \<and> file_lock s' = file_lock s"
proof -
  have "guarded (place t) \<longrightarrow> holds t" using ok by (simp add: session_ok_def)
  then have "lock_effect t s t' s'" using session_step_effect [OF st] by simp
  then show "file_lock s' \<noteq> Destroyed" "holds t' \<or> file_lock s' = Unlocked \<or> holds t = holds t' \<and> file_lock s' = file_lock s"
    using lk by (auto simp: lock_effect_def)
qed

text \<open>The session waits for the mutex.\<close>

definition waits :: "session \<Rightarrow> 'f shared \<Rightarrow> bool" where
  "waits t s \<longleftrightarrow> place t \<in> {Seek_lock, Write_lock, Read_lock} \<and> file_lock s = Locked"

text \<open>How far a session is from its end, but for the rounds of the send loop.\<close>

definition rounds_left :: "session \<Rightarrow> nat" where
  "rounds_left t = (if place t < After_loop then Suc (length (inbox t)) else 0)"

fun text_left :: "place \<Rightarrow> nat" where
  "text_left Receive = 0"
| "text_left Send_lseek = 10"
| "text_left Send_read = 10"
| "text_left Send_unlock = 10"
| "text_left Send_data = 10"
| "text_left p = (if p \<le> Read_open then 30 else 22) - place_no p"

fun loop_left :: "place \<Rightarrow> nat" where
  "loop_left Send_unlock = 3"
| "loop_left Send_data = 2"
| "loop_left Send_lseek = 1"
| "loop_left p = 0"

abbreviation in_loop :: "place \<Rightarrow> bool" where
  "in_loop p \<equiv> Send_lseek \<le> p \<and> p \<le> Send_data"

subsection \<open>Calls that return\<close>

text \<open>
  The contract for progress: every call returns, on any descriptor; \<open>left\<close> is what a descriptor has
  still to read, so that reading on comes to an end; \<open>room\<close> is what can still be written.
\<close>

locale live_calls =
  fixes dfile :: "'f file_api" and rep :: "'f \<Rightarrow> 'a \<Rightarrow> bool"
    and room :: "'a \<Rightarrow> nat" and left :: "'a \<Rightarrow> 'f \<Rightarrow> int \<Rightarrow> nat"
  assumes open_live: "rep f a \<Longrightarrow> rep (snd (api_open dfile m f)) a"
    and close_live: "rep f a \<Longrightarrow> rep (snd (api_close dfile fd f)) a"
    and lseek_live: "rep f a \<Longrightarrow> \<exists>r f'. api_lseek dfile fd f = Ret (r, f') \<and> rep f' a \<and> left a f' fd \<le> left a f fd"
    and read_live: "rep f a \<Longrightarrow> \<exists>r bs f'. api_read dfile fd BUF_LEN f = Ret (r, bs, f') \<and> rep f' a \<and>
      (r = -1 \<or> r = 0 \<or> left a f' fd < left a f fd)"
    and write_live: "rep f a \<Longrightarrow> bs \<noteq> [] \<Longrightarrow> length bs \<le> BUF_LEN \<Longrightarrow> length bs \<le> room a \<Longrightarrow>
      \<exists>r f' a'. api_write dfile fd bs f = Ret (r, f') \<and> rep f' a' \<and> room a \<le> room a' + length bs"
begin

text \<open>A statement returns, unless it waits for the mutex.\<close>

lemma statement_returns:
  assumes env: "api env = dfile" and rep: "rep (data_store s) a" and ok: "session_ok env t"
    and room: "to_write t \<le> room a" and lk: "file_lock s \<noteq> Destroyed" "\<not> waits t s" and nd: "place t \<noteq> Done"
  obtains t' s' a' where "session_step env t s = Ret (t', s')" and "rep (data_store s') a'"
    and "room a + to_write t' \<le> room a' + to_write t" and "place t \<noteq> Write_data \<longrightarrow> a' = a"
proof -
  have seek: "\<not> seek_place (place t)" using ok by (simp add: session_ok_def data_only_def)
  have free: "file_lock s = Unlocked" if "place t \<in> {Write_lock, Read_lock}"
    using lk that by (cases "file_lock s") (auto simp: waits_def)
  have give: "\<exists>m. unlock_mutex (file_lock s) = Ret m" using lk(1) by (cases "file_lock s") auto
  show thesis
  proof (cases "place t = Write_data")
    case True
    have un: "received t \<in> set (unread t)" using True by (simp add: unread_def place_order)
    have "received t \<noteq> []" "length (received t) \<le> BUF_LEN" using ok un by (simp_all add: session_ok_def)
    moreover have "length (received t) \<le> room a" using room True by (simp add: to_write_def unread_def place_order)
    ultimately obtain r f b where w: "api_write dfile (global_fd s) (received t) (data_store s) = Ret (r, f)"
      "rep f b" "room a \<le> room b + length (received t)"
      using write_live [OF rep] by blast
    have st: "session_step env t s = Ret (t\<lparr>place := Write_close\<rparr>, s\<lparr>data_store := f\<rparr>)"
      using w(1) True env by (simp add: session_step_def)
    show thesis using that [OF st, of b] w step_to_write(1) [OF st] True by simp
  next
    case False
    have "\<exists>t' s'. session_step env t s = Ret (t', s') \<and> rep (data_store s') a"
    proof (cases "place t")
      case Send_lseek
      then show ?thesis using lseek_live [OF rep, of "global_fd s"] env by (auto simp: session_step_def)
    next
      case Send_read
      then show ?thesis using read_live [OF rep, of "global_fd s"] env by (auto simp: session_step_def)
    qed (use seek nd False rep free give in \<open>auto simp: session_step_def take_lock_def give_lock_def
          open_data_def close_data_def env split_beta intro: open_live close_live\<close>)
    then obtain t' s' where "session_step env t s = Ret (t', s')" "rep (data_store s') a" by blast
    then show thesis using that [of t' s' a] step_to_write(1) [of env t s t' s'] False by simp
  qed
qed

text \<open>A measure that every statement of a session decreases.\<close>

definition ahead :: "((session \<times> 'f shared \<times> 'a) \<times> (session \<times> 'f shared \<times> 'a)) set" where
  "ahead = measures [\<lambda>(t, s, a). rounds_left t, \<lambda>(t, s, a). text_left (place t),
     \<lambda>(t, s, a). if in_loop (place t) then left a (data_store s) (global_fd s) else 0,
     \<lambda>(t, s, a). loop_left (place t)]"

lemma wf_ahead: "wf ahead"
  by (simp add: ahead_def)

lemma statement_ahead:
  assumes env: "api env = dfile" and rep: "rep (data_store s) a" and d: "data_only env t"
    and st: "session_step env t s = Ret (t', s')" and same: "place t \<noteq> Write_data \<longrightarrow> a' = a"
  shows "((t', s', a'), (t, s, a)) \<in> ahead"
proof (cases "place t")
  case Receive
  then show ?thesis using st
    by (auto simp: session_step_def receive_def ahead_def rounds_left_def place_order Let_def
        split: list.splits recv_result.splits)
next
  case Send_lseek
  obtain r f where "api_lseek dfile (global_fd s) (data_store s) = Ret (r, f)"
    "left a f (global_fd s) \<le> left a (data_store s) (global_fd s)"
    using lseek_live [OF rep] by blast
  then show ?thesis using st Send_lseek env same
    by (auto simp: session_step_def ahead_def rounds_left_def place_order)
next
  case Send_read
  obtain r bs f where "api_read dfile (global_fd s) BUF_LEN (data_store s) = Ret (r, bs, f)"
    "r = -1 \<or> r = 0 \<or> left a f (global_fd s) < left a (data_store s) (global_fd s)"
    using read_live [OF rep] by blast
  then show ?thesis using st Send_read env same
    by (cases "r = -1 \<or> r = 0") (auto simp: session_step_def ahead_def rounds_left_def place_order)
next
  case Check_newline
  then show ?thesis using st same
    by (cases "last (received t) = newline") (auto simp: session_step_def ahead_def rounds_left_def place_order)
next
  case After_loop
  then show ?thesis using st d same
    by (auto simp: session_step_def ahead_def rounds_left_def place_order data_only_def)
qed (use st d same in \<open>auto simp: session_step_def ahead_def rounds_left_def place_order data_only_def
      obind_Ret_iff take_lock_def give_lock_def\<close>)

text \<open>A session that no other one keeps from the mutex runs to its end.\<close>

lemma solo_run:
  assumes env: "api env = dfile"
  shows "session_ok env t \<Longrightarrow> rep (data_store s) a \<Longrightarrow> file_lock s \<noteq> Destroyed \<Longrightarrow>
    (file_lock s = Locked \<longrightarrow> holds t) \<Longrightarrow> c + to_write t \<le> room a \<Longrightarrow>
    \<exists>t' s' a'. reaches env (t, s) (t', s') \<and> place t' = Done \<and> session_ok env t' \<and> rep (data_store s') a' \<and>
      file_lock s' = Unlocked \<and> c + to_write t' \<le> room a'"
proof (induction "(t, s, a)" arbitrary: t s a rule: wf_induct_rule [OF wf_ahead])
  case (1 t s a)
  show ?case
  proof (cases "place t = Done")
    case True
    then have "\<not> holds t" using session_okD(2) [OF 1(2)] by auto
    then have "file_lock s = Unlocked" using 1(4,5) by (cases "file_lock s") auto
    then show ?thesis using 1 True reaches_refl by blast
  next
    case False
    have nw: "\<not> waits t s" using session_okD(2) [OF 1(2)] 1(5) by (auto simp: waits_def)
    have rm: "to_write t \<le> room a" using 1(6) by simp
    obtain t1 s1 a1 where st: "session_step env t s = Ret (t1, s1)" and rep1: "rep (data_store s1) a1"
      and room1: "room a + to_write t1 \<le> room a1 + to_write t" and same: "place t \<noteq> Write_data \<longrightarrow> a1 = a"
      by (rule statement_returns [OF env 1(3,2) rm 1(4) nw False])
    have ok1: "session_ok env t1" by (rule step_session_ok [OF st 1(2)])
    have "((t1, s1, a1), (t, s, a)) \<in> ahead"
      using statement_ahead [OF env 1(3) session_okD(1) [OF 1(2)] st same] .
    moreover note step_lock(1) [OF st 1(2,4)]
    moreover have "file_lock s1 = Locked \<longrightarrow> holds t1" using step_lock(2) [OF st 1(2,4)] 1(5) by auto
    moreover have "c + to_write t1 \<le> room a1" using room1 1(6) by simp
    ultimately obtain t' s' a' where "reaches env (t1, s1) (t', s')" "place t' = Done" "session_ok env t'"
      "rep (data_store s') a'" "file_lock s' = Unlocked" "c + to_write t' \<le> room a'"
      using 1(1) [OF _ ok1 rep1] by blast
    then show ?thesis using reaches_step [OF st] by blast
  qed
qed

text \<open>All sessions of a server, and the file they share.\<close>

definition all_ok :: "'f client_env \<Rightarrow> 'f server \<Rightarrow> 'a \<Rightarrow> bool" where
  "all_ok env w a \<longleftrightarrow> (\<forall>t \<in> set (sessions w). session_ok env t) \<and> rep (data_store (shared w)) a \<and>
     file_lock (shared w) \<noteq> Destroyed \<and> (file_lock (shared w) = Locked \<longrightarrow> (\<exists>t \<in> set (sessions w). holds t)) \<and>
     sum_list (map to_write (sessions w)) \<le> room a"

lemma ended_complete: "all_ok env w a \<Longrightarrow> t \<in> set (sessions w) \<Longrightarrow> place t = Done \<Longrightarrow> complete t = 1"
  using session_okD(4) [of env t] by (simp add: all_ok_def place_order)

lemma all_ok_update:
  assumes ok: "all_ok env w a" and i: "i < length (sessions w)" and t: "session_ok env t" and rep: "rep (data_store s) b"
    and lk: "file_lock s \<noteq> Destroyed"
    and held: "holds t \<or> file_lock s = Unlocked \<or> holds (sessions w ! i) = holds t \<and> file_lock s = file_lock (shared w)"
    and room: "\<And>c. c + to_write (sessions w ! i) \<le> room a \<Longrightarrow> c + to_write t \<le> room b"
  shows "all_ok env (w\<lparr>shared := s, sessions := (sessions w)[i := t]\<rparr>) b"
proof -
  have upd: "t \<in> set ((sessions w)[i := t])" using i by (rule set_update_memI)
  have "\<exists>u \<in> set ((sessions w)[i := t]). holds u" if l: "file_lock s = Locked"
  proof (cases "holds t")
    case False
    then have "file_lock (shared w) = Locked" "\<not> holds (sessions w ! i)" using held l by auto
    then obtain j where j: "j < length (sessions w)" "holds (sessions w ! j)"
      using ok unfolding all_ok_def by (metis in_set_conv_nth)
    then have "j \<noteq> i" using \<open>\<not> holds (sessions w ! i)\<close> by auto
    then show ?thesis using j by (metis length_list_update nth_list_update_neq nth_mem)
  qed (use upd in blast)
  moreover have "\<forall>u \<in> set ((sessions w)[i := t]). session_ok env u"
    using ok t set_update_subset_insert [of "sessions w" i t] unfolding all_ok_def by blast
  moreover have "sum_list (map to_write ((sessions w)[i := t])) \<le> room b"
  proof -
    let ?c = "sum_list (map to_write (sessions w)) - to_write (sessions w ! i)"
    have le: "to_write (sessions w ! i) \<le> sum_list (map to_write (sessions w))"
      using i elem_le_sum_list [of i "map to_write (sessions w)"] by simp
    have "sum_list (map to_write ((sessions w)[i := t])) = ?c + to_write t"
      using i le sum_list_update [of i "map to_write (sessions w)" "to_write t"] by (simp add: map_update)
    then show ?thesis using room [of ?c] le ok by (simp add: all_ok_def)
  qed
  ultimately show ?thesis using rep lk by (simp add: all_ok_def)
qed

lemma schedule_live:
  assumes env: "api env = dfile"
  shows "run_schedule env is w = Ret w' \<Longrightarrow> all_ok env w a \<Longrightarrow> \<exists>b. all_ok env w' b \<and> length (sessions w') = length (sessions w)"
proof (induction "is" arbitrary: w a)
  case (Cons i "is")
  from Cons.prems(1) obtain t s where i: "i < length (sessions w)"
    and st: "session_step env (sessions w ! i) (shared w) = Ret (t, s)"
    and rest: "run_schedule env is (w\<lparr>shared := s, sessions := (sessions w)[i := t]\<rparr>) = Ret w'"
    by (auto simp: obind_Ret_iff split: if_splits)
  let ?t = "sessions w ! i"
  have ok: "session_ok env ?t" and rep: "rep (data_store (shared w)) a" and lk: "file_lock (shared w) \<noteq> Destroyed"
    using Cons.prems(2) i by (auto simp: all_ok_def)
  have le: "to_write ?t \<le> room a"
    using Cons.prems(2) i elem_le_sum_list [of i "map to_write (sessions w)"] by (simp add: all_ok_def)
  have "\<not> waits ?t (shared w)" "place ?t \<noteq> Done"
    using st by (auto simp: waits_def session_step_def take_lock_def)
  then obtain b where "rep (data_store s) b" "room a + to_write t \<le> room b + to_write ?t"
    using statement_returns [OF env rep ok le lk] st by (metis outcome.inject prod.inject)
  then have "all_ok env (w\<lparr>shared := s, sessions := (sessions w)[i := t]\<rparr>) b"
    using step_session_ok [OF st ok] step_lock [OF st ok lk]
    by (intro all_ok_update [OF Cons.prems(2) i]) auto
  from Cons.IH [OF rest this] show ?case by simp
qed auto

lemma pick_session:
  assumes ok: "all_ok env w a" and some: "\<exists>t \<in> set (sessions w). place t \<noteq> Done"
  obtains i where "i < length (sessions w)" and "place (sessions w ! i) \<noteq> Done"
    and "file_lock (shared w) = Locked \<longrightarrow> holds (sessions w ! i)"
proof (cases "file_lock (shared w) = Locked")
  case True
  then obtain i where i: "i < length (sessions w)" "holds (sessions w ! i)"
    using ok unfolding all_ok_def by (metis in_set_conv_nth)
  then have "session_ok env (sessions w ! i)" using ok by (simp add: all_ok_def)
  then have "place (sessions w ! i) \<noteq> Done" using session_okD(2) i(2) by fastforce
  then show thesis using that i by blast
next
  case False
  then show thesis using some that by (metis in_set_conv_nth)
qed

lemma finish_one:
  assumes env: "api env = dfile" and all: "all_ok env w a" and i: "i < length (sessions w)"
    and held: "file_lock (shared w) = Locked \<longrightarrow> holds (sessions w ! i)"
  obtains js t s b where "run_schedule env js w = Ret (w\<lparr>shared := s, sessions := (sessions w)[i := t]\<rparr>)"
    and "place t = Done" and "all_ok env (w\<lparr>shared := s, sessions := (sessions w)[i := t]\<rparr>) b"
proof -
  let ?t = "sessions w ! i"
  have ok: "session_ok env ?t" and rep: "rep (data_store (shared w)) a" and lk: "file_lock (shared w) \<noteq> Destroyed"
    using all i by (auto simp: all_ok_def)
  have "to_write ?t \<le> sum_list (map to_write (sessions w))"
    using i elem_le_sum_list [of i "map to_write (sessions w)"] by simp
  then have "room a - to_write ?t + to_write ?t \<le> room a" using all by (simp add: all_ok_def)
  from solo_run [OF env ok rep lk held this] obtain t s b where run: "reaches env (?t, shared w) (t, s)"
    "place t = Done" "session_ok env t" "rep (data_store s) b" "file_lock s = Unlocked"
    "room a - to_write ?t + to_write t \<le> room b"
    by blast
  obtain n where "session_run env n ?t (shared w) = Ret (t, s)" using run(1) by (auto simp: reaches_def)
  note sched = run_schedule_session [OF i this]
  have "all_ok env (w\<lparr>shared := s, sessions := (sessions w)[i := t]\<rparr>) b"
    using run(3-6) by (intro all_ok_update [OF all i]) auto
  with sched run(2) show thesis by (rule that)
qed

lemma finish_all:
  assumes env: "api env = dfile"
  shows "all_ok env w a \<Longrightarrow> \<exists>js w' b. run_schedule env js w = Ret w' \<and> all_ok env w' b \<and>
    length (sessions w') = length (sessions w) \<and> (\<forall>t \<in> set (sessions w'). place t = Done)"
proof (induction "card {i. i < length (sessions w) \<and> place (sessions w ! i) \<noteq> Done}" arbitrary: w a rule: less_induct)
  case less
  show ?case
  proof (cases "\<exists>t \<in> set (sessions w). place t \<noteq> Done")
    case False
    then show ?thesis using less.prems by (intro exI [of _ "[]"]) auto
  next
    case True
    obtain i where i: "i < length (sessions w)" "place (sessions w ! i) \<noteq> Done"
      "file_lock (shared w) = Locked \<longrightarrow> holds (sessions w ! i)"
      using pick_session [OF less.prems True] .
    obtain "is" t s b where one: "run_schedule env is w = Ret (w\<lparr>shared := s, sessions := (sessions w)[i := t]\<rparr>)"
      "place t = Done" "all_ok env (w\<lparr>shared := s, sessions := (sessions w)[i := t]\<rparr>) b"
      using finish_one [OF env less.prems i(1,3)] .
    let ?w = "w\<lparr>shared := s, sessions := (sessions w)[i := t]\<rparr>"
    have "{j. j < length (sessions ?w) \<and> place (sessions ?w ! j) \<noteq> Done} \<subset>
        {j. j < length (sessions w) \<and> place (sessions w ! j) \<noteq> Done}"
      using i(1,2) one(2) by (auto simp: nth_list_update split: if_splits)
    then have "card {j. j < length (sessions ?w) \<and> place (sessions ?w ! j) \<noteq> Done} <
        card {j. j < length (sessions w) \<and> place (sessions w ! j) \<noteq> Done}"
      by (intro psubset_card_mono) simp_all
    from less.hyps [OF this one(3)] obtain js w' b' where js: "run_schedule env js ?w = Ret w'" "all_ok env w' b'"
      "length (sessions w') = length (sessions ?w)" "\<forall>t \<in> set (sessions w'). place t = Done"
      by blast
    then have "run_schedule env (is @ js) w = Ret w'" using one(1) by (simp add: run_schedule_append)
    then show ?thesis using js by fastforce
  qed
qed

end

end
