(* ===== verification/Whole_Progress.thy ===== *)
theory Whole_Progress
  imports Whole_Runs Session_Progress
begin

text \<open>
  Runs of the whole server without signals, as lists of actions, and how they can go on: the sessions
  end as in \<open>Session_Progress\<close>, and the main thread comes back to \<open>accept\<close>.
\<close>

subsection \<open>Runs as lists of actions\<close>

datatype action =
  Main_thread
| Handler nat
| Client int "recv_result list"
| No_thread int

definition act :: "thread_env \<Rightarrow> 'f client_env \<Rightarrow> action \<Rightarrow> 'f whole \<Rightarrow> 'f whole outcome option" where
  "act env cenv c w =
     (case c of
        Main_thread \<Rightarrow> main_step env cenv w
      | Handler i \<Rightarrow> Some (if i < length (sessions (threads w)) then handler_step cenv i w else Blocked)
      | Client fd rs \<Rightarrow> Some (if accepts env w then Ret (start_session env cenv fd rs w) else Blocked)
      | No_thread fd \<Rightarrow> Some (if accepts env w then Ret (failed_session env fd w) else Blocked))"

fun run_actions :: "thread_env \<Rightarrow> 'f client_env \<Rightarrow> action list \<Rightarrow> 'f whole \<Rightarrow> 'f whole outcome option" where
  "run_actions env cenv [] w = Some (Ret w)"
| "run_actions env cenv (c # cs) w = tbind (act env cenv c w) (run_actions env cenv cs)"

text \<open>The messages of the clients that come in a run, client by client.\<close>

fun coming :: "action list \<Rightarrow> recv_result list list" where
  "coming [] = []"
| "coming (Client fd rs # cs) = rs # coming cs"
| "coming (c # cs) = coming cs"

lemma act_step: "act env cenv c w = Some (Ret w') \<Longrightarrow> whole_step env cenv w w'"
  by (cases c) (auto simp: act_def intro: whole_step.intros split: if_splits)

lemma run_actions_steps: "run_actions env cenv cs w = Some (Ret w') \<Longrightarrow> (whole_step env cenv)\<^sup>*\<^sup>* w w'"
  by (induction cs arbitrary: w)
    (auto simp: tbind_Ret_iff intro: converse_rtranclp_into_rtranclp act_step)

lemma run_actions_append:
  "run_actions env cenv (cs @ ds) w = tbind (run_actions env cenv cs w) (run_actions env cenv ds)"
proof (induction cs arbitrary: w)
  case (Cons c cs)
  then show ?case by (cases "act env cenv c w"; cases "the (act env cenv c w)") simp_all
qed simp

lemma coming_append [simp]: "coming (cs @ ds) = coming cs @ coming ds"
  by (induction cs rule: coming.induct) simp_all

subsection \<open>The main thread without signals\<close>

lemma remove_step_error: "remove_step env which c p s = Ret (x, y, s') \<Longrightarrow> isError s' = isError s"
  by (auto simp: remove_step_def remove_current_def pthread_join_def unlink_def set_next_def free_node_def obind_Ret_iff
      split: if_splits option.splits)

text \<open>A statement of the main thread, without signals: what it keeps, and where it leads.\<close>

lemma main_step_quiet:
  assumes st: "main_step env cenv w = Some (Ret w')" and inv: "whole_inv w" and quiet: "\<not> isError (main_proc w)"
  shows "threads w' = threads w" and "\<not> isError (main_proc w')"
proof -
  have "threads w' = threads w \<and> \<not> isError (main_proc w')"
  proof (cases "main_at w")
    case (Insert_link a)
    then show ?thesis using st quiet
      by (auto simp: main_step_def Let_def tbind_Ret_iff obind_Ret_iff insert_link_def unlock_list_def set_next_def
          split: if_splits option.splits)
  qed (use st quiet unsignalled_place(1) [OF inv quiet] in \<open>auto simp: main_step_def Let_def obind_Ret_iff insert_lock_def
      lock_list_def unlock_list_def dest: remove_step_error split: if_splits\<close>)
  then show "threads w' = threads w" "\<not> isError (main_proc w')" by simp_all
qed

lemma main_moves_quiet:
  assumes "(main_moves env cenv)\<^sup>*\<^sup>* w w'" and "env_ok env" and "whole_inv w" and "\<not> isError (main_proc w)"
  shows "whole_inv w' \<and> threads w' = threads w \<and> \<not> isError (main_proc w')"
  using assms(1)
proof (induction rule: rtranclp_induct)
  case (step v v')
  then have st: "main_step env cenv v = Some (Ret v')" by (simp add: main_moves_def)
  show ?case using main_step_inv [OF _ assms(2) st] main_step_quiet [OF st] step.IH by simp
qed (use assms in simp)

lemma main_moves_run: "(main_moves env cenv)\<^sup>*\<^sup>* w w' \<Longrightarrow>
    \<exists>n. run_actions env cenv (replicate n Main_thread) w = Some (Ret w')"
proof (induction rule: converse_rtranclp_induct)
  case base
  show ?case by (intro exI [of _ 0]) simp
next
  case (step w v)
  then obtain n where "run_actions env cenv (replicate n Main_thread) v = Some (Ret w')" by blast
  then show ?case using step(1) by (intro exI [of _ "Suc n"]) (simp add: act_def main_moves_def)
qed

text \<open>When all sessions are over, the main thread comes back to \<open>accept\<close>.\<close>

lemma cleaning_ends:
  assumes inv: "whole_inv w" and quiet: "\<not> isError (main_proc w)" and pl: "main_at w = Cleaning c p"
    and over: "\<forall>t \<in> set (sessions (threads w)). place t = Done" and env: "env_ok env"
  shows "\<exists>w'. (main_moves env cenv)\<^sup>*\<^sup>* w w' \<and> main_at w' = Accepting"
proof -
  let ?s = "main_proc w"
  have lm: "listMutex ?s = Locked" using unsignalled_place(2) [OF inv quiet] pl by simp
  obtain cs where cs: "cells_ok w cs" "place_ok w cs" using inv lm by (auto simp: whole_inv_def)
  obtain pre rest where csd: "cs = pre @ rest" and seg: "lseg (nodes ?s) (datas ?s) (head ?s) pre c"
      "lseg (nodes ?s) (datas ?s) c rest NULL" and p: "p = (if pre = [] then NULL else cell_node (last pre))"
    using cs(2) pl by (auto simp: place_ok_def walking_def Let_def)
  have sep: "separate (pre @ rest)" using cs(1) by (simp add: cells_ok_def threads_rep_def csd)
  have uj: "unjoined w (cell_id x)" "records w ! cell_id x = cell_data x" if "x \<in> set rest" for x
    using cs(1) that by (auto simp: cells_ok_def csd)
  have "ended w (cell_id x)" if "x \<in> set rest" for x
    using uj(1) [OF that] over by (simp add: unjoined_def ended_def)
  then have ends: "\<forall>x \<in> set rest. flagged (cell_thread x) \<longrightarrow> ends (joining env w) (cell_id x)" by simp
  have data: "inj_on cell_data (set rest)" using sep by (simp add: separate_def distinct_map)
  have "inj_on cell_id (set rest)"
  proof (rule inj_onI)
    fix x y
    assume xy: "x \<in> set rest" "y \<in> set rest" "cell_id x = cell_id y"
    then have "cell_data x = cell_data y" using uj(2) [OF xy(1)] uj(2) [OF xy(2)] by simp
    with data show "x = y" using xy by (blast dest: inj_onD)
  qed
  moreover have "distinct rest" using sep by (simp add: separate_def distinct_map)
  ultimately have ids: "distinct (map cell_id rest)" by (simp add: distinct_map)
  have "set (joins rest) \<inter> set (trace ?s) = {}" using uj(1) by (auto simp: joins_def unjoined_def)
  from remove_loop_effect [OF seg sep p ends ids this] obtain s where
    "remove_loop (joining env w) flagged c p ?s = Some (Ret s)" by blast
  from remove_loop_run [OF this refl refl refl] obtain q where
    loop: "(main_moves env cenv)\<^sup>*\<^sup>* w (w\<lparr>main_proc := s, main_at := Cleaning NULL q\<rparr>)"
    using pl by (metis (full_types) whole.surjective whole.update_convs(2) whole.update_convs(4))
  let ?w = "w\<lparr>main_proc := s, main_at := Cleaning NULL q\<rparr>"
  have "whole_inv ?w" using main_moves_quiet [OF loop env inv quiet] by simp
  from list_unlock_inv [OF this] obtain s' where "unlock_list s = Ret s'" by auto
  then have "main_moves env cenv ?w (?w\<lparr>main_proc := s', main_at := Accepting\<rparr>)"
    by (simp add: main_moves_def main_step_def)
  with loop have "(main_moves env cenv)\<^sup>*\<^sup>* w (?w\<lparr>main_proc := s', main_at := Accepting\<rparr>)"
    by (rule rtranclp.rtrancl_into_rtrancl)
  then show ?thesis by (intro exI conjI) (assumption, simp)
qed

fun to_clean :: "main_place \<Rightarrow> nat" where
  "to_clean (Insert_lock d) = 3"
| "to_clean (Insert_link a) = 2"
| "to_clean Clean_lock = 1"
| "to_clean p = 0"

fun next_place :: "main_place \<Rightarrow> main_place \<Rightarrow> bool" where
  "next_place (Insert_lock d) q \<longleftrightarrow> (\<exists>a. q = Insert_link a)"
| "next_place (Insert_link a) q \<longleftrightarrow> q = Clean_lock"
| "next_place Clean_lock q \<longleftrightarrow> (\<exists>c p. q = Cleaning c p)"
| "next_place p q \<longleftrightarrow> True"

lemma main_step_next: "main_step env cenv w = Some (Ret w') \<Longrightarrow> next_place (main_at w) (main_at w')"
  by (cases "main_at w") (auto simp: main_step_def Let_def obind_Ret_iff tbind_Ret_iff)

lemma main_to_accept:
  assumes env: "env_ok env"
  shows "whole_inv w \<Longrightarrow> \<not> isError (main_proc w) \<Longrightarrow> \<forall>t \<in> set (sessions (threads w)). place t = Done \<Longrightarrow>
    \<exists>w'. (main_moves env cenv)\<^sup>*\<^sup>* w w' \<and> main_at w' = Accepting"
proof (induction "to_clean (main_at w)" arbitrary: w rule: less_induct)
  case less
  note inv = less.prems(1) and quiet = less.prems(2) and over = less.prems(3)
  have stay: "main_step env cenv w = Some (Ret v) \<Longrightarrow>
      whole_inv v \<and> \<not> isError (main_proc v) \<and> (\<forall>t \<in> set (sessions (threads v)). place t = Done)" for v
    using main_step_inv [OF inv env] main_step_quiet [OF _ inv quiet] over by auto
  show ?case
  proof (cases "main_at w = Accepting \<or> (\<exists>c p. main_at w = Cleaning c p)")
    case True
    then show ?thesis using cleaning_ends [OF inv quiet _ over env] by blast
  next
    case False
    have "\<not> (\<exists>i. i < length (sessions (threads w)) \<and> place (sessions (threads w) ! i) = End_socket)"
      using over by fastforce
    then obtain v where v: "main_step env cenv w = Some (Ret v)"
      using main_progress [OF inv env quiet, of cenv] False by blast
    have nh: "\<not> handling (main_at w)" "sound_place (main_at w)"
      using unsignalled_place(1) [OF inv quiet] inv by (simp_all add: whole_inv_def signal_inv_def)
    have "to_clean (main_at v) < to_clean (main_at w)"
      using main_step_next [OF v] False nh by (cases "main_at w") auto
    from less.hyps [OF this] stay [OF v] show ?thesis using main_move [OF v] by blast
  qed
qed


subsection \<open>The sessions beside the main thread\<close>

text \<open>The server with the clients that are still to come as sessions that have not begun.\<close>

definition with_coming :: "'f client_env \<Rightarrow> recv_result list list \<Rightarrow> 'f server \<Rightarrow> 'f server" where
  "with_coming cenv rss v = v\<lparr>sessions := sessions v @ map (new_session cenv) rss\<rparr>"

lemma with_coming_Nil [simp]: "with_coming cenv [] v = v"
  by (simp add: with_coming_def)

lemma handler_step_schedule:
  assumes i: "i < length (sessions (threads w))" and st: "handler_step cenv i w = Ret w'"
  shows "run_schedule cenv [i] (with_coming cenv rss (threads w)) = Ret (with_coming cenv rss (threads w'))"
proof -
  obtain t s where "session_step cenv (sessions (threads w) ! i) (shared (threads w)) = Ret (t, s)"
    and "threads w' = (threads w)\<lparr>shared := s, sessions := (sessions (threads w))[i := t]\<rparr>"
    using st by (auto simp: handler_step_def Let_def obind_Ret_iff split: if_splits)
  then show ?thesis using i by (simp add: with_coming_def nth_append list_update_append)
qed

lemma handler_step_calm:
  assumes "handler_step cenv i w = Ret w'"
  shows "isError (main_proc w') = isError (main_proc w)" and "main_at w' = main_at w"
  using assms by (auto simp: handler_step_def Let_def obind_Ret_iff split: if_splits)

text \<open>A schedule of the sessions, as actions of the handlers.\<close>

lemma schedule_actions:
  "run_schedule cenv is (threads w) = Ret v \<Longrightarrow> whole_inv w \<Longrightarrow>
     \<exists>w'. run_actions env cenv (map Handler is) w = Some (Ret w') \<and> threads w' = v \<and> whole_inv w' \<and>
       isError (main_proc w') = isError (main_proc w)"
proof (induction "is" arbitrary: w)
  case (Cons i "is")
  let ?v = "threads w"
  obtain t s where i: "i < length (sessions ?v)" and st: "session_step cenv (sessions ?v ! i) (shared ?v) = Ret (t, s)"
    and rest: "run_schedule cenv is (?v\<lparr>shared := s, sessions := (sessions ?v)[i := t]\<rparr>) = Ret v"
    using Cons.prems(1) by (auto simp: obind_Ret_iff split: if_splits)
  have rec: "records_inv w" using Cons.prems(2) by (simp add: whole_inv_def)
  have "place (sessions ?v ! i) \<noteq> Done" using st by (auto simp: session_step_def)
  then have "unjoined w i" using rec i by (auto simp: unjoined_def records_inv_def Let_def)
  then have "datas (main_proc w) (records w ! i) \<noteq> None" using unjoined_record [OF rec] by auto
  then obtain w1 where h: "handler_step cenv i w = Ret w1"
    and th: "threads w1 = ?v\<lparr>shared := s, sessions := (sessions ?v)[i := t]\<rparr>"
    using st by (simp add: handler_step_def Let_def)
  have "whole_inv w1" by (rule handler_step_inv [OF Cons.prems(2) i h])
  with Cons.IH [of w1] rest th obtain w' where "run_actions env cenv (map Handler is) w1 = Some (Ret w')"
    "threads w' = v" "whole_inv w'" "isError (main_proc w') = isError (main_proc w1)" by auto
  then show ?case using h i handler_step_calm(1) [OF h] by (auto simp: act_def)
qed auto

lemma coming_handlers [simp]: "coming (map Handler is) = []"
  by (induction "is") simp_all

lemma coming_main [simp]: "coming (replicate n Main_thread) = []"
  by (induction n) simp_all

context live_calls
begin

definition all_live :: "'f client_env \<Rightarrow> recv_result list list \<Rightarrow> 'f whole \<Rightarrow> 'a \<Rightarrow> bool" where
  "all_live cenv rss w a \<longleftrightarrow> whole_inv w \<and> \<not> isError (main_proc w) \<and> all_ok cenv (with_coming cenv rss (threads w)) a"

lemma act_live:
  assumes env: "env_ok env" "api cenv = dfile" and st: "act env cenv c w = Some (Ret w')"
    and live: "all_live cenv (coming [c] @ rss) w a"
  shows "\<exists>b. all_live cenv rss w' b \<and>
    length (sessions (threads w')) = length (sessions (threads w)) + length (coming [c])"
proof -
  have inv: "whole_inv w" and quiet: "\<not> isError (main_proc w)"
    and ok: "all_ok cenv (with_coming cenv (coming [c] @ rss) (threads w)) a"
    using live by (simp_all add: all_live_def)
  have inv': "whole_inv w'" by (rule whole_step_inv [OF act_step [OF st] env(1) inv])
  show ?thesis
  proof (cases c)
    case Main_thread
    then have "main_step env cenv w = Some (Ret w')" using st by (simp add: act_def)
    from main_step_quiet [OF this inv quiet] show ?thesis using inv' ok Main_thread by (auto simp: all_live_def)
  next
    case (Handler i)
    then have i: "i < length (sessions (threads w))" and h: "handler_step cenv i w = Ret w'"
      using st by (auto simp: act_def split: if_splits)
    have "all_ok cenv (with_coming cenv rss (threads w)) a" using ok Handler by simp
    from schedule_live [OF env(2) handler_step_schedule [OF i h] this]
    show ?thesis using inv' quiet handler_step_calm(1) [OF h] Handler
      by (auto simp: all_live_def with_coming_def)
  next
    case (Client fd rs)
    then have w': "w' = start_session env cenv fd rs w" using st by (auto simp: act_def split: if_splits)
    have "with_coming cenv (rs # rss) (threads w) = with_coming cenv rss (threads w')"
      by (simp add: w' with_coming_def start_session_def new_record_def Let_def)
    moreover have "\<not> isError (main_proc w')" using quiet by (simp add: w' start_session_simps)
    ultimately show ?thesis using inv' ok Client by (auto simp: all_live_def w' start_session_simps)
  next
    case (No_thread fd)
    then have w': "w' = failed_session env fd w" using st by (auto simp: act_def split: if_splits)
    then have "threads w' = threads w" "\<not> isError (main_proc w')"
      using quiet by (simp_all add: failed_session_def new_record_def Let_def)
    then show ?thesis using inv' ok No_thread by (auto simp: all_live_def)
  qed
qed

lemma run_live:
  assumes env: "env_ok env" "api cenv = dfile"
  shows "run_actions env cenv cs w = Some (Ret w') \<Longrightarrow> all_live cenv (coming cs @ rss) w a \<Longrightarrow>
    \<exists>b. all_live cenv rss w' b \<and>
      length (sessions (threads w')) = length (sessions (threads w)) + length (coming cs)"
proof (induction cs arbitrary: w a)
  case (Cons c cs)
  then obtain v where v: "act env cenv c w = Some (Ret v)" "run_actions env cenv cs v = Some (Ret w')"
    by (auto simp: tbind_Ret_iff)
  have "coming (c # cs) = coming [c] @ coming cs" using coming_append [of "[c]" cs] by simp
  then have "all_live cenv (coming [c] @ coming cs @ rss) w a" using Cons.prems(2) by simp
  from act_live [OF env v(1) this] obtain b where b: "all_live cenv (coming cs @ rss) v b"
    "length (sessions (threads v)) = length (sessions (threads w)) + length (coming [c])" by blast
  show ?case using Cons.IH [OF v(2) b(1)] b(2) \<open>coming (c # cs) = coming [c] @ coming cs\<close> by auto
qed auto

text \<open>Then all sessions end, and the main thread comes back to \<open>accept\<close>.\<close>

lemma live_ends:
  assumes env: "env_ok env" "api cenv = dfile" and live: "all_live cenv [] w a"
  shows "\<exists>cs w'. run_actions env cenv cs w = Some (Ret w') \<and> coming cs = [] \<and> main_at w' = Accepting \<and>
    length (sessions (threads w')) = length (sessions (threads w)) \<and>
    (\<forall>t \<in> set (sessions (threads w')). place t = Done \<and> complete t = 1)"
proof -
  have inv: "whole_inv w" and quiet: "\<not> isError (main_proc w)" and ok: "all_ok cenv (threads w) a"
    using live by (simp_all add: all_live_def)
  obtain js v b where js: "run_schedule cenv js (threads w) = Ret v" "all_ok cenv v b"
    "length (sessions v) = length (sessions (threads w))" "\<forall>t \<in> set (sessions v). place t = Done"
    using finish_all [OF env(2) ok] by blast
  obtain w1 where w1: "run_actions env cenv (map Handler js) w = Some (Ret w1)" "threads w1 = v" "whole_inv w1"
    "\<not> isError (main_proc w1)"
    using schedule_actions [OF js(1) inv] quiet by blast
  obtain w' where w': "(main_moves env cenv)\<^sup>*\<^sup>* w1 w'" "main_at w' = Accepting"
    using main_to_accept [OF env(1) w1(3,4)] js(4) w1(2) by auto
  have th: "threads w' = v" using main_moves_quiet [OF w'(1) env(1) w1(3,4)] w1(2) by simp
  obtain n where "run_actions env cenv (replicate n Main_thread) w1 = Some (Ret w')"
    using main_moves_run [OF w'(1)] by blast
  then have "run_actions env cenv (map Handler js @ replicate n Main_thread) w = Some (Ret w')"
    using w1(1) by (simp add: run_actions_append)
  moreover have "\<forall>t \<in> set (sessions (threads w')). place t = Done \<and> complete t = 1"
    using js(4) ended_complete [OF js(2)] th by simp
  moreover have "length (sessions (threads w')) = length (sessions (threads w))" using js(3) th by simp
  ultimately show ?thesis using w'(2) coming_append [of "map Handler js" "replicate n Main_thread"] by fastforce
qed

end

end
