(* ===== verification/Live_Files.thy ===== *)
theory Live_Files
  imports Whole_Progress Device_File Plain_File
begin

text \<open>
  The device and the regular file keep the contract of \<open>Session_Progress\<close>. On the device the
  positions of all descriptors stay below \<^term>\<open>2 ^ 63\<close> as long as there is room: past that,
  \<open>lseek\<close> would fail and leave the device locked.
\<close>

subsection \<open>The device\<close>

definition dev_size :: "system \<Rightarrow> log \<Rightarrow> nat" where
  "dev_size s l = length (log_bytes l) + unat (buffer_size (device (sworld s)))"

definition dev_live :: "kernel \<Rightarrow> system \<Rightarrow> log \<times> nat \<Rightarrow> bool" where
  "dev_live k s a \<longleftrightarrow> (\<forall>m u bs. fst (copy_to_user k m u bs) = 0) \<and> dev_free k s (fst a) \<and>
     dev_size s (fst a) + snd a < 2 ^ 63 \<and>
     (\<forall>fd filp. files s fd = Some filp \<longrightarrow> unat (f_pos filp) + snd a < 2 ^ 63)"

definition dev_left :: "log \<times> nat \<Rightarrow> system \<Rightarrow> int \<Rightarrow> nat" where
  "dev_left a s fd = (case files s (nat fd) of None \<Rightarrow> 0 | Some filp \<Rightarrow> length (log_bytes (fst a)) - unat (f_pos filp))"

lemma dev_live_placed:
  "dev_live k s a \<Longrightarrow> files s (nat fd) = Some filp \<Longrightarrow> dev_placed k s fd (unat (f_pos filp)) (fst a)"
  by (fastforce simp: dev_live_def dev_placed_def)

lemma dev_live_user [simp]: "dev_live k (s\<lparr>sworld := (sworld s)\<lparr>user := m\<rparr>\<rparr>) a \<longleftrightarrow> dev_live k s a"
  by (cases a) (auto simp: dev_live_def dev_free_def log_abs_def dev_size_def)

lemma dev_live_put:
  assumes "dev_live k s a" and "private_data filp = Aesd_device" and "unat (f_pos filp) + snd a < 2 ^ 63"
  shows "dev_live k (put_file fd filp ((sworld s)\<lparr>user := m\<rparr>) s) a"
  using assms by (cases a) (auto simp: dev_live_def dev_free_def log_abs_def dev_size_def put_file_def)

lemma dev_live_open:
  assumes "dev_live k s a"
  shows "dev_live k (snd (api_open (dev_api k oob oobe new_fd) m s)) a"
proof -
  have "dev_live k (put_file fd \<lparr>private_data = Aesd_device, f_pos = 0, can_write = b\<rparr> ((sworld s)\<lparr>user := user (sworld s)\<rparr>) s) a" for fd b
    using assms by (intro dev_live_put) (auto simp: dev_live_def)
  then show ?thesis by (simp add: dev_api_def Let_def aesd_fops_def aesd_open_def aesd_inode_def)
qed

lemma dev_live_close:
  assumes "dev_live k s a"
  shows "dev_live k (snd (api_close (dev_api k oob oobe new_fd) fd s)) a"
  using assms
  by (auto simp: dev_live_def dev_free_def dev_size_def dev_api_def Let_def aesd_fops_def aesd_release_def
      with_file_def log_abs_def split: option.split)

lemma dev_live_lseek:
  assumes "dev_live k s a"
  shows "\<exists>r. api_lseek (dev_api k oob oobe new_fd) fd s = Ret (r, s)"
proof (cases "files s (nat fd)")
  case None
  then show ?thesis by (simp add: dev_api_def Let_def with_file_def)
next
  case (Some filp)
  then show ?thesis by (rule dev_lseek_same [OF dev_live_placed [OF assms]])
qed

lemma dev_live_read:
  assumes live: "dev_live k s a"
  shows "\<exists>r bs s'. api_read (dev_api k oob oobe new_fd) fd BUF_LEN s = Ret (r, bs, s') \<and> dev_live k s' a \<and>
    (r = -1 \<or> r = 0 \<or> dev_left a s' fd < dev_left a s fd)"
proof (cases "files s (nat fd)")
  case None
  then show ?thesis using live by (simp add: dev_api_def Let_def with_file_def libc_result_def)
next
  case (Some filp)
  obtain xs p b where a: "a = ((xs, p), b)" by (cases a) auto
  have kok: "kernel_ok k" and abs: "log_abs k s (xs, p)" and unl: "\<not> lock (device (sworld s))"
    and copies: "\<forall>m u bs. fst (copy_to_user k m u bs) = 0"
    and pos: "unat (f_pos filp) + b < 2 ^ 63" and size: "length (concat xs) + b < 2 ^ 63"
    using live Some by (auto simp: dev_live_def dev_free_def dev_size_def log_bytes_def a)
  note fil = log_abs_files [OF abs Some]
  have log: "log_rep k (sworld s) xs" using abs world_log_rep_log by (auto simp: log_abs_def)
  define d where "d = next_read xs (unat (f_pos filp)) BUF_LEN"
  from aesd_read_effect [OF kok log fil unl, of user_buf "of_nat BUF_LEN" "f_pos filp"]
  obtain r pos' w' where rd: "aesd_read k filp user_buf (of_nat BUF_LEN) (f_pos filp) (sworld s) = Ret (r, pos', w')"
    and eff: "read_effect xs user_buf (of_nat BUF_LEN) (f_pos filp) (sworld s) r pos' w'"
    by blast
  let ?s' = "put_file (nat fd) (filp\<lparr>f_pos := pos'\<rparr>) w' s"
  have res: "\<exists>bs. api_read (dev_api k oob oobe new_fd) fd BUF_LEN s = Ret (libc_result r, bs, ?s')"
    using Some rd by (simp add: dev_api_def Let_def aesd_fops_def with_file_def put_file_def)
  have "0 \<le> sint r" by (rule aesd_read_reliable [OF log fil unl copies rd])
  then have ok: "libc_result r \<noteq> -1" by (simp add: libc_result_def)
  have "unat (f_pos filp) < 2 ^ 63" using pos by linarith
  from log refl this eff d_def ok have got: "libc_result r = int (length d)" "unat pos' = unat (f_pos filp) + length d"
    "\<exists>m. w' = (sworld s)\<lparr>user := m\<rparr>"
    by (cases rule: read_effect_packet; auto)+
  have "unat (f_pos filp) + length d \<le> max (unat (f_pos filp)) (length (concat xs))"
    unfolding d_def by (rule next_read_bound)
  then have "dev_live k ?s' a" using got(2,3) live fil pos size
    by (auto intro!: dev_live_put simp: a)
  moreover have "d = [] \<or> dev_left a ?s' fd < dev_left a s fd"
  proof (cases "d = []")
    case False
    then have "unat (f_pos filp) < length (concat xs)" using next_read_Nil_iff [of xs "unat (f_pos filp)" BUF_LEN]
      by (simp add: d_def)
    moreover have "0 < length d" using False by simp
    ultimately have "length (concat xs) - (unat (f_pos filp) + length d) < length (concat xs) - unat (f_pos filp)"
      by linarith
    then show ?thesis using got(2) Some by (simp add: dev_left_def put_file_def a log_bytes_def)
  qed simp
  ultimately show ?thesis using res got(1) by fastforce
qed

text \<open>What a write adds to the log and to the position.\<close>

lemma dev_rep_size: "dev_rep k w xs pend \<Longrightarrow> unat (buffer_size (device w)) = length pend"
  by (auto simp: dev_rep_def pend_rep_def split: if_splits)

lemma push_size: "length (concat (push xs x)) \<le> length (concat xs) + length x"
  by (cases xs) (auto simp: push_def)

lemma write_effect_size:
  assumes eff: "write_effect k w xs pend bs pos r pos' w'" and p: "p = None \<or> p = Some pend"
    and len: "length pend = unat (buffer_size (device w))" and frame: "write_frame bs r w w'"
    and room: "unat pos + length bs < 2 ^ 63"
  obtains l where "world_log k w' l" and "unat pos' \<le> unat pos + length bs"
    and "length (concat (fst l)) + unat (buffer_size (device w')) \<le>
      length (concat xs) + unat (buffer_size (device w)) + length bs"
  using eff p
proof (cases rule: write_effect_log)
  case (failed l)
  have neg: "sint r < 0" using failed(1) by auto
  then have "pos' = pos" using eff sint_of_nat64 unfolding write_effect_def by fastforce
  moreover have "buffer_size (device w') = buffer_size (device w)" using frame neg by (simp add: write_frame_def)
  ultimately show thesis using that [of l] failed(2,4) by simp
next
  case (stored l)
  have fp: "length (first_packet bs) \<le> length bs" by (rule first_packet_length)
  have sr: "sint r = int (length (first_packet bs))" using stored(1,2) sint_of_nat64 by simp
  then have "\<not> r \<in> {- ENOMEM, - EFAULT}" by auto
  then have pos: "pos' = pos + r" and rep: "if newline \<in> set bs then dev_rep k w' (push xs (pend @ first_packet bs)) []
      else dev_rep k w' xs (pend @ first_packet bs)"
    using eff unfolding write_effect_def by blast+
  have ur: "unat r = length (first_packet bs)" using stored(1,2) by (simp add: unat_of_nat)
  then have "unat pos' = unat pos + length (first_packet bs)"
    using room fp by (simp add: pos) (subst unat_add_nowrap; simp)
  moreover have "length (concat (fst l)) + unat (buffer_size (device w')) \<le>
      length (concat xs) + unat (buffer_size (device w)) + length bs"
    using rep dev_rep_size [of k w'] push_size [of xs "pend @ first_packet bs"] fp len
    by (cases "newline \<in> set bs") (fastforce simp: stored(3))+
  ultimately show thesis using that [OF stored(5)] fp by simp
qed

lemma dev_live_write:
  assumes live: "dev_live k s a" and bs: "length bs \<le> BUF_LEN" "length bs \<le> snd a"
  shows "\<exists>r s' a'. api_write (dev_api k oob oobe new_fd) fd bs s = Ret (r, s') \<and> dev_live k s' a' \<and>
    snd a \<le> snd a' + length bs"
proof (cases "\<exists>filp. files s (nat fd) = Some filp \<and> can_write filp")
  case False
  have "\<exists>a'. dev_live k s a' \<and> snd a \<le> snd a' + length bs" using live by (intro exI [of _ a]) simp
  then show ?thesis using False by (cases "files s (nat fd)") (auto simp: dev_api_def Let_def with_file_def)
next
  case True
  then obtain filp where Some: "files s (nat fd) = Some filp" and wr_ok: "can_write filp" by blast
  obtain xs p b where a: "a = ((xs, p), b)" by (cases a) auto
  let ?w = "(sworld s)\<lparr>user := put_user (user (sworld s)) user_buf bs\<rparr>"
  have kok: "kernel_ok k" and abs: "log_abs k s (xs, p)" and unl: "\<not> lock (device ?w)"
    and pos: "\<And>fd filp. files s fd = Some filp \<Longrightarrow> unat (f_pos filp) + b < 2 ^ 63"
    and size: "length (concat xs) + unat (buffer_size (device ?w)) + b < 2 ^ 63"
    and copies: "\<forall>m u bs. fst (copy_to_user k m u bs) = 0"
    using live by (auto simp: dev_live_def dev_free_def dev_size_def log_bytes_def a)
  note fil = log_abs_files [OF abs Some]
  have wl: "world_log k ?w (xs, p)" using abs by (simp add: log_abs_def)
  obtain pend where st: "dev_state k ?w xs pend" and q: "\<And>q. p = Some q \<Longrightarrow> pend = q"
    and lost: "p = None \<longleftrightarrow> poisoned ?w"
    using world_log_state [OF wl] by blast
  have un: "unat (of_nat (length bs) :: size_t) = length bs" using bs(1) by (simp add: unat_of_nat BUF_LEN_def)
  have data: "get_user (user ?w) user_buf (unat (of_nat (length bs) :: size_t)) = bs" by (simp add: un get_put_user)
  from aesd_write_effect [OF kok st fil unl, of oob user_buf "of_nat (length bs)" "f_pos filp", unfolded data]
  obtain r q' w' pend' where wr: "aesd_write k oob filp user_buf (of_nat (length bs)) (f_pos filp) ?w = Ret (r, q', w')"
    and free': "\<not> lock (device w')" and pe: "\<not> poisoned ?w \<longrightarrow> pend' = pend"
    and len: "length pend' = unat (buffer_size (device ?w))"
    and eff: "write_effect k ?w xs pend' bs (f_pos filp) r q' w'" and frame: "write_frame bs r ?w w'"
    by blast
  have p': "p = None \<or> p = Some pend'" using pe q lost by (cases p) auto
  have "unat (f_pos filp) + length bs < 2 ^ 63" using pos [OF Some] bs(2) by (simp add: a)
  from write_effect_size [OF eff p' len frame this] obtain l where l: "world_log k w' l"
    "unat q' \<le> unat (f_pos filp) + length bs"
    "length (concat (fst l)) + unat (buffer_size (device w')) \<le> length (concat xs) + unat (buffer_size (device ?w)) + length bs"
    by blast
  let ?s' = "put_file (nat fd) (filp\<lparr>f_pos := q'\<rparr>) w' (s\<lparr>sworld := ?w\<rparr>)"
  have "api_write (dev_api k oob oobe new_fd) fd bs s = Ret (libc_result r, ?s')"
    using Some wr wr_ok by (simp add: dev_api_def Let_def aesd_fops_def with_file_def)
  moreover have "dev_live k ?s' (l, b - length bs)"
  proof -
    have "unat (f_pos fp) + (b - length bs) < 2 ^ 63" if "files ?s' d = Some fp" for d fp
    proof (cases "d = nat fd")
      case True
      then have "fp = filp\<lparr>f_pos := q'\<rparr>" using that by (simp add: put_file_def)
      then show ?thesis using l(2) pos [OF Some] bs(2) by (simp add: a)
    next
      case False
      then have "files s d = Some fp" using that by (simp add: put_file_def)
      from pos [OF this] show ?thesis by linarith
    qed
    moreover have "log_abs k ?s' l" using abs fil l(1) by (cases l) (auto simp: put_file_def log_abs_def)
    moreover have "dev_size ?s' l + (b - length bs) < 2 ^ 63"
      using l(3) size bs(2) by (simp add: dev_size_def log_bytes_def put_file_def a)
    ultimately show ?thesis using kok copies free' by (simp add: dev_live_def dev_free_def put_file_def)
  qed
  ultimately show ?thesis using bs(2) by (fastforce simp: a)
qed

interpretation dev_live: live_calls "dev_api k oob oobe new_fd" "dev_live k" snd dev_left for k oob oobe new_fd
proof
  fix s a m fd bs
  assume live: "dev_live k s a"
  let ?dev = "dev_api k oob oobe new_fd"
  show "dev_live k (snd (api_open ?dev m s)) a" by (rule dev_live_open [OF live])
  show "dev_live k (snd (api_close ?dev fd s)) a" by (rule dev_live_close [OF live])
  show "\<exists>r s'. api_lseek ?dev fd s = Ret (r, s') \<and> dev_live k s' a \<and> dev_left a s' fd \<le> dev_left a s fd"
    using dev_live_lseek [OF live] live by blast
  show "\<exists>r bs s'. api_read ?dev fd BUF_LEN s = Ret (r, bs, s') \<and> dev_live k s' a \<and>
      (r = -1 \<or> r = 0 \<or> dev_left a s' fd < dev_left a s fd)"
    by (rule dev_live_read [OF live])
  show "\<exists>r s' a'. api_write ?dev fd bs s = Ret (r, s') \<and> dev_live k s' a' \<and> snd a \<le> snd a' + length bs"
    if "bs \<noteq> []" "length bs \<le> BUF_LEN" "length bs \<le> snd a"
    using that(2,3) by (rule dev_live_write [OF live])
qed

text \<open>Sessions that have not begun.\<close>

abbreviation message_bytes :: "recv_result list list \<Rightarrow> nat" where
  "message_bytes rss \<equiv> \<Sum>rs\<leftarrow>rss. length (concat (chunks rs))"

lemma dev_live_start:
  assumes "kernel_ok k" and "log_abs k (data_store (shared w)) l"
    and "\<not> lock (device (sworld (data_store (shared w))))" and "files (data_store (shared w)) = Map.empty"
    and free: "file_lock (shared w) = Unlocked" and "\<forall>m u bs. fst (copy_to_user k m u bs) = 0"
    and start: "sessions w = map (new_session env) rss"
    and data: "\<forall>rs \<in> set rss. no_seek env rs (replicate BUF_LEN 0) \<and> (\<forall>bs \<in> set (chunks rs). length bs \<le> BUF_LEN)"
    and "dev_size (data_store (shared w)) l + message_bytes rss < 2 ^ 63"
  shows "dev_live.all_ok k env w (l, message_bytes rss)"
proof -
  have "\<forall>t \<in> set (sessions w). session_ok env t"
    using data chunks_nonempty
    by (auto simp: start session_ok_def data_only_def new_session_def guarded_def place_order unread_def
        simp del: no_seek.simps)
  moreover have "dev_live k (data_store (shared w)) (l, message_bytes rss)"
    using assms by (simp add: dev_live_def dev_free_def)
  moreover have "sum_list (map to_write (sessions w)) = message_bytes rss"
    by (simp add: start to_write_def length_concat comp_def)
  ultimately show ?thesis using free by (simp add: dev_live.all_ok_def)
qed

subsection \<open>The regular file\<close>

definition plain_left :: "byte list \<Rightarrow> plain_file \<Rightarrow> int \<Rightarrow> nat" where
  "plain_left a f fd = (case positions f fd of None \<Rightarrow> 0 | Some n \<Rightarrow> length a - n)"

lemma plain_live_read:
  assumes "plain_rep f a"
  shows "\<exists>r bs f'. api_read (plain_api new_fd) fd BUF_LEN f = Ret (r, bs, f') \<and> plain_rep f' a \<and>
    (r = -1 \<or> r = 0 \<or> plain_left a f' fd < plain_left a f fd)"
proof (cases "positions f fd")
  case (Some n)
  let ?bs = "take BUF_LEN (drop n a)"
  have "?bs = [] \<or> length a - (n + length ?bs) < length a - n" by (cases "n < length a") (auto simp: BUF_LEN_def)
  then show ?thesis using assms Some by (auto simp: plain_api_def plain_rep_def plain_left_def Let_def)
qed (use assms in \<open>simp add: plain_api_def\<close>)

interpretation plain_live: live_calls "plain_api new_fd" plain_rep "\<lambda>a. n" plain_left for new_fd n
proof
  fix f a m fd bs
  assume rep: "plain_rep f a"
  show "plain_rep (snd (api_open (plain_api new_fd) m f)) a" "plain_rep (snd (api_close (plain_api new_fd) fd f)) a"
    using rep by (auto simp: plain_api_def plain_rep_def Let_def split: option.split)
  show "\<exists>r f'. api_lseek (plain_api new_fd) fd f = Ret (r, f') \<and> plain_rep f' a \<and> plain_left a f' fd \<le> plain_left a f fd"
    using rep plain_lseek [of new_fd fd f] by auto
  show "\<exists>r bs f'. api_read (plain_api new_fd) fd BUF_LEN f = Ret (r, bs, f') \<and> plain_rep f' a \<and>
      (r = -1 \<or> r = 0 \<or> plain_left a f' fd < plain_left a f fd)"
    by (rule plain_live_read [OF rep])
  show "\<exists>r f' a'. api_write (plain_api new_fd) fd bs f = Ret (r, f') \<and> plain_rep f' a' \<and> n \<le> n + length bs"
    by (auto simp: plain_api_def plain_rep_def split: option.split)
qed

end
