(* ===== verification/Concurrency_Properties.thy ===== *)
theory Concurrency_Properties
  imports Any_Descriptor Live_Files Whole_Properties
begin

text \<open>
  What holds of any number of sessions on the character device, in whatever order their statements
  come: which messages get into the log and in which order, and that no order of statements can
  keep the sessions from ending, or the whole server from serving its clients. They follow from the
  contracts of \<open>Message_Order\<close> and \<open>Session_Progress\<close>, which the device keeps.
\<close>

subsection \<open>The order of the messages\<close>


definition two_lines :: "recv_result list list" where
  "two_lines = [[Recv [100, 10]], [Recv [101, 10]]]"

definition two_line_server :: "system server" where
  "two_line_server = (idle_server two_system)\<lparr>sessions := map (new_session example_env) two_lines\<rparr>"

lemma two_line_server_simps [simp]:
  "sessions two_line_server = map (new_session example_env) two_lines"
  "data_store (shared two_line_server) = two_system" "file_lock (shared two_line_server) = Unlocked"
  by (simp_all add: two_line_server_def idle_server_def)

lemma two_system_size:
  "dev_size (data_store (shared two_line_server)) ([[97, 98, 10], [99, 10]], Some []) + message_bytes two_lines < 2 ^ 63"
  using dev_rep_size [of example_kernel "sworld two_system" "[[97, 98, 10], [99, 10]]" "[]"] two_system_log(1)
  by (simp add: two_lines_def dev_size_def log_bytes_def log_abs_def world_log_def)


lemma two_lines_start: "\<exists>w'. run_schedule example_env [0, 1] two_line_server = Ret w'"
  by (simp add: two_lines_def session_step_def new_session_def)


subsection \<open>No order of statements keeps the sessions from ending\<close>

text \<open>Any number of clients on the character device that nobody holds locked or has open, with
  copies to user space that do not fail, with clients that send no seek command, and with less than
  2 to the 63 bytes in the log and the messages together: however the statements of their sessions
  have come so far, they can go on so that every session ends, as complete. In particular no two
  handlers can block each other, and no handler is stuck with the mutex or in its send loop.\<close>

theorem sessions_can_finish:
  assumes kok: "kernel_ok k" and log: "log_abs k (data_store (shared w)) l"
    and free: "\<not> lock (device (sworld (data_store (shared w))))" "files (data_store (shared w)) = Map.empty"
      "file_lock (shared w) = Unlocked"
    and copies: "\<forall>m u bs. fst (copy_to_user k m u bs) = 0"
    and env: "api env = dev_api k oob oobe new_fd"
    and start: "sessions w = map (new_session env) rss"
    and data: "\<forall>rs \<in> set rss. no_seek env rs (replicate BUF_LEN 0) \<and> (\<forall>bs \<in> set (chunks rs). length bs \<le> BUF_LEN)"
    and room: "dev_size (data_store (shared w)) l + message_bytes rss < 2 ^ 63"
    and run: "run_schedule env is w = Ret w'"
  shows "\<exists>js w''. run_schedule env js w' = Ret w'' \<and> length (sessions w'') = length rss \<and>
    (\<forall>t \<in> set (sessions w''). place t = Done \<and> complete t = 1)"
proof -
  have "dev_live.all_ok k env w (l, message_bytes rss)"
    using kok log free copies start data room by (rule dev_live_start)
  from dev_live.schedule_live [OF env run this] obtain b where b: "dev_live.all_ok k env w' b"
    and len: "length (sessions w') = length rss" by (auto simp: start)
  from dev_live.finish_all [OF env b] obtain js w'' c where js: "run_schedule env js w' = Ret w''"
    and c: "dev_live.all_ok k env w'' c" and len': "length (sessions w'') = length (sessions w')"
    and fin: "\<forall>t \<in> set (sessions w''). place t = Done" by blast
  then show ?thesis using js len len' dev_live.ended_complete [OF c] by auto
qed

theorem sessions_can_finish_witness:
  "\<exists>w' js w''. run_schedule example_env [0, 1] two_line_server = Ret w' \<and>
     run_schedule example_env js w' = Ret w'' \<and> length (sessions w'') = 2 \<and>
     (\<forall>t \<in> set (sessions w''). place t = Done \<and> complete t = 1)"
proof -
  obtain w' where w': "run_schedule example_env [0, 1] two_line_server = Ret w'" using two_lines_start by blast
  have "no_seek example_env [Recv [b, 10]] (replicate BUF_LEN 0)" if "b = 100 \<or> b = 101" for b
    using that by (intro no_seek_one) (auto simp: ioctl_cmd_def bytes_of_def)
  then have ns: "\<forall>rs \<in> set two_lines. no_seek example_env rs (replicate BUF_LEN 0) \<and>
      (\<forall>bs \<in> set (chunks rs). length bs \<le> BUF_LEN)"
    by (simp add: two_lines_def BUF_LEN_def del: no_seek.simps)
  have env: "api example_env = example_dev" by simp
  from sessions_can_finish [OF example_kernel_ok _ _ _ _ example_copies(1) env _ ns _ w'] two_system_size
  show ?thesis using w' two_system_log by (fastforce simp: two_lines_def two_system_def)
qed


text \<open>C4: the whole server from the end of its setup, on the character device that nobody holds locked
  or has open, with copies to user space that do not fail, and without signals: whatever the main
  thread and the handlers have done so far, and whatever clients have come, as long as they send no
  seek command and there are less than 2 to the 63 bytes in the log and the messages together,
  the threads can go on so that every client is served to its end and the main thread waits for
  the next connection. So no run of the server without signals comes to a deadlock between the main
  thread, the handlers and the two mutexes.\<close>

theorem server_can_serve_all:
  assumes start: "main_setup net argv initial_proc = (None, s)" and env: "env_ok env"
    and kok: "kernel_ok k" and log: "log_abs k f l"
    and free: "\<not> lock (device (sworld f))" "files f = Map.empty"
    and copies: "\<forall>m u bs. fst (copy_to_user k m u bs) = 0"
    and cenv: "api cenv = dev_api k oob oobe new_fd"
    and run: "run_actions env cenv cs (started s f) = Some (Ret w)"
    and data: "\<forall>rs \<in> set (coming cs). no_seek cenv rs (replicate BUF_LEN 0) \<and>
      (\<forall>bs \<in> set (chunks rs). length bs \<le> BUF_LEN)"
    and room: "dev_size f l + message_bytes (coming cs) < 2 ^ 63"
  shows "\<exists>ds w'. run_actions env cenv ds w = Some (Ret w') \<and> coming ds = [] \<and> main_at w' = Accepting \<and>
    length (sessions (threads w')) = length (coming cs) \<and>
    (\<forall>t \<in> set (sessions (threads w')). place t = Done \<and> complete t = 1)"
proof -
  let ?v = "with_coming cenv (coming cs) (threads (started s f))" and ?a = "(l, message_bytes (coming cs))"
  have v: "data_store (shared ?v) = f" "file_lock (shared ?v) = Unlocked" "sessions ?v = map (new_session cenv) (coming cs)"
    by (simp_all add: with_coming_def started_def idle_server_def)
  have "dev_live.all_ok k cenv ?v ?a"
    by (rule dev_live_start [OF kok]) (use log free copies data room v in \<open>simp_all del: no_seek.simps\<close>)
  moreover have "whole_inv (started s f)" by (rule whole_started_inv [OF start])
  moreover have "\<not> isError (main_proc (started s f))" using setup_inv [OF start] by (simp add: started_def loop_inv_def)
  ultimately have "dev_live.all_live k cenv (coming cs @ []) (started s f) ?a" by (simp add: dev_live.all_live_def)
  from dev_live.run_live [OF env cenv run this] obtain b where b: "dev_live.all_live k cenv [] w b"
    and len: "length (sessions (threads w)) = length (coming cs)"
    by (auto simp: started_def idle_server_def)
  from dev_live.live_ends [OF env cenv b] show ?thesis unfolding len .
qed

theorem server_can_serve_all_witness:
  "\<exists>s w ds w'. run_actions easy_env example_env [Client 4 [Recv [100, 10]]] (started s two_system) = Some (Ret w) \<and>
     run_actions easy_env example_env ds w = Some (Ret w') \<and> coming ds = [] \<and> main_at w' = Accepting \<and>
     length (sessions (threads w')) = 1 \<and> (\<forall>t \<in> set (sessions (threads w')). place t = Done \<and> complete t = 1)"
proof -
  obtain s where s: "main_setup good_net [''aesdsocket''] initial_proc = (None, s)" using good_setup ..
  have "accepts easy_env (started s two_system)"
    using setup_inv [OF s] easy_env_ok by (simp add: accepts_def started_def loop_inv_def env_ok_def)
  then obtain w where w: "run_actions easy_env example_env [Client 4 [Recv [100, 10]]] (started s two_system) = Some (Ret w)"
    by (simp add: act_def)
  have "no_seek example_env [Recv [100, 10]] (replicate BUF_LEN 0)"
    by (rule no_seek_one) (simp_all add: ioctl_cmd_def bytes_of_def)
  then have data: "\<forall>rs \<in> set (coming [Client 4 [Recv [100, 10]]]). no_seek example_env rs (replicate BUF_LEN 0) \<and>
      (\<forall>bs \<in> set (chunks rs). length bs \<le> BUF_LEN)" by (simp add: BUF_LEN_def del: no_seek.simps)
  have env: "api example_env = example_dev" by simp
  have "dev_size two_system ([[97, 98, 10], [99, 10]], Some []) + message_bytes (coming [Client 4 [Recv [100, 10]]]) < 2 ^ 63"
    using two_system_size by (simp add: two_lines_def)
  from server_can_serve_all [OF s easy_env_ok example_kernel_ok two_system_log(1,2) _ example_copies(1) env w data this] w
  show ?thesis by (fastforce simp: two_system_def)
qed

end
