(* ===== verification/Thread_Signals.thy ===== *)
theory Thread_Signals
  imports Whole_Invariant
begin

text \<open>
  \<^verbatim>\<open>server/aesdsocket.c\<close> with signals in every thread. The system may deliver a signal to any thread
  of the process; \<open>signal_handler\<close> then runs \<open>do_shutdown\<close> in that thread. To the state of
  \<open>Whole_Server\<close> comes, for each client thread, the stack of the handlers it is in.
\<close>

subsection \<open>The steps\<close>

text \<open>Where a client thread is in \<open>do_shutdown\<close>: before the lock, or in the loop.\<close>

datatype shut_place = Lock_list | Walk ptr ptr

record 'f signalled =
  whole :: "'f whole"
  handling_at :: "nat \<Rightarrow> shut_place list"

text \<open>
  A round of the loop of \<open>do_shutdown\<close> in thread \<open>i\<close>. A thread that joins itself gets the error
  \<open>EDEADLK\<close> at once, which the code does not look at, or waits for ever; \<open>edeadlk\<close> says which.
\<close>

definition shut_round ::
  "bool \<Rightarrow> thread_env \<Rightarrow> nat \<Rightarrow> ptr \<Rightarrow> ptr \<Rightarrow> proc \<Rightarrow> (ptr \<times> ptr \<times> proc) outcome"
where
  "shut_round edeadlk env i current prev s =
     (case nodes s current of
        None \<Rightarrow> Undef
      | Some n \<Rightarrow>
          (case datas s (node_data n) of
             None \<Rightarrow> Undef
           | Some t \<Rightarrow>
               if threadId t = i
               then if edeadlk
                    then obind (unlink prev current n s) (\<lambda>s. obind (link_of prev s) (\<lambda>c. Ret (c, prev, s)))
                    else Blocked
               else obind (remove_current env prev current n t s) (\<lambda>(c, s). Ret (c, prev, s))))"

definition enter :: "'f signalled \<Rightarrow> nat \<Rightarrow> shut_place list \<Rightarrow> 'f whole \<Rightarrow> 'f signalled" where
  "enter v i ps w = v\<lparr>whole := w, handling_at := (handling_at v)(i := ps)\<rparr>"

definition shut_step ::
  "bool \<Rightarrow> thread_env \<Rightarrow> 'f client_env \<Rightarrow> nat \<Rightarrow> 'f signalled \<Rightarrow> 'f signalled outcome"
where
  "shut_step edeadlk env cenv i v =
     (let w = whole v; s = main_proc w in
      case handling_at v i of
        [] \<Rightarrow> Blocked
      | Lock_list # back \<Rightarrow> obind (lock_list s) (\<lambda>s.
          Ret (enter v i (Walk (head s) NULL # back) (w\<lparr>main_proc := s\<rparr>)))
      | Walk c p # back \<Rightarrow>
          if c = NULL
          then obind (finish_main cenv (Some (main_at w)) w) (\<lambda>w. Ret (enter v i back w))
          else obind (shut_round edeadlk (joining env w) i c p s) (\<lambda>(c, p, s).
                 Ret (enter v i (Walk c p # back) (w\<lparr>main_proc := s\<rparr>))))"

text \<open>
  The system. A client may also come after a signal, while the main thread waits in \<open>accept\<close> with
  \<open>isError\<close> already set by another thread.
\<close>

definition in_accept :: "thread_env \<Rightarrow> 'f whole \<Rightarrow> bool" where
  "in_accept env w \<longleftrightarrow> main_at w = Accepting \<and> malloc_data env (datas (main_proc w)) \<noteq> NULL"

definition signal_thread :: "nat \<Rightarrow> 'f signalled \<Rightarrow> 'f signalled" where
  "signal_thread i v = enter v i (Lock_list # handling_at v i)
     ((whole v)\<lparr>main_proc := (main_proc (whole v))\<lparr>isError := True\<rparr>\<rparr>)"

abbreviation clients :: "'f signalled \<Rightarrow> session list" where
  "clients v \<equiv> sessions (threads (whole v))"

inductive signalled_step ::
  "bool \<Rightarrow> thread_env \<Rightarrow> 'f client_env \<Rightarrow> 'f signalled \<Rightarrow> 'f signalled \<Rightarrow> bool" for edeadlk env cenv where
  main_thread: "main_step env cenv (whole v) = Some (Ret w) \<Longrightarrow> signalled_step edeadlk env cenv v (v\<lparr>whole := w\<rparr>)"
| client_thread: "i < length (clients v) \<Longrightarrow> handling_at v i = [] \<Longrightarrow> handler_step cenv i (whole v) = Ret w \<Longrightarrow>
    signalled_step edeadlk env cenv v (v\<lparr>whole := w\<rparr>)"
| shutdown: "i < length (clients v) \<Longrightarrow> shut_step edeadlk env cenv i v = Ret v' \<Longrightarrow>
    signalled_step edeadlk env cenv v v'"
| accepted: "in_accept env (whole v) \<Longrightarrow>
    signalled_step edeadlk env cenv v (v\<lparr>whole := start_session env cenv fd rs (whole v)\<rparr>)"
| not_created: "in_accept env (whole v) \<Longrightarrow>
    signalled_step edeadlk env cenv v (v\<lparr>whole := failed_session env fd (whole v)\<rparr>)"
| signal_main: "main_at (whole v) \<noteq> Finished \<Longrightarrow> signalled_step edeadlk env cenv v (v\<lparr>whole := interrupted (whole v)\<rparr>)"
| signal_client: "i < length (clients v) \<Longrightarrow> place (clients v ! i) \<noteq> Done \<Longrightarrow>
    signalled_step edeadlk env cenv v (signal_thread i v)"

definition unsignalled :: "'f whole \<Rightarrow> 'f signalled" where
  "unsignalled w = \<lparr>whole = w, handling_at = (\<lambda>_. [])\<rparr>"

text \<open>The server of \<open>Whole_Server\<close> is the case in which signals come in the main thread only.\<close>

lemma whole_step_signalled:
  assumes "whole_step env cenv w w'"
  shows "signalled_step edeadlk env cenv (unsignalled w) (unsignalled w')"
proof -
  have eq: "unsignalled w' = unsignalled w\<lparr>whole := w'\<rparr>" by (simp add: unsignalled_def)
  have [simp]: "whole (unsignalled w) = w" "handling_at (unsignalled w) = (\<lambda>_. [])" by (simp_all add: unsignalled_def)
  note step = signalled_step.intros [where v = "unsignalled w", simplified]
  from assms show ?thesis unfolding eq
    by cases (auto simp: accepts_def in_accept_def intro: step)
qed

subsection \<open>Who has the list\<close>

fun main_holds :: "main_place \<Rightarrow> nat" where
  "main_holds (Insert_link a) = 1"
| "main_holds (Cleaning c p) = 1"
| "main_holds (Shutting c p None) = 1"
| "main_holds (Shutting c p (Some back)) = Suc (main_holds back)"
| "main_holds (Shut_lock (Some back)) = main_holds back"
| "main_holds _ = 0"

fun client_holds :: "shut_place list \<Rightarrow> nat" where
  "client_holds [] = 0"
| "client_holds (Lock_list # ps) = client_holds ps"
| "client_holds (Walk c p # ps) = Suc (client_holds ps)"

definition list_holds :: "'f signalled \<Rightarrow> nat" where
  "list_holds v = main_holds (main_at (whole v)) + (\<Sum>i<length (clients v). client_holds (handling_at v i))"

abbreviation list_mutex :: "'f whole \<Rightarrow> mutex" where
  "list_mutex w \<equiv> listMutex (main_proc w)"

text \<open>
  The list mutex is locked when exactly one of the list sections that were entered and not left has
  it, and otherwise there is none; at the end of \<open>main\<close> it is destroyed.
\<close>

definition list_inv :: "'f signalled \<Rightarrow> bool" where
  "list_inv v \<longleftrightarrow> list_holds v = (if list_mutex (whole v) = Locked then 1 else 0) \<and>
     (\<forall>i \<ge> length (clients v). handling_at v i = []) \<and>
     (main_at (whole v) = Finished \<longrightarrow> list_mutex (whole v) = Destroyed)"

text \<open>What a step of one thread does with the mutex and its own sections.\<close>

definition lock_change :: "mutex \<Rightarrow> nat \<Rightarrow> mutex \<Rightarrow> nat \<Rightarrow> bool" where
  "lock_change m a m' a' \<longleftrightarrow> m' = m \<and> a' = a \<or> m = Unlocked \<and> m' = Locked \<and> a' = Suc a \<or>
     m \<noteq> Destroyed \<and> m' \<noteq> Locked \<and> a = Suc a'"

lemma lock_change_total:
  assumes "lock_change m a m' a'" and "a + b = (if m = Locked then 1 else 0)"
  shows "a' + b = (if m' = Locked then 1 else 0)"
  using assms by (auto simp: lock_change_def split: if_splits)

lemma lock_change_same [simp]: "lock_change m a m a"
  by (simp add: lock_change_def)

lemma lock_list_change: "lock_list s = Ret s' \<Longrightarrow> lock_change (listMutex s) a (listMutex s') (Suc a)"
  by (cases "listMutex s") (auto simp: lock_list_def lock_change_def)

lemma unlock_list_change: "unlock_list s = Ret s' \<Longrightarrow> lock_change (listMutex s) (Suc a) (listMutex s') a"
  by (cases "listMutex s") (auto simp: unlock_list_def lock_change_def)

lemma unlink_mutex: "unlink prev c n s = Ret s' \<Longrightarrow> listMutex s' = listMutex s"
  by (auto simp: unlink_def set_next_def free_node_def obind_Ret_iff split: if_splits option.splits)

lemma remove_current_mutex: "remove_current env prev c n t s = Ret (x, s') \<Longrightarrow> listMutex s' = listMutex s"
  by (auto simp: remove_current_def pthread_join_def obind_Ret_iff dest!: unlink_mutex split: if_splits)

lemma remove_step_mutex: "remove_step env which c p s = Ret (x, y, s') \<Longrightarrow> listMutex s' = listMutex s"
  by (auto simp: remove_step_def obind_Ret_iff dest: remove_current_mutex split: option.splits if_splits)

lemma shut_round_mutex: "shut_round e env i c p s = Ret (x, y, s') \<Longrightarrow> listMutex s' = listMutex s"
  by (auto simp: shut_round_def obind_Ret_iff dest: remove_current_mutex unlink_mutex split: option.splits if_splits)

text \<open>No step but \<open>malloc\<close> allocates a record.\<close>

lemma unlink_datas: "unlink prev c n s = Ret s' \<Longrightarrow> datas s' = (datas s)(node_data n := None)"
  by (auto simp: unlink_def set_next_def free_node_def obind_Ret_iff split: if_splits option.splits)

lemma remove_step_datas: "remove_step env which c p s = Ret (x, y, s') \<Longrightarrow> datas s d = None \<Longrightarrow> datas s' d = None"
  by (auto simp: remove_step_def obind_Ret_iff dest!: remove_current_datas split: option.splits if_splits)

lemma shut_round_datas: "shut_round e env i c p s = Ret (x, y, s') \<Longrightarrow> datas s d = None \<Longrightarrow> datas s' d = None"
  by (auto simp: shut_round_def obind_Ret_iff dest!: remove_current_datas unlink_datas split: option.splits if_splits)

lemma finish_main_change:
  assumes "finish_main cenv back w = Ret w'"
  shows "list_mutex w \<noteq> Destroyed \<and> list_mutex w' = Destroyed \<and> clients (unsignalled w') = clients (unsignalled w) \<and>
    records w' = records w \<and> datas (main_proc w') = datas (main_proc w) \<and>
    main_at w' = (case back of None \<Rightarrow> Finished | Some p \<Rightarrow> p)"
  using assms
  by (cases "list_mutex w") (auto simp: finish_main_def finish_shutdown_def unlock_list_def Let_def obind_Ret_iff
      unsignalled_def)

lemma main_step_change:
  assumes "main_step env cenv w = Some (Ret w')"
  shows "lock_change (list_mutex w) (main_holds (main_at w)) (list_mutex w') (main_holds (main_at w')) \<and>
    sessions (threads w') = sessions (threads w) \<and> (main_at w' = Finished \<longrightarrow> list_mutex w' = Destroyed)"
proof (cases "main_at w")
  case (Insert_link a)
  then obtain s where s: "insert_link a (main_proc w) = Some (Ret s)" "w' = w\<lparr>main_proc := s, main_at := Clean_lock\<rparr>"
    using assms by (auto simp: main_step_def Let_def tbind_Ret_iff)
  obtain s1 where "unlock_list s1 = Ret s" "listMutex s1 = list_mutex w"
    using s(1) by (auto simp: insert_link_def tbind_Ret_iff obind_Ret_iff set_next_def split: if_splits option.splits)
  then show ?thesis using unlock_list_change [of s1 s 0] Insert_link by (simp add: s(2))
next
  case (Shutting c p r)
  show ?thesis
  proof (cases "c = NULL")
    case True
    then have "finish_main cenv r w = Ret w'" using assms Shutting by (simp add: main_step_def)
    from finish_main_change [OF this] show ?thesis using Shutting
      by (cases r) (simp_all add: lock_change_def unsignalled_def)
  next
    case False
    then obtain c' p' s where "remove_step (joining env w) (\<lambda>_. True) c p (main_proc w) = Ret (c', p', s)"
      and "w' = w\<lparr>main_proc := s, main_at := Shutting c' p' r\<rparr>"
      using assms Shutting by (auto simp: main_step_def Let_def obind_Ret_iff)
    then show ?thesis using remove_step_mutex Shutting by (cases r) auto
  qed
next
  case (Shut_lock r)
  then show ?thesis using assms lock_list_change
    by (cases r) (auto simp: main_step_def Let_def obind_Ret_iff)
next
  case (Insert_lock d)
  then show ?thesis using assms lock_list_change [where a = 0]
    by (fastforce simp: main_step_def Let_def obind_Ret_iff insert_lock_def split: if_splits)
next
  case (Cleaning c p)
  then show ?thesis using assms unlock_list_change [where a = 0]
    by (auto simp: main_step_def Let_def obind_Ret_iff dest: remove_step_mutex split: if_splits)
next
  case Clean_lock
  then show ?thesis using assms lock_list_change [where a = 0]
    by (auto simp: main_step_def Let_def obind_Ret_iff)
qed (use assms in \<open>auto simp: main_step_def Let_def split: if_splits\<close>)

lemma shut_step_change:
  assumes "shut_step e env cenv i v = Ret v'"
  obtains ps w where "v' = enter v i ps w" and "sessions (threads w) = clients v" and "records w = records (whole v)"
    and "main_at w = main_at (whole v)"
    and "lock_change (list_mutex (whole v)) (client_holds (handling_at v i)) (list_mutex w) (client_holds ps)"
    and "client_holds ps < client_holds (handling_at v i) \<Longrightarrow> list_mutex w = Destroyed"
    and "\<And>d. datas (main_proc (whole v)) d = None \<Longrightarrow> datas (main_proc w) d = None"
proof (cases "handling_at v i")
  case Nil
  then show thesis using assms by (simp add: shut_step_def)
next
  case (Cons q r)
  show thesis
  proof (cases q)
    case Lock_list
    then obtain s where s: "lock_list (main_proc (whole v)) = Ret s"
      "v' = enter v i (Walk (head s) NULL # r) (whole v\<lparr>main_proc := s\<rparr>)"
      using assms Cons by (auto simp: shut_step_def Let_def obind_Ret_iff)
    have "datas s = datas (main_proc (whole v))" using s(1) by (auto simp: lock_list_def obind_Ret_iff)
    then show thesis by (intro that [OF s(2)]) (use lock_list_change [OF s(1)] Cons Lock_list in simp_all)
  next
    case (Walk c p)
    show thesis
    proof (cases "c = NULL")
      case True
      then obtain w where w: "finish_main cenv (Some (main_at (whole v))) (whole v) = Ret w" "v' = enter v i r w"
        using assms Cons Walk by (auto simp: shut_step_def Let_def obind_Ret_iff)
      from finish_main_change [OF w(1)] show thesis
        by (intro that [OF w(2)]) (simp_all add: lock_change_def unsignalled_def Cons Walk)
    next
      case False
      then obtain c' p' s where s: "shut_round e (joining env (whole v)) i c p (main_proc (whole v)) = Ret (c', p', s)"
        "v' = enter v i (Walk c' p' # r) (whole v\<lparr>main_proc := s\<rparr>)"
        using assms Cons Walk by (auto simp: shut_step_def Let_def obind_Ret_iff)
      show thesis by (rule that [OF s(2)]) (use shut_round_mutex [OF s(1)] shut_round_datas [OF s(1)] Cons Walk in simp_all)
    qed
  qed
qed

lemma handler_step_same:
  assumes "handler_step cenv i w = Ret w'"
  shows "list_mutex w' = list_mutex w \<and> main_at w' = main_at w \<and> records w' = records w \<and>
    length (sessions (threads w')) = length (sessions (threads w)) \<and>
    (\<forall>j. j \<noteq> i \<longrightarrow> sessions (threads w') ! j = sessions (threads w) ! j)"
  using assms by (auto simp: handler_step_def Let_def obind_Ret_iff set_complete_def split: if_splits)

lemma list_holds_change:
  assumes "i < length (clients v)" and "length (sessions (threads w)) = length (clients v)" and "main_at w = main_at (whole v)"
    and "lock_change m (client_holds (handling_at v i)) m' (client_holds ps)"
    and "list_holds v = (if m = Locked then 1 else 0)"
  shows "list_holds (enter v i ps w) = (if m' = Locked then 1 else 0)"
proof -
  let ?others = "main_holds (main_at w) + (\<Sum>j \<in> {..<length (clients v)} - {i}. client_holds (handling_at v j))"
  have "list_holds v = client_holds (handling_at v i) + ?others"
    using assms(1,3) by (simp add: list_holds_def sum.remove)
  moreover have "list_holds (enter v i ps w) = client_holds ps + ?others"
    using assms(1,2) by (simp add: list_holds_def enter_def sum.remove)
  ultimately show ?thesis using lock_change_total [OF assms(4)] assms(5) by simp
qed

lemma signalled_step_inv:
  assumes "signalled_step e env cenv v v'" and "list_inv v"
  shows "list_inv v'"
  using assms
proof cases
  case (main_thread w)
  note ch = main_step_change [OF main_thread(2)]
  from assms(2) show ?thesis using ch lock_change_total [OF conjunct1 [OF ch]]
    by (simp add: list_inv_def list_holds_def main_thread(1)) 
next
  case (client_thread i w)
  from handler_step_same [OF client_thread(4)] assms(2) show ?thesis
    by (simp add: list_inv_def list_holds_def client_thread(1))
next
  case (shutdown i)
  from shutdown(2) obtain ps w where w: "v' = enter v i ps w" "sessions (threads w) = clients v"
    "main_at w = main_at (whole v)"
    "lock_change (list_mutex (whole v)) (client_holds (handling_at v i)) (list_mutex w) (client_holds ps)"
    by (rule shut_step_change) (rule that; assumption)
  have "list_holds v' = (if list_mutex w = Locked then 1 else 0)"
    unfolding w(1) by (rule list_holds_change [OF shutdown(1) _ w(3,4)]) (use assms(2) w(2) in \<open>simp_all add: list_inv_def\<close>)
  moreover have "list_mutex (whole v) = Destroyed \<Longrightarrow> list_mutex w = Destroyed"
    using w(4) by (auto simp: lock_change_def)
  ultimately show ?thesis using assms(2) shutdown(1) w by (auto simp: list_inv_def enter_def)
next
  case (accepted fd rs)
  then show ?thesis using assms(2)
    by (simp add: list_inv_def list_holds_def in_accept_def start_session_def new_record_def Let_def)
next
  case (not_created fd)
  then show ?thesis using assms(2)
    by (simp add: list_inv_def list_holds_def in_accept_def failed_session_def new_record_def Let_def)
next
  case signal_main
  then show ?thesis using assms(2) by (simp add: list_inv_def list_holds_def interrupted_def)
next
  case (signal_client i)
  have "list_holds v' = (if list_mutex (whole v) = Locked then 1 else 0)"
    unfolding signal_client(1) signal_thread_def
    by (rule list_holds_change [OF signal_client(2)]) (use assms(2) in \<open>simp_all add: list_inv_def\<close>)
  then show ?thesis using assms(2) signal_client by (auto simp: list_inv_def signal_thread_def enter_def)
qed


lemma main_step_records:
  assumes "main_step env cenv w = Some (Ret w')"
  shows "records w' = records w \<and> (datas (main_proc w) d = None \<longrightarrow> datas (main_proc w') d = None)"
proof (cases "main_at w")
  case (Shutting c p r)
  then show ?thesis using assms finish_main_change [of cenv r w w']
    by (auto simp: main_step_def Let_def obind_Ret_iff dest: remove_step_datas split: if_splits)
qed (use assms in \<open>auto simp: main_step_def Let_def obind_Ret_iff tbind_Ret_iff insert_lock_def insert_link_def
      lock_list_def unlock_list_def set_next_def dest: remove_step_datas split: if_splits option.splits\<close>)

subsection \<open>A client thread has the list\<close>

text \<open>
  The loop of \<open>do_shutdown\<close> runs in client thread \<open>i\<close>, or a shutdown is over; the main thread stands
  outside the list sections.
\<close>

definition stopped :: "nat \<Rightarrow> 'f signalled \<Rightarrow> bool" where
  "stopped i v \<longleftrightarrow> list_inv v \<and> main_holds (main_at (whole v)) = 0 \<and> main_at (whole v) \<noteq> Finished \<and>
     (list_mutex (whole v) = Destroyed \<or> 0 < client_holds (handling_at v i))"

lemma client_holds_locked:
  assumes inv: "list_inv v" and i: "0 < client_holds (handling_at v i)"
  shows "list_mutex (whole v) = Locked" and "main_holds (main_at (whole v)) = 0"
proof -
  have "i < length (clients v)" using inv i by (cases "i < length (clients v)") (auto simp: list_inv_def)
  then have "client_holds (handling_at v i) \<le> (\<Sum>i<length (clients v). client_holds (handling_at v i))"
    by (intro member_le_sum) simp_all
  then show "list_mutex (whole v) = Locked" "main_holds (main_at (whole v)) = 0"
    using inv i by (auto simp: list_inv_def list_holds_def split: if_splits)
qed

lemma main_holds_Shutting [simp]: "main_holds (Shutting c p r) \<noteq> 0"
  by (cases r) simp_all

lemma stopped_start:
  assumes "list_inv v" and "0 < client_holds (handling_at v i)"
  shows "stopped i v"
proof -
  note lk = client_holds_locked [OF assms]
  moreover have "main_at (whole v) \<noteq> Finished" using assms(1) lk(1) unfolding list_inv_def by auto
  ultimately show ?thesis using assms by (simp add: stopped_def)
qed

lemma stopped_mutex:
  assumes "stopped i v"
  shows "list_mutex (whole v) \<noteq> Unlocked"
  using assms client_holds_locked(1) [of v i] unfolding stopped_def by auto

lemma stopped_main:
  assumes "stopped i v"
  shows "main_at (whole v) = Accepting \<or> main_step env cenv (whole v) \<in> {Some Blocked, Some Undef}"
proof (cases "list_mutex (whole v)")
  case Unlocked
  then show ?thesis using stopped_mutex [OF assms] by simp
next
  case Locked
  then show ?thesis using assms
    by (cases "main_at (whole v)") (auto simp: stopped_def main_step_def insert_lock_def lock_list_def Let_def)
next
  case Destroyed
  then show ?thesis using assms
    by (cases "main_at (whole v)") (auto simp: stopped_def main_step_def insert_lock_def lock_list_def Let_def)
qed

lemma stopped_step:
  assumes st: "signalled_step e env cenv v v'" and stop: "stopped i v"
  shows "stopped i v'"
proof -
  have inv: "list_inv v'" using signalled_step_inv [OF st] stop by (simp add: stopped_def)
  from st show ?thesis
  proof cases
    case (main_thread w)
    then have "main_at (whole v) = Accepting" using stopped_main [OF stop, of env cenv] by auto
    then have "w = (whole v)\<lparr>main_at := Shut_lock None\<rparr>"
      using main_thread(2) by (auto simp: main_step_def Let_def split: if_splits)
    then show ?thesis using stop inv by (simp add: stopped_def main_thread(1))
  next
    case (client_thread j w)
    then show ?thesis using stop inv handler_step_same [OF client_thread(4)] by (simp add: stopped_def)
  next
    case (shutdown j)
    from shutdown(2) obtain ps w where w: "v' = enter v j ps w" "main_at w = main_at (whole v)"
      "lock_change (list_mutex (whole v)) (client_holds (handling_at v j)) (list_mutex w) (client_holds ps)"
      "client_holds ps < client_holds (handling_at v j) \<Longrightarrow> list_mutex w = Destroyed"
      by (rule shut_step_change) (rule that; assumption)
    have "list_mutex w = Destroyed \<or> 0 < client_holds (handling_at v' i)"
    proof (cases "list_mutex (whole v) = Destroyed")
      case True
      then show ?thesis using w(3) by (auto simp: lock_change_def)
    next
      case False
      then have "0 < client_holds (handling_at v i)" using stop by (simp add: stopped_def)
      then show ?thesis using w(4) by (cases "j = i"; cases "client_holds ps") (auto simp: w(1) enter_def)
    qed
    then show ?thesis using stop inv w(2) by (simp add: stopped_def w(1) enter_def)
  next
    case (accepted fd rs)
    then show ?thesis using stop inv by (simp add: stopped_def start_session_def new_record_def Let_def)
  next
    case (not_created fd)
    then show ?thesis using stop inv by (simp add: stopped_def failed_session_def new_record_def Let_def)
  next
    case signal_main
    then show ?thesis using stop inv by (simp add: stopped_def interrupted_def)
  next
    case (signal_client j)
    then show ?thesis using stop inv by (auto simp: stopped_def signal_thread_def enter_def)
  qed
qed

lemma stopped_steps: "(signalled_step e env cenv)\<^sup>*\<^sup>* v v' \<Longrightarrow> stopped i v \<Longrightarrow> stopped i v'"
  by (induction rule: rtranclp_induct) (auto intro: stopped_step)

subsection \<open>A client thread without its record\<close>

text \<open>The record of session \<open>i\<close> is freed before the session is over, or its memory is another record.\<close>

definition reused :: "nat \<Rightarrow> 'f whole \<Rightarrow> bool" where
  "reused i w \<longleftrightarrow> (\<exists>j < length (records w). j \<noteq> i \<and> records w ! j = records w ! i)"

definition without_record :: "nat \<Rightarrow> 'f whole \<Rightarrow> bool" where
  "without_record i w \<longleftrightarrow> length (records w) = length (sessions (threads w)) \<and> i < length (records w) \<and>
     (datas (main_proc w) (records w ! i) = None \<and> place (sessions (threads w) ! i) \<noteq> Done \<or> reused i w)"

lemma last_statement: "session_step env t s = Ret (t', s') \<Longrightarrow> place t' = Done \<Longrightarrow> place t = End_socket"
  by (cases "place t") (auto simp: session_step_def receive_def Let_def obind_Ret_iff take_lock_def give_lock_def
      split: list.splits recv_result.splits if_splits)

lemma without_record_handler:
  assumes rec: "without_record i w" and j: "j < length (sessions (threads w))" and st: "handler_step cenv j w = Ret w'"
  shows "without_record i w'"
proof (cases "reused i w")
  case True
  then show ?thesis using rec handler_step_same [OF st] by (auto simp: without_record_def reused_def)
next
  case False
  then have free: "datas (main_proc w) (records w ! i) = None" and pl: "place (sessions (threads w) ! i) \<noteq> Done"
    using rec by (auto simp: without_record_def)
  have "datas (main_proc w') (records w ! i) = None"
    using st free by (auto simp: handler_step_def Let_def obind_Ret_iff set_complete_def split: if_splits)
  moreover have "place (sessions (threads w') ! i) \<noteq> Done"
  proof (cases "j = i")
    case True
    obtain t s where t: "session_step cenv (sessions (threads w) ! i) (shared (threads w)) = Ret (t, s)"
      "sessions (threads w') ! i = t" "place (sessions (threads w) ! i) \<noteq> End_socket"
      using st j free by (auto simp: True handler_step_def Let_def obind_Ret_iff uses_record_def split: if_splits)
    then show ?thesis using last_statement by blast
  next
    case False
    then show ?thesis using pl handler_step_same [OF st] by auto
  qed
  ultimately show ?thesis using rec handler_step_same [OF st] by (simp add: without_record_def)
qed

lemma without_record_step:
  assumes st: "signalled_step e env cenv v v'" and rec: "without_record i (whole v)"
  shows "without_record i (whole v')"
  using st
proof cases
  case (main_thread w)
  then show ?thesis using rec main_step_change [OF main_thread(2)] main_step_records [OF main_thread(2)]
    by (auto simp: without_record_def reused_def)
next
  case (client_thread j w)
  then show ?thesis using without_record_handler [OF rec] by simp
next
  case (shutdown j)
  from shutdown(2) obtain ps w where "v' = enter v j ps w" "sessions (threads w) = clients v"
    "records w = records (whole v)" "\<And>d. datas (main_proc (whole v)) d = None \<Longrightarrow> datas (main_proc w) d = None"
    by (rule shut_step_change) (rule that; assumption)
  then show ?thesis using rec by (auto simp: without_record_def reused_def enter_def)
next
  case (accepted fd rs)
  then show ?thesis using rec
    by (fastforce simp: without_record_def reused_def start_session_def new_record_def Let_def nth_append)
next
  case (not_created fd)
  then show ?thesis using rec by (auto simp: without_record_def reused_def failed_session_def new_record_def Let_def)
next
  case signal_main
  then show ?thesis using rec by (auto simp: without_record_def reused_def interrupted_def)
next
  case (signal_client j)
  then show ?thesis using rec by (auto simp: without_record_def reused_def signal_thread_def enter_def)
qed

lemma without_record_steps:
  "(signalled_step e env cenv)\<^sup>*\<^sup>* v v' \<Longrightarrow> without_record i (whole v) \<Longrightarrow> without_record i (whole v')"
  by (induction rule: rtranclp_induct) (auto intro: without_record_step)

end
