(* ===== verification/Signal_Properties.thy ===== *)
theory Signal_Properties
  imports Thread_Signals Whole_Properties
begin

text \<open>
  What a signal does that the system delivers to a client thread: the main thread never gets its
  list back, and the client thread frees its own record.
\<close>

lemma started_list_inv:
  assumes "main_setup net argv initial_proc = (None, s)"
  shows "list_inv (unsignalled (started s f))"
  using setup_inv [OF assms]
  by (simp add: list_inv_def list_holds_def unsignalled_def started_def idle_server_def loop_inv_def)

lemma reachable_list_inv:
  assumes start: "main_setup net argv initial_proc = (None, s)"
    and run: "(signalled_step e env cenv)\<^sup>*\<^sup>* (unsignalled (started s f)) v"
  shows "list_inv v"
  using run by (induction rule: rtranclp_induct) (auto intro: started_list_inv [OF start] signalled_step_inv)


text \<open>A server with one client, whose thread has been given a signal and has the list.\<close>

definition own_node :: "nat \<Rightarrow> 'f signalled \<Rightarrow> bool" where
  "own_node i v \<longleftrightarrow> (\<exists>c p r n t. handling_at v i = Walk c p # r \<and> c \<noteq> NULL \<and> nodes (main_proc (whole v)) c = Some n \<and>
     node_data n = records (whole v) ! i \<and> datas (main_proc (whole v)) (node_data n) = Some t \<and> threadId t = i)"

lemma signalled_example:
  obtains s v c where "main_setup good_net [''aesdsocket''] initial_proc = (None, s)"
    and "(signalled_step e easy_env example_env)\<^sup>*\<^sup>* (unsignalled (started s two_system)) v"
    and "length (clients v) = 1" and "place (clients v ! 0) = Receive" and "handling_at v 0 = [Walk c NULL]" and "own_node 0 v"
proof -
  obtain s where s: "main_setup good_net [''aesdsocket''] initial_proc = (None, s)" using good_setup ..
  have inv: "loop_inv [] [] s" by (rule setup_inv [OF s])
  then have hd: "head s = NULL" "nodes s = Map.empty" "datas s = Map.empty" "listMutex s = Unlocked"
    by (simp_all add: loop_inv_def threads_rep_def)
  let ?step = "signalled_step e easy_env example_env"
  let ?w0 = "started s two_system" and ?w1 = "start_session easy_env example_env 4 [] (started s two_system)"
  let ?d = "malloc_data easy_env (datas s)" and ?a = "malloc_node easy_env (nodes s)"
  have nz: "?a \<noteq> NULL" using easy_env_ok by (simp add: hd env_ok_def)
  have w1: "main_proc ?w1 = s\<lparr>datas := [?d \<mapsto> \<lparr>threadId = 0, client_fd = 4, thread_data_t.isComplete = 0\<rparr>]\<rparr>"
    "main_at ?w1 = Insert_lock ?d" "records ?w1 = [?d]" "sessions (threads ?w1) = [new_session example_env []]"
    by (simp_all add: start_session_def new_record_def started_def idle_server_def Let_def hd)
  let ?p3 = "(main_proc ?w1)\<lparr>nodes := [?a \<mapsto> \<lparr>node_data = ?d, node_next = NULL\<rparr>], head := ?a\<rparr>"
  let ?w2 = "?w1\<lparr>main_proc := ?p3\<lparr>head := NULL, listMutex := Locked\<rparr>, main_at := Insert_link ?a\<rparr>"
  let ?w3 = "?w1\<lparr>main_proc := ?p3, main_at := Clean_lock\<rparr>"
  let ?v3 = "unsignalled ?w3" let ?v4 = "signal_thread 0 ?v3"
  let ?v5 = "enter ?v4 0 [Walk ?a NULL] (whole ?v4\<lparr>main_proc := (main_proc (whole ?v4))\<lparr>listMutex := Locked\<rparr>\<rparr>)"
  have "?step (unsignalled ?w0) (unsignalled ?w1)" by (rule whole_step_signalled [OF example_client [OF s]])
  moreover have "main_step easy_env example_env ?w1 = Some (Ret ?w2)"
    using nz by (simp add: main_step_def insert_lock_def lock_list_def Let_def w1 hd)
  then have "?step (unsignalled ?w1) (unsignalled ?w2)" by (rule whole_step_signalled [OF whole_step.statement_of_main])
  moreover have "main_step easy_env example_env ?w2 = Some (Ret ?w3)"
    by (simp add: main_step_def insert_link_def unlock_list_def Let_def w1 hd)
  then have "?step (unsignalled ?w2) ?v3" by (rule whole_step_signalled [OF whole_step.statement_of_main])
  moreover have "?step ?v3 ?v4"
    by (rule signalled_step.signal_client) (simp_all add: unsignalled_def w1 new_session_def)
  moreover have "shut_step e easy_env example_env 0 ?v4 = Ret ?v5"
    by (simp add: shut_step_def signal_thread_def enter_def unsignalled_def lock_list_def Let_def w1 hd)
  then have "?step ?v4 ?v5"
    by (intro signalled_step.shutdown) (simp_all add: signal_thread_def enter_def unsignalled_def w1)
  ultimately have "?step\<^sup>*\<^sup>* (unsignalled ?w0) ?v5" by (meson rtranclp.rtrancl_refl rtranclp.rtrancl_into_rtrancl)
  moreover have "length (clients ?v5) = 1" "place (clients ?v5 ! 0) = Receive" "handling_at ?v5 0 = [Walk ?a NULL]"
    by (simp_all add: enter_def signal_thread_def unsignalled_def w1 new_session_def)
  moreover have "own_node 0 ?v5"
    using nz by (simp add: own_node_def enter_def signal_thread_def unsignalled_def w1)
  ultimately show thesis by (rule that [OF s])
qed

text \<open>C16: when a signal is delivered to a client thread and the \<open>do_shutdown\<close> of its handler has got the
  list mutex, the main thread never has the list again, whatever the threads do and whatever other
  signals come: from then on it is at \<open>accept\<close>, or its next statement waits for the list mutex or
  locks the destroyed one. It never comes to the end of \<open>main\<close>.\<close>

theorem signal_in_client_stops_main:
  assumes start: "main_setup net argv initial_proc = (None, s)"
    and run: "(signalled_step e env cenv)\<^sup>*\<^sup>* (unsignalled (started s f)) v"
    and got: "handling_at v i = Walk c p # r"
    and after: "(signalled_step e env cenv)\<^sup>*\<^sup>* v v'"
  shows "main_at (whole v') \<noteq> Finished \<and>
    (main_at (whole v') = Accepting \<or> main_step env cenv (whole v') \<in> {Some Blocked, Some Undef})"
proof -
  have "stopped i v" using stopped_start [OF reachable_list_inv [OF start run], of i] got by simp
  then have st: "stopped i v'" by (rule stopped_steps [OF after])
  then show ?thesis using stopped_main [OF st, of env cenv] by (simp add: stopped_def)
qed

theorem signal_in_client_stops_main_witness:
  "\<exists>s v. (signalled_step True easy_env example_env)\<^sup>*\<^sup>* (unsignalled (started s two_system)) v \<and>
     main_at (whole v) \<noteq> Finished \<and>
     (main_at (whole v) = Accepting \<or> main_step easy_env example_env (whole v) \<in> {Some Blocked, Some Undef})"
proof -
  obtain s v c where s: "main_setup good_net [''aesdsocket''] initial_proc = (None, s)"
    and run: "(signalled_step True easy_env example_env)\<^sup>*\<^sup>* (unsignalled (started s two_system)) v"
    and got: "handling_at v 0 = [Walk c NULL]" by (rule signalled_example)
  from signal_in_client_stops_main [OF s run got rtranclp.rtrancl_refl] run show ?thesis by blast
qed



end
