(* ===== verification/Spec2Isabelle.thy ===== *)
theory Spec2Isabelle
  imports Device_Properties Seek_Properties Module_Properties Thread_Properties Session_Properties
    System_Properties Threading Writer Timestamp Interleaving_Properties
    Whole_Properties Motion_Detector Concurrency_Properties Signal_Properties
begin

text \<open>
  A model of the programs of this repository: a Linux character driver that keeps the last ten
  lines written to it, the socket servers that store what clients send and send it back, and the
  smaller exercises around them. All file names below are under \<^verbatim>\<open>src/\<close>.

  \<^bold>\<open>The parts and how they meet.\<close> The driver (\<^verbatim>\<open>aesd-char-driver\<close>) keeps a ring of ten packets
  (\<^verbatim>\<open>aesd-circular-buffer.c\<close>) and a buffer for the unfinished line, both under one mutex; its file
  operations (\<^verbatim>\<open>main.c\<close>) are called by processes through \<open>open\<close>, \<open>write\<close>, \<open>read\<close>, \<open>lseek\<close>,
  \<open>ioctl\<close> and \<open>close\<close>. The server \<^verbatim>\<open>server/aesdsocket.c\<close> accepts clients, runs one thread for
  each, writes their messages to the device and sends its content back; a message can also ask for a
  position with the seek \<open>ioctl\<close>. \<^verbatim>\<open>server/aesdsocket-simple.c\<close> is the same server on a regular
  file. \<^verbatim>\<open>examples/systemcalls\<close>, \<^verbatim>\<open>examples/threading\<close>, \<^verbatim>\<open>finder-app/writer.c\<close>,
  \<^verbatim>\<open>examples/autotest-validate\<close> and \<^verbatim>\<open>capture/DisplayImage.cpp\<close> stand alone.

  \<^bold>\<open>Conventions.\<close> C integers keep their width (\<open>Prelude\<close>; \<open>size_t\<close> and \<open>loff_t\<close> have 64 bits);
  results of library calls that are only compared are \<open>int\<close>. A call returns a value (\<open>Ret\<close>), waits
  for ever (\<open>Blocked\<close>) or runs into undefined behaviour (\<open>Undef\<close>), where \<open>obind\<close> chains calls. The
  walks over linked lists, the send loops and the loop of the motion detector are partial functions into \<open>option\<close>, where \<open>None\<close> means
  that they do not end, and their theorems state that they return; every other loop is a total
  recursive function, so that no fuel is used. The kernel, the network, the scheduler and the C
  library are parameters (\<open>kernel\<close>, \<open>net\<close>, \<open>thread_env\<close>, \<open>iteration\<close>, \<open>client_env\<close>, \<open>file_api\<close>,
  \<open>os\<close>, \<open>writer_env\<close>, \<open>vision\<close>); what is expected of them is a hypothesis (\<open>kernel_ok\<close>, \<open>env_ok\<close>,
  \<open>rounds_ok\<close>, the locales \<open>data_file\<close>, \<open>data_file_fds\<close>, \<open>data_calls\<close> and \<open>live_calls\<close>), met by the instances of the \<open>Example\<close> theories.

  \<^bold>\<open>The driver.\<close>
  \<^item> \<open>Circular_Buffer\<close>: the ring of \<^verbatim>\<open>aesd-circular-buffer.c\<close>, its invariant \<open>cb_inv\<close> and its contents
    as a list; \<open>Log_Interface\<close> states what a recent log promises as locales, interpreted on the ring;
    \<open>Buffer_Properties\<close>: adding is \<open>push\<close>, searching finds the byte, the running size and where it
    goes wrong.
  \<^item> \<open>Kernel_Interface\<close>: memory, user copies, the mutex and \<open>krealloc\<close> as parameters with their laws.
    \<open>Char_Device\<close>: \<open>aesd_open\<close>, \<open>aesd_release\<close>, \<open>aesd_llseek\<close>, \<open>aesd_file_offset\<close>,
    \<open>aesd_ioctl\<close>, \<open>aesd_read\<close> and \<open>aesd_write\<close> of \<^verbatim>\<open>main.c\<close>, each whole, with its error branches.
  \<^item> \<open>Device_State\<close>, \<open>Device_Write\<close>, \<open>Device_Read\<close>, \<open>Device_Seek\<close>: the list of packets a device
    state stands for, and the effect of each operation on it. \<open>Device_System\<close>: sequences of system
    calls of all processes, their refinement to steps of an abstract log, and safety of every
    reachable state. \<open>Device_History\<close>: the bytes accepted so far, as lines.
  \<^item> \<open>Driver_Module\<close>: loading and unloading. \<open>Device_Properties\<close>, \<open>Seek_Properties\<close> and
    \<open>Module_Properties\<close> hold the properties, \<open>Example_Kernel\<close> and \<open>Example_Device\<close> the instances.

  \<^bold>\<open>The servers.\<close>
  \<^item> \<open>Thread_List\<close>: the global variables and the list of threads on a heap of nodes and records;
    \<open>insertNode\<close>, \<open>removeCompletedThreads\<close>, \<open>do_shutdown\<close>; \<open>threads_rep\<close> says which list of threads
    the heap holds.
  \<^item> \<open>Socket_Main\<close>: the setup, the accept loop, signals and \<open>make_Daemon\<close>, with the invariant of the
    loop; \<open>Server_Program\<close>: \<open>main\<close> of both programs, and the functions of the simple server.
    \<open>Thread_Properties\<close>: what the list operations and the loop do.
  \<^item> \<open>Socket_Client\<close>: \<open>client_handler\<close> of both programs, over a data file given by its calls.
    \<open>Data_File\<close>: the contract of such a file as a locale, and what the handlers do on every file that
    keeps it. \<open>Device_File\<close> interprets it on the model of the driver, \<open>Plain_File\<close> on a regular file.
    \<open>Seek_Command\<close>: printing and scanning seek commands. \<open>Timestamp\<close>: the timestamp thread.
  \<^item> \<open>Server_Interleaving\<close>: several handlers at once, statement by statement, over the shared
    \<open>file_fd\<close> and \<open>fileMutex\<close>, as a step relation with an invariant of the mutex; \<open>Session_Runs\<close>: a
    session that runs alone does what \<open>client_handler\<close> says (a simulation). \<open>Lost_Message\<close>: a contract
    for closed descriptors, and how a session that ends makes another one lose its message, and a
    message cuts off the reply to another session.
    \<open>Simple_Interleaving\<close>: the handlers of the simple server, which those of \<open>aesdsocket.c\<close> simulate.
    \<open>Interleaving_Properties\<close>: where the mutex keeps sessions apart, and lost messages and
    cut replies on the device and lost messages on a regular file.
  \<^item> \<open>Place_Order\<close>: the order of the statements of a handler in its text. \<open>Message_Order\<close>: a contract for
    calls on any descriptor (\<open>data_calls\<close>), and on every file that keeps it the messages that any
    schedule writes. \<open>Session_Progress\<close>: a contract for calls that return (\<open>live_calls\<close>), a measure
    that every statement of a session decreases, and schedules that end all sessions. \<open>Any_Descriptor\<close> and
    \<open>Live_Files\<close> interpret the two contracts on the driver and on a regular file;
    \<open>Whole_Progress\<close> adds the main thread: runs of the whole server as lists of actions, and how they go on.
    \<open>Concurrency_Properties\<close>: the order of the messages on the device, and that from every state without
    a signal all clients can be served.
  \<^item> \<open>Whole_Server\<close>: \<open>aesdsocket.c\<close> as one system, the main thread (\<open>main_place\<close>, \<open>main_step\<close>) beside the
    sessions, which share the thread records with it; the list functions go one round of their loops
    at a time, a join waits for the session to end, and a signal may come at every place of the main
    thread. \<open>Whole_Invariant\<close>: which records are allocated, what the list is at each place, and what
    signals do to its mutex. \<open>Whole_Runs\<close>: the small steps do what the functions of \<open>Thread_List\<close> say,
    and clients served one after the other. \<open>Whole_Properties\<close>: no record is used after it is freed, the
    main thread makes progress until a signal comes, and no run ends orderly after one.
    \<open>Thread_Signals\<close>: signals in client threads, which then run \<open>do_shutdown\<close> (\<open>shut_step\<close>), with the
    invariant of who has the list; \<open>Signal_Properties\<close>: the main thread stops, and the client thread
    frees its own record.
  \<^item> \<open>Server_Properties\<close> and \<open>Session_Properties\<close>: what a session stores and sends back, the seek
    command from the client's text to the driver, the use of the file mutex, exit codes.

  \<^bold>\<open>The exercises.\<close> \<open>System_Calls\<close> and \<open>System_Properties\<close>: \<open>do_system\<close>, \<open>do_exec\<close> and
  \<open>do_exec_redirect\<close>, in parent and child. \<open>Threading\<close>: a thread as a step relation between its
  statements, interleaved with other users of the mutex, with an invariant of the reachable states.
  \<open>Writer\<close>: \<^verbatim>\<open>writer.c\<close> and the setup test. \<open>Motion_Detector\<close>: \<open>main\<close> of \<^verbatim>\<open>DisplayImage.cpp\<close> over the
  functions of OpenCV, and what it shows.

  \<^bold>\<open>Not modelled.\<close> Printing and logging, except where it is the result. Each system call on the
  driver is one step (the device mutex is held throughout). In \<open>Whole_Server\<close> a signal runs its
  handler in the main thread, in \<open>Thread_Signals\<close> in any thread; the number of a thread is not used
  again. Whole runs of the main thread are modelled for
  \<open>aesdsocket.c\<close>; the main thread of the simple server, the same text, has the sequential model only.
  Reading the 1024-byte receive buffer as a string beyond its end is modelled by a parameter for the
  memory behind it; the same overrun in \<open>printf\<close> is not. \<^verbatim>\<open>capture/CMakeFiles\<close> is generated, and the
  shell scripts are no part of the C programs.
\<close>

end
